(* ===== verification/SBN_Prelude.thy ===== *)
theory SBN_Prelude
  imports Main "HOL-Library.Word"
begin

text \<open>
  Shared ground of the development: the machine types the C code uses, the faults a C
  statement can run into (kept as values, so that "no undefined behaviour" is a theorem and
  not a silent assumption), checked accesses to C arrays and buffers, the scanning
  \<open>for\<close> loop of the source, and the list lemmas every component needs.
\<close>

section \<open>Machine types\<close>

type_synonym byte = "8 word"
type_synonym u8 = "8 word"
type_synonym u16 = "16 word"
type_synonym u32 = "32 word"

text \<open>\<open>int\<close> and \<open>int32\<close> are two's complement 32-bit words, read with \<open>sint\<close> where the code
  compares them with a sign; \<open>size_t\<close> is the 64-bit word of the Linux targets.\<close>

type_synonym i32 = "32 word"
type_synonym size_t = "64 word"

section \<open>Faults\<close>

text \<open>
  What can stop a C function from returning a value: an access outside an array or through
  \<open>NULL\<close> (undefined behaviour), or a system call that never returns because the peer sends
  nothing more. A modelled function returns \<open>Inl\<close> of a fault or \<open>Inr\<close> of its result.
\<close>

datatype fault = OutOfBounds | NullDeref | Blocked

type_synonym 'a run = "fault + 'a"

definition bindR :: "'a run \<Rightarrow> ('a \<Rightarrow> 'b run) \<Rightarrow> 'b run" where
  "bindR r f = (case r of Inl e \<Rightarrow> Inl e | Inr x \<Rightarrow> f x)"

lemma bindR_simps [simp]:
  "bindR (Inl e) f = Inl e"
  "bindR (Inr x) f = f x"
  by (simp_all add: bindR_def)

lemma bindR_Inr_iff: "bindR r f = Inr y \<longleftrightarrow> (\<exists>x. r = Inr x \<and> f x = Inr y)"
  by (cases r) auto

lemma bindR_Inl_iff: "bindR r f = Inl e \<longleftrightarrow> r = Inl e \<or> (\<exists>x. r = Inr x \<and> f x = Inl e)"
  by (cases r) auto

lemma bindR_cong [fundef_cong]:
  "r = r' \<Longrightarrow> (\<And>x. r' = Inr x \<Longrightarrow> f x = g x) \<Longrightarrow> bindR r f = bindR r' g"
  by (cases r') auto

section \<open>Collections\<close>

text \<open>\<open>sbn_wf\<close>: introduction and preservation of well-formedness; \<open>sbn_frame\<close>: what an
  operation leaves unchanged.\<close>

named_theorems sbn_wf
named_theorems sbn_frame

section \<open>Checked array and buffer accesses\<close>

definition arr_get :: "'a list \<Rightarrow> nat \<Rightarrow> 'a run" where
  "arr_get xs i = (if i < length xs then Inr (xs ! i) else Inl OutOfBounds)"

definition arr_set :: "'a list \<Rightarrow> nat \<Rightarrow> 'a \<Rightarrow> 'a list run" where
  "arr_set xs i v = (if i < length xs then Inr (xs[i := v]) else Inl OutOfBounds)"

lemma arr_get_in [simp]: "i < length xs \<Longrightarrow> arr_get xs i = Inr (xs ! i)"
  by (simp add: arr_get_def)

lemma arr_get_out [simp]: "length xs \<le> i \<Longrightarrow> arr_get xs i = Inl OutOfBounds"
  by (simp add: arr_get_def)

lemma arr_set_in [simp]: "i < length xs \<Longrightarrow> arr_set xs i v = Inr (xs[i := v])"
  by (simp add: arr_set_def)

text \<open>\<open>overwrite m off bs\<close> is the memory \<open>m\<close> after \<open>memcpy (m + off, bs, length bs)\<close>.\<close>

definition overwrite :: "'a list \<Rightarrow> nat \<Rightarrow> 'a list \<Rightarrow> 'a list" where
  "overwrite m off bs = take off m @ bs @ drop (off + length bs) m"

definition mem_write :: "'a list \<Rightarrow> nat \<Rightarrow> 'a list \<Rightarrow> 'a list run" where
  "mem_write m off bs =
     (if off + length bs \<le> length m then Inr (overwrite m off bs) else Inl OutOfBounds)"

definition mem_read :: "'a list \<Rightarrow> nat \<Rightarrow> nat \<Rightarrow> 'a list run" where
  "mem_read m off n = (if off + n \<le> length m then Inr (take n (drop off m)) else Inl OutOfBounds)"

lemma length_overwrite [simp]:
  "off + length bs \<le> length m \<Longrightarrow> length (overwrite m off bs) = length m"
  by (simp add: overwrite_def)

lemma overwrite_Nil [simp]: "overwrite m off [] = m"
  by (simp add: overwrite_def)

lemma take_overwrite [simp]:
  "off \<le> length m \<Longrightarrow> take (off + length bs) (overwrite m off bs) = take off m @ bs"
  by (simp add: overwrite_def)

lemma take_overwrite_le: "n \<le> off \<Longrightarrow> off \<le> length m \<Longrightarrow> take n (overwrite m off bs) = take n m"
  by (simp add: overwrite_def min_def)

lemma overwrite_overwrite:
  "off + length as \<le> length m \<Longrightarrow>
   overwrite (overwrite m off as) (off + length as) bs = overwrite m off (as @ bs)"
  by (simp add: overwrite_def ac_simps)

lemma overwrite_full: "length bs = length m \<Longrightarrow> overwrite m 0 bs = bs"
  by (simp add: overwrite_def)

lemma take_overwrite_0 [simp]: "take (length bs) (overwrite m 0 bs) = bs"
  by (simp add: overwrite_def)

lemma mem_write_in [simp]:
  "off + length bs \<le> length m \<Longrightarrow> mem_write m off bs = Inr (overwrite m off bs)"
  by (simp add: mem_write_def)

lemma mem_read_in [simp]: "off + n \<le> length m \<Longrightarrow> mem_read m off n = Inr (take n (drop off m))"
  by (simp add: mem_read_def)

text \<open>An automatic array that the code has not initialised: \<open>n\<close> bytes of whatever the stack
  held, given by an arbitrary \<open>g\<close>.\<close>

definition uninit :: "(nat \<Rightarrow> byte) \<Rightarrow> nat \<Rightarrow> byte list" where
  "uninit g n = map g [0..<n]"

lemma length_uninit [simp]: "length (uninit g n) = n"
  by (simp add: uninit_def)

section \<open>The scanning loop\<close>

text \<open>
  \<open>for (i = 0; i < N; i++) if (p (xs[i])) return i;\<close> over an array of \<open>N\<close> elements: the
  index the loop returns, or none when it runs to the end.
\<close>

fun scan_from :: "nat \<Rightarrow> ('a \<Rightarrow> bool) \<Rightarrow> 'a list \<Rightarrow> nat option" where
  "scan_from i p [] = None"
| "scan_from i p (x # xs) = (if p x then Some i else scan_from (Suc i) p xs)"

definition scan :: "('a \<Rightarrow> bool) \<Rightarrow> 'a list \<Rightarrow> nat option" where
  "scan p xs = scan_from 0 p xs"

lemma scan_from_None: "scan_from i p xs = None \<longleftrightarrow> (\<forall>x \<in> set xs. \<not> p x)"
  by (induction xs arbitrary: i) auto

lemma scan_from_Some:
  "scan_from i p xs = Some k \<longleftrightarrow>
     (i \<le> k \<and> k < i + length xs \<and> p (xs ! (k - i)) \<and> (\<forall>j < k - i. \<not> p (xs ! j)))"
proof (induction xs arbitrary: i)
  case Nil
  then show ?case by simp
next
  case (Cons x xs)
  show ?case
  proof (cases "p x")
    case True
    then show ?thesis by (auto simp: nth_Cons' split: if_splits)
  next
    case False
    have split: "(\<forall>j < k - i. \<not> p ((x # xs) ! j)) \<longleftrightarrow> (\<forall>j < k - Suc i. \<not> p (xs ! j))"
      if "i < k" using that False by (auto simp: nth_Cons' less_diff_conv)
    show ?thesis
      using False split Cons.IH [of "Suc i"]
      by (cases "i < k") (auto simp: nth_Cons' Suc_le_eq le_less)
  qed
qed

lemma scan_None: "scan p xs = None \<longleftrightarrow> (\<forall>x \<in> set xs. \<not> p x)"
  by (simp add: scan_def scan_from_None)

lemma scan_Some:
  "scan p xs = Some k \<longleftrightarrow> k < length xs \<and> p (xs ! k) \<and> (\<forall>j < k. \<not> p (xs ! j))"
  by (simp add: scan_def scan_from_Some)

lemma scan_SomeD: "scan p xs = Some k \<Longrightarrow> k < length xs \<and> p (xs ! k)"
  by (simp add: scan_Some)

section \<open>Words\<close>

lemma u32_mod_32: "unat ((a :: u32) mod 32) = unat a mod 32"
  by (simp add: unat_mod_distrib)

text \<open>Because 32 divides \<open>2 ^ 32\<close>, a 32-bit sum that wraps still has the right residue.\<close>

lemma u32_add_mod_32: "unat ((a + b :: u32) mod 32) = (unat a + unat b) mod 32"
proof -
  have "(unat a + unat b) mod 4294967296 mod 32 = (unat a + unat b) mod 32"
    by (rule mod_mod_cancel) simp
  then show ?thesis by (simp add: unat_mod_distrib unat_word_ariths)
qed

lemma size_t_of_nat_eq:
  "m < 2 ^ 64 \<Longrightarrow> n < 2 ^ 64 \<Longrightarrow> (of_nat m :: size_t) = of_nat n \<longleftrightarrow> m = n"
  by (simp add: word_of_nat_eq_iff take_bit_nat_eq_self)

lemma sint_pos_unat:
  assumes "0 < sint (w :: i32)"
  shows "unat w = nat (sint w) \<and> unat w < 2 ^ 31"
proof -
  have lt: "uint w < 2 ^ 32" using unsigned_less [of w] by simp
  then have tb: "take_bit 32 (uint w) = uint w" by (simp add: take_bit_int_eq_self)
  have "sint w = signed_take_bit 31 (uint w)" by (simp add: sint_uint)
  also have "\<dots> = uint w - 2 ^ 32 * of_bool (bit (uint w) 31)"
    by (simp add: signed_take_bit_eq_take_bit_minus tb)
  finally have eq: "sint w = uint w - 2 ^ 32 * of_bool (bit (uint w) 31)" .
  have "uint w < 2 ^ 32" by (rule lt)
  then have "sint w = uint w" using eq assms by (cases "bit (uint w) 31") simp_all
  moreover have "sint w < 2 ^ 31" using sint_lt [of w] by simp
  ultimately show ?thesis by (metis nat_uint_eq nat_less_numeral_power_cancel_iff)
qed

end
