(* ===== verification/SBN_Platform.thy ===== *)
theory SBN_Platform
  imports SBN_Prelude
begin

unbundle bit_operations_syntax

text \<open>
  What the client is compiled and linked against and that is not under \<open>src/\<close>: the cFE, OSAL
  and SBN headers (status codes, sizes, message types, the CCSDS header macros), the
  texts of the C library's \<open>strerror\<close>, and the
  \<open>sbn_pack.h\<close> serializer. They are the fields of two records that every definition using
  them takes as an argument, and what the code relies on are the named hypotheses
  \<open>platform_ok\<close>, \<open>ccsds_v1_ok\<close> and \<open>packer_ok\<close>. The last part is the C library's side: stream
  sockets as the client sees them through \<open>read\<close> and \<open>write\<close>.
\<close>

section \<open>Constants of cFE, OSAL and SBN\<close>

record platform =
  CFE_SUCCESS :: i32
  OS_SUCCESS :: i32
  CFE_SB_BAD_ARGUMENT :: i32
  CFE_SB_TIME_OUT :: i32
  CFE_SB_NO_MESSAGE :: i32
  CFE_SB_PIPE_RD_ERR :: i32
  CFE_SB_MSG_TOO_BIG :: i32
  CFE_SB_BUF_ALOC_ERR :: i32
  CFE_EVS_ERROR :: i32
  CFE_SB_POLL :: i32
  CFE_SB_PEND_FOREVER :: i32
  CFE_SB_MAX_SB_MSG_SIZE :: nat
  OS_MAX_API_NAME :: nat
  SBN_PACKED_HDR_SZ :: nat
  SBN_PACKED_SUB_SZ :: nat
  SBN_NO_MSG :: u8
  SBN_SUB_MSG :: u8
  SBN_UNSUB_MSG :: u8
  SBN_APP_MSG :: u8
  SBN_PROTO_MSG :: u8
  SBN_IDENT :: "byte list"
  MESSAGE_FORMAT_IS_CCSDS_VER_2 :: bool
  CCSDS_CMD :: nat
  CFE_SB_CMD_MESSAGE_TYPE :: u32
  CCSDS_RD_SID :: "byte list \<Rightarrow> nat"
  CCSDS_RD_APID :: "byte list \<Rightarrow> nat"
  CCSDS_RD_TYPE :: "byte list \<Rightarrow> nat"
  CCSDS_RD_SUBSYSTEM_ID :: "byte list \<Rightarrow> nat"
  CCSDS_RD_LEN :: "byte list \<Rightarrow> nat"
  strerror :: "i32 \<Rightarrow> string"

text \<open>
  The documented facts the client relies on: success is 0 in cFE and in OSAL, the error codes
  are not success, \<open>CFE_SB_POLL\<close> is 0 and \<open>CFE_SB_PEND_FOREVER\<close> is -1 (as the Python binding
  restates), a packed SBN header is a 16-bit size, an 8-bit type and a 32-bit processor id, and
  the five message types of the SBN protocol are distinct from one another and from the
  heartbeat type the client defines.
\<close>

definition platform_ok :: "platform \<Rightarrow> bool" where
  "platform_ok P \<longleftrightarrow>
     CFE_SUCCESS P = 0 \<and> OS_SUCCESS P = 0 \<and>
     CFE_SB_BAD_ARGUMENT P \<noteq> 0 \<and> CFE_SB_TIME_OUT P \<noteq> 0 \<and> CFE_SB_NO_MESSAGE P \<noteq> 0 \<and>
     CFE_SB_PIPE_RD_ERR P \<noteq> 0 \<and> CFE_SB_MSG_TOO_BIG P \<noteq> 0 \<and> CFE_SB_BUF_ALOC_ERR P \<noteq> 0 \<and>
     CFE_EVS_ERROR P \<noteq> 0 \<and>
     CFE_SB_POLL P = 0 \<and> CFE_SB_PEND_FOREVER P = -1 \<and>
     SBN_PACKED_HDR_SZ P = 7 \<and> 7 \<le> CFE_SB_MAX_SB_MSG_SIZE P \<and>
     CFE_SB_MAX_SB_MSG_SIZE P < 2 ^ 31 \<and> 0 < OS_MAX_API_NAME P \<and>
     distinct [SBN_NO_MSG P, SBN_SUB_MSG P, SBN_UNSUB_MSG P, SBN_APP_MSG P, SBN_PROTO_MSG P, 0xA0]"

lemma platform_okD:
  assumes "platform_ok P"
  shows "CFE_SUCCESS P = 0" "OS_SUCCESS P = 0" "CFE_SB_BAD_ARGUMENT P \<noteq> 0"
    "CFE_SB_TIME_OUT P \<noteq> 0" "CFE_SB_NO_MESSAGE P \<noteq> 0" "CFE_SB_PIPE_RD_ERR P \<noteq> 0"
    "CFE_SB_MSG_TOO_BIG P \<noteq> 0" "CFE_SB_BUF_ALOC_ERR P \<noteq> 0" "CFE_EVS_ERROR P \<noteq> 0"
    "CFE_SB_POLL P = 0" "CFE_SB_PEND_FOREVER P = -1" "SBN_PACKED_HDR_SZ P = 7"
    "7 \<le> CFE_SB_MAX_SB_MSG_SIZE P" "CFE_SB_MAX_SB_MSG_SIZE P < 2 ^ 31"
    "0 < OS_MAX_API_NAME P"
  using assms by (simp_all add: platform_ok_def)

section \<open>Big-endian bytes and the CCSDS primary header\<close>

definition be16 :: "u16 \<Rightarrow> byte list" where
  "be16 w = [ucast (drop_bit 8 w), ucast w]"

definition be32 :: "u32 \<Rightarrow> byte list" where
  "be32 w = [ucast (drop_bit 24 w), ucast (drop_bit 16 w), ucast (drop_bit 8 w), ucast w]"

definition un16 :: "byte \<Rightarrow> byte \<Rightarrow> u16" where
  "un16 a b = push_bit 8 (ucast a) OR ucast b"

definition un32 :: "byte \<Rightarrow> byte \<Rightarrow> byte \<Rightarrow> byte \<Rightarrow> u32" where
  "un32 a b c d = push_bit 24 (ucast a) OR push_bit 16 (ucast b) OR push_bit 8 (ucast c) OR ucast d"

lemma length_be [simp]: "length (be16 w) = 2" "length (be32 v) = 4"
  by (simp_all add: be16_def be32_def)

lemma un16_be16 [simp]: "un16 (be16 w ! 0) (be16 w ! Suc 0) = w"
  by (rule bit_word_eqI) (auto simp: be16_def un16_def bit_simps)

lemma un32_be32 [simp]:
  "un32 (be32 w ! 0) (be32 w ! Suc 0) (be32 w ! 2) (be32 w ! 3) = w"
proof (rule bit_word_eqI)
  fix n assume "n < LENGTH(32)"
  then show "bit (un32 (be32 w ! 0) (be32 w ! Suc 0) (be32 w ! 2) (be32 w ! 3)) n = bit w n"
    by (cases "n < 8"; cases "n < 16"; cases "n < 24") (auto simp: be32_def un32_def bit_simps)
qed

text \<open>The CCSDS version 1 macros, as \<open>sbn_client.py\<close> documents the primary header: the stream
  id in bytes 0 and 1, and (total packet length) - 7 in bytes 4 and 5, high byte first.\<close>

definition ccsds_v1_ok :: "platform \<Rightarrow> bool" where
  "ccsds_v1_ok P \<longleftrightarrow> \<not> MESSAGE_FORMAT_IS_CCSDS_VER_2 P \<and>
     (\<forall>m. 6 \<le> length m \<longrightarrow>
        CCSDS_RD_SID P m = unat (m ! 0) * 256 + unat (m ! 1) \<and>
        CCSDS_RD_LEN P m = unat (m ! 4) * 256 + unat (m ! 5) + 7)"

section \<open>The serializer of \<open>sbn_pack.h\<close>\<close>

text \<open>
  \<open>'k\<close> is \<open>Pack_t\<close>, \<open>'u\<close> is \<open>Unpack_t\<close> and \<open>'i\<close> is \<open>CFE_SB_MsgId_t\<close>, an unsigned integer of a
  width the client does not fix. \<open>Pack_Buf\<close> reads the array a \<open>Pack_t\<close> writes to.
\<close>

record ('i, 'k, 'u) packer =
  Pack_Init :: "byte list \<Rightarrow> nat \<Rightarrow> 'k"
  Pack_UInt8 :: "'k \<Rightarrow> u8 \<Rightarrow> 'k"
  Pack_UInt16 :: "'k \<Rightarrow> u16 \<Rightarrow> 'k"
  Pack_UInt32 :: "'k \<Rightarrow> u32 \<Rightarrow> 'k"
  Pack_Data :: "'k \<Rightarrow> byte list \<Rightarrow> 'k"
  Pack_MsgID :: "'k \<Rightarrow> 'i \<Rightarrow> 'k"
  BufUsed :: "'k \<Rightarrow> nat"
  Pack_Buf :: "'k \<Rightarrow> byte list"
  Unpack_Init :: "byte list \<Rightarrow> nat \<Rightarrow> 'u"
  Unpack_UInt8 :: "'u \<Rightarrow> u8 \<times> 'u"
  Unpack_UInt16 :: "'u \<Rightarrow> u16 \<times> 'u"
  Unpack_UInt32 :: "'u \<Rightarrow> u32 \<times> 'u"

text \<open>A packing call that has room appends its bytes at \<open>BufUsed\<close>, big endian for integers.\<close>

definition appends :: "('i, 'k, 'u) packer \<Rightarrow> ('k \<Rightarrow> 'k) \<Rightarrow> byte list \<Rightarrow> bool" where
  "appends K op bs \<longleftrightarrow>
     (\<forall>k. BufUsed K k + length bs \<le> length (Pack_Buf K k) \<longrightarrow>
        BufUsed K (op k) = BufUsed K k + length bs \<and>
        Pack_Buf K (op k) = overwrite (Pack_Buf K k) (BufUsed K k) bs)"

definition packer_ok :: "('i, 'k, 'u) packer \<Rightarrow> ('i \<Rightarrow> byte list) \<Rightarrow> bool" where
  "packer_ok K msgid_bytes \<longleftrightarrow>
     (\<forall>b. Pack_Buf K (Pack_Init K b (length b)) = b \<and> BufUsed K (Pack_Init K b (length b)) = 0) \<and>
     (\<forall>w. appends K (\<lambda>k. Pack_UInt8 K k w) [w]) \<and>
     (\<forall>w. appends K (\<lambda>k. Pack_UInt16 K k w) (be16 w)) \<and>
     (\<forall>w. appends K (\<lambda>k. Pack_UInt32 K k w) (be32 w)) \<and>
     (\<forall>bs. appends K (\<lambda>k. Pack_Data K k bs) bs) \<and>
     (\<forall>m. appends K (\<lambda>k. Pack_MsgID K k m) (msgid_bytes m)) \<and>
     (\<forall>b0 b1 b2 b3 b4 b5 b6. \<exists>u1 u2 u3.
        Unpack_UInt16 K (Unpack_Init K [b0, b1, b2, b3, b4, b5, b6] 7) = (un16 b0 b1, u1) \<and>
        Unpack_UInt8 K u1 = (b2, u2) \<and>
        Unpack_UInt32 K u2 = (un32 b3 b4 b5 b6, u3))"

section \<open>Stream sockets\<close>

text \<open>
  A connected socket as the client sees it: \<open>rd\<close> is what the coming reads find (data that
  arrives in chunks, a read error with its \<open>errno\<close>, the peer's close), \<open>wr\<close> how the coming writes fare (all
  bytes are taken when nothing is scripted), \<open>sent\<close> the bytes written so far.
\<close>

datatype rd_event = Rd_Data "byte list" | Rd_Error i32 | Rd_Close
datatype wr_event = Wr_Accept nat | Wr_Error

record chan =
  rd :: "rd_event list"
  wr :: "wr_event list"
  sent :: "byte list"

text \<open>What \<open>read\<close> returns: -1, 0 at the end of the stream, or a positive number of bytes.\<close>

datatype read_result = R_Error i32 | R_Eof | R_Bytes "byte list"

text \<open>
  \<open>read (fd, buf, n)\<close>: at most \<open>n\<close> bytes of the first chunk; a close stays a close; with
  nothing to come the call never returns.
\<close>

fun sock_read :: "nat \<Rightarrow> rd_event list \<Rightarrow> (read_result \<times> rd_event list) run" where
  "sock_read n [] = Inl Blocked"
| "sock_read n (Rd_Error e # es) = Inr (R_Error e, es)"
| "sock_read n (Rd_Close # es) = Inr (R_Eof, Rd_Close # es)"
| "sock_read n (Rd_Data bs # es) =
     (if bs = [] then sock_read n es
      else if n = 0 then Inr (R_Eof, Rd_Data bs # es)
      else if length bs \<le> n then Inr (R_Bytes bs, es)
      else Inr (R_Bytes (take n bs), Rd_Data (drop n bs) # es))"

lemma sock_read_bytes:
  "sock_read n es = Inr (R_Bytes bs, es') \<Longrightarrow> 0 < length bs \<and> length bs \<le> n"
  by (induction n es rule: sock_read.induct) (auto split: if_splits)

text \<open>\<open>write (fd, buf, n)\<close>: the return value as \<open>size_t\<close> (-1 is all ones) and the new socket.\<close>

definition sock_write :: "byte list \<Rightarrow> chan \<Rightarrow> size_t \<times> chan" where
  "sock_write bs c =
     (case wr c of
        [] \<Rightarrow> (of_nat (length bs), c\<lparr>sent := sent c @ bs\<rparr>)
      | Wr_Error # es \<Rightarrow> (-1, c\<lparr>wr := es\<rparr>)
      | Wr_Accept n # es \<Rightarrow>
          (of_nat (min n (length bs)), c\<lparr>wr := es, sent := sent c @ take n bs\<rparr>))"

text \<open>The bytes that will arrive before the stream ends, fails or runs dry.\<close>

fun incoming :: "rd_event list \<Rightarrow> byte list" where
  "incoming [] = []"
| "incoming (Rd_Error e # es) = []"
| "incoming (Rd_Close # es) = []"
| "incoming (Rd_Data bs # es) = bs @ incoming es"

lemma sock_read_incoming:
  "sock_read n es = Inr (R_Bytes bs, es') \<Longrightarrow> incoming es = bs @ incoming es'"
proof (induction n es rule: sock_read.induct)
  case (4 n bs' es)
  then show ?case
    by (auto split: if_splits)
qed auto

lemma sock_read_progress:
  assumes "incoming es \<noteq> []" and "0 < n"
  shows "\<exists>bs es'. sock_read n es = Inr (R_Bytes bs, es')"
  using assms by (induction n es rule: sock_read.induct) auto

section \<open>A concrete platform\<close>

text \<open>
  The values of cFE 6.7 and SBN 1.11 (the versions the README names) and a list-based
  serializer with 16-bit message ids; they show that the hypotheses above can hold and are
  what the witnesses evaluate.
\<close>

definition cfs :: platform where
  "cfs = \<lparr>CFE_SUCCESS = 0, OS_SUCCESS = 0, CFE_SB_BAD_ARGUMENT = 0xCA000003,
     CFE_SB_TIME_OUT = 0xCA000001, CFE_SB_NO_MESSAGE = 0xCA000002,
     CFE_SB_PIPE_RD_ERR = 0xCA000006, CFE_SB_MSG_TOO_BIG = 0xCA000007,
     CFE_SB_BUF_ALOC_ERR = 0xCA000008, CFE_EVS_ERROR = 3, CFE_SB_POLL = 0,
     CFE_SB_PEND_FOREVER = -1, CFE_SB_MAX_SB_MSG_SIZE = 32768, OS_MAX_API_NAME = 20,
     SBN_PACKED_HDR_SZ = 7, SBN_PACKED_SUB_SZ = 61, SBN_NO_MSG = 0, SBN_SUB_MSG = 1,
     SBN_UNSUB_MSG = 2, SBN_APP_MSG = 3, SBN_PROTO_MSG = 4, SBN_IDENT = replicate 48 0x24,
     MESSAGE_FORMAT_IS_CCSDS_VER_2 = False, CCSDS_CMD = 1, CFE_SB_CMD_MESSAGE_TYPE = 0x80,
     CCSDS_RD_SID = (\<lambda>m. unat (m ! 0) * 256 + unat (m ! 1)),
     CCSDS_RD_APID = (\<lambda>m. (unat (m ! 0) * 256 + unat (m ! 1)) mod 2048),
     CCSDS_RD_TYPE = (\<lambda>m. unat (m ! 0) div 16 mod 2),
     CCSDS_RD_SUBSYSTEM_ID = (\<lambda>m. (unat (m ! 6) * 256 + unat (m ! 7)) mod 512),
     CCSDS_RD_LEN = (\<lambda>m. unat (m ! 4) * 256 + unat (m ! 5) + 7),
     strerror = (\<lambda>e. ''error'')\<rparr>"

text \<open>The same platform with a smaller largest message, for witnesses that evaluate buffers.\<close>

definition cfs_small :: platform where
  "cfs_small = cfs\<lparr>CFE_SB_MAX_SB_MSG_SIZE := 16, OS_MAX_API_NAME := 4\<rparr>"

lemma cfs_small_fields [simp]:
  "CFE_SUCCESS cfs_small = 0" "OS_SUCCESS cfs_small = 0" "CFE_SB_BAD_ARGUMENT cfs_small = 0xCA000003"
  "CFE_SB_TIME_OUT cfs_small = 0xCA000001" "CFE_SB_NO_MESSAGE cfs_small = 0xCA000002"
  "CFE_SB_PIPE_RD_ERR cfs_small = 0xCA000006" "CFE_SB_MSG_TOO_BIG cfs_small = 0xCA000007"
  "CFE_SB_BUF_ALOC_ERR cfs_small = 0xCA000008" "CFE_EVS_ERROR cfs_small = 3"
  "CFE_SB_POLL cfs_small = 0" "CFE_SB_PEND_FOREVER cfs_small = -1"
  "CFE_SB_MAX_SB_MSG_SIZE cfs_small = 16" "OS_MAX_API_NAME cfs_small = 4"
  "SBN_PACKED_HDR_SZ cfs_small = 7" "SBN_PACKED_SUB_SZ cfs_small = 61" "SBN_NO_MSG cfs_small = 0"
  "SBN_SUB_MSG cfs_small = 1" "SBN_UNSUB_MSG cfs_small = 2" "SBN_APP_MSG cfs_small = 3"
  "SBN_PROTO_MSG cfs_small = 4" "SBN_IDENT cfs_small = replicate 48 0x24"
  "MESSAGE_FORMAT_IS_CCSDS_VER_2 cfs_small = False"
  "CCSDS_RD_SID cfs_small m = unat (m ! 0) * 256 + unat (m ! 1)"
  "CCSDS_RD_LEN cfs_small m = unat (m ! 4) * 256 + unat (m ! 5) + 7"
  by (simp_all add: cfs_small_def cfs_def)

definition list_append :: "byte list \<times> nat \<Rightarrow> byte list \<Rightarrow> byte list \<times> nat" where
  "list_append k bs =
     (if snd k + length bs \<le> length (fst k)
      then (overwrite (fst k) (snd k) bs, snd k + length bs) else k)"

definition list_packer :: "(16 word, byte list \<times> nat, byte list) packer" where
  "list_packer = \<lparr>Pack_Init = (\<lambda>b n. (b, 0)),
     Pack_UInt8 = (\<lambda>k w. list_append k [w]), Pack_UInt16 = (\<lambda>k w. list_append k (be16 w)),
     Pack_UInt32 = (\<lambda>k w. list_append k (be32 w)), Pack_Data = list_append,
     Pack_MsgID = (\<lambda>k m. list_append k (be16 m)), BufUsed = snd, Pack_Buf = fst,
     Unpack_Init = (\<lambda>b n. take n b), Unpack_UInt8 = (\<lambda>u. (hd u, tl u)),
     Unpack_UInt16 = (\<lambda>u. (un16 (u ! 0) (u ! 1), drop 2 u)),
     Unpack_UInt32 = (\<lambda>u. (un32 (u ! 0) (u ! 1) (u ! 2) (u ! 3), drop 4 u))\<rparr>"

lemma platform_ok_cfs [simp]: "platform_ok cfs" "platform_ok cfs_small"
  by (simp_all add: platform_ok_def cfs_def cfs_small_def)

lemma ccsds_v1_ok_cfs [simp]: "ccsds_v1_ok cfs" "ccsds_v1_ok cfs_small"
  by (simp_all add: ccsds_v1_ok_def cfs_def cfs_small_def)

lemma packer_ok_list_packer [simp]: "packer_ok list_packer be16"
  by (simp add: packer_ok_def list_packer_def appends_def list_append_def numeral_2_eq_2
      numeral_3_eq_3)

end
