(* ===== verification/SBN_State.thy ===== *)
theory SBN_State
  imports SBN_Platform
begin

text \<open>
  The client's data: the limits of \<open>sbn_client_defs.h\<close> and \<open>sbn_client.h\<close>, the pipe descriptor
  of \<open>sbn_client_utils.h\<close>, and one record for everything the C functions read and write (the
  globals of \<open>sbn_client.c\<close>, \<open>sbn_client_minders.c\<close> and \<open>sbn_client_utils.c\<close>, the sockets, the
  heap, the threads, the receive mutex and condition, and the terminal). The logger of
  \<open>sbn_client_logger.c\<close> is here too, because every other component calls it.
\<close>

section \<open>Limits and codes\<close>

definition CFE_SBN_CLIENT_MAX_MSG_IDS_PER_PIPE :: nat where
  [simp]: "CFE_SBN_CLIENT_MAX_MSG_IDS_PER_PIPE = 4"

definition CFE_PLATFORM_SBN_CLIENT_MAX_PIPES :: nat where
  [simp]: "CFE_PLATFORM_SBN_CLIENT_MAX_PIPES = 5"

definition CFE_PLATFORM_SBN_CLIENT_MAX_PIPE_DEPTH :: nat where
  [simp]: "CFE_PLATFORM_SBN_CLIENT_MAX_PIPE_DEPTH = 32"

definition CFE_SBN_CLIENT_MAX_MESSAGE_SIZE :: "platform \<Rightarrow> nat" where
  [simp]: "CFE_SBN_CLIENT_MAX_MESSAGE_SIZE P = CFE_SB_MAX_SB_MSG_SIZE P"

definition SBN_HEARTBEAT_MSG :: u8 where
  [simp]: "SBN_HEARTBEAT_MSG = 0xA0"

definition SBN_CLIENT_PORT :: u16 where
  [simp]: "SBN_CLIENT_PORT = 1234"

definition SBN_CLIENT_IP_ADDR :: string where
  "SBN_CLIENT_IP_ADDR = ''127.0.0.1''"

definition SBN_CLIENT_SUCCESS :: "platform \<Rightarrow> i32" where
  [simp]: "SBN_CLIENT_SUCCESS P = OS_SUCCESS P"

definition CFE_SBN_CLIENT_BAD_ARGUMENT :: "platform \<Rightarrow> i32" where
  [simp]: "CFE_SBN_CLIENT_BAD_ARGUMENT P = CFE_SB_BAD_ARGUMENT P"

definition CFE_SBN_CLIENT_NOT_IN_USE :: u8 where
  [simp]: "CFE_SBN_CLIENT_NOT_IN_USE = 0"

definition CFE_SBN_CLIENT_IN_USE :: u8 where
  [simp]: "CFE_SBN_CLIENT_IN_USE = 1"

definition CFE_SBN_CLIENT_UNUSED_QUEUE :: u32 where
  [simp]: "CFE_SBN_CLIENT_UNUSED_QUEUE = 0xFFFF"

definition CFE_SBN_CLIENT_INVALID_PIPE :: u8 where
  [simp]: "CFE_SBN_CLIENT_INVALID_PIPE = 0xFF"

definition SBN_CLIENT_NO_STATUS_SET :: i32 where
  [simp]: "SBN_CLIENT_NO_STATUS_SET = 0xFFFF"

definition SBN_CLIENT_BAD_SOCK_FD_EID :: i32 where
  [simp]: "SBN_CLIENT_BAD_SOCK_FD_EID = 0x0100"

definition CFE_SBN_CLIENT_MAX_PIPES_MET :: i32 where
  [simp]: "CFE_SBN_CLIENT_MAX_PIPES_MET = 1003"

definition CFE_SBN_CLIENT_MAX_MSG_IDS_MET :: u8 where
  [simp]: "CFE_SBN_CLIENT_MAX_MSG_IDS_MET = 0xFF"

definition CFE_SBN_CLIENT_PIPE_BROKEN_ERR :: i32 where
  [simp]: "CFE_SBN_CLIENT_PIPE_BROKEN_ERR = 1010"

definition CFE_SBN_CLIENT_PIPE_CLOSED_ERR :: i32 where
  [simp]: "CFE_SBN_CLIENT_PIPE_CLOSED_ERR = 1011"

definition SBN_CLIENT_HEART_THREAD_CREATE_EID :: i32 where
  [simp]: "SBN_CLIENT_HEART_THREAD_CREATE_EID = 1012"

definition SBN_CLIENT_RECEIVE_THREAD_CREATE_EID :: i32 where
  [simp]: "SBN_CLIENT_RECEIVE_THREAD_CREATE_EID = 1013"

definition CFE_SBN_CLIENT_INVALID_MSG_ID :: "'m::len word" where
  [simp]: "CFE_SBN_CLIENT_INVALID_MSG_ID = 0"

definition SERVER_SOCKET_ERROR :: i32 where
  [simp]: "SERVER_SOCKET_ERROR = -1"

definition SERVER_INET_PTON_SRC_ERROR :: i32 where
  [simp]: "SERVER_INET_PTON_SRC_ERROR = -2"

definition SERVER_INET_PTON_INVALID_AF_ERROR :: i32 where
  [simp]: "SERVER_INET_PTON_INVALID_AF_ERROR = -3"

definition SERVER_CONNECT_ERROR :: i32 where
  [simp]: "SERVER_CONNECT_ERROR = -4"

section \<open>The pipe descriptor\<close>

record 'i CFE_SBN_Client_PipeD_t =
  InUse :: u8
  PipeId :: u8
  PipeName :: "byte list"
  AppName :: "byte list"
  Opts :: u8
  Spare :: u8
  AppId :: u32
  SysQueueId :: u32
  LastSender :: u32
  QueueDepth :: u16
  SendErrors :: u16
  NumberOfMessages :: u32
  ReadMessage :: u32
  Messages :: "byte list list"
  SubscribedMsgIds :: "'i list"

type_synonym 'i pipe = "'i CFE_SBN_Client_PipeD_t"

section \<open>The state of a client process\<close>

record sockaddr_in =
  sin_family :: u16
  sin_port :: u16
  sin_addr :: "byte list"
  sin_zero :: "byte list"

datatype out_event = Puts string | Printed string | Perror string
datatype sync_event = Mutex_lock | Mutex_unlock | Cond_signal | Cond_wait
datatype thread_fn = SBN_Client_HeartbeatMinder_fn | SBN_Client_ReceiveMinder_fn

record 'i client =
  PipeTbl :: "'i pipe list"
  sbn_client_sockfd :: i32
  sbn_client_cpuId :: i32
  continue_heartbeat :: bool
  continue_receive_check :: bool
  server_address :: sockaddr_in
  Sock :: "i32 \<Rightarrow> chan"
  OpenFds :: "i32 list"
  HeapBlocks :: nat
  Threads :: "thread_fn list"
  Sync :: "sync_event list"
  Slept :: nat
  Errno :: i32
  Out :: "out_event list"

text \<open>What the loader gives the program: every static object zero, both loop flags set.\<close>

definition static_pipe :: "platform \<Rightarrow> 'm::len word pipe" where
  "static_pipe P = \<lparr>InUse = 0, PipeId = 0, PipeName = replicate (OS_MAX_API_NAME P) 0,
     AppName = replicate (OS_MAX_API_NAME P) 0, Opts = 0, Spare = 0, AppId = 0, SysQueueId = 0,
     LastSender = 0, QueueDepth = 0, SendErrors = 0, NumberOfMessages = 0, ReadMessage = 0,
     Messages = replicate CFE_PLATFORM_SBN_CLIENT_MAX_PIPE_DEPTH
       (replicate (CFE_SBN_CLIENT_MAX_MESSAGE_SIZE P) 0),
     SubscribedMsgIds = replicate CFE_SBN_CLIENT_MAX_MSG_IDS_PER_PIPE 0\<rparr>"

definition client_start :: "platform \<Rightarrow> 'm::len word client" where
  "client_start P = \<lparr>PipeTbl = replicate CFE_PLATFORM_SBN_CLIENT_MAX_PIPES (static_pipe P),
     sbn_client_sockfd = 0, sbn_client_cpuId = 0, continue_heartbeat = True,
     continue_receive_check = True,
     server_address = \<lparr>sin_family = 0, sin_port = 0, sin_addr = replicate 4 0,
       sin_zero = replicate 8 0\<rparr>,
     Sock = (\<lambda>_. \<lparr>rd = [], wr = [], sent = []\<rparr>), OpenFds = [], HeapBlocks = 0, Threads = [],
     Sync = [], Slept = 0, Errno = 0, Out = []\<rparr>"

section \<open>The logger\<close>

datatype log_arg = Int_arg i32 | Str_arg string

fun dec_digits :: "nat \<Rightarrow> string" where
  "dec_digits n = (if n < 10 then [char_of (48 + n)] else dec_digits (n div 10) @ [char_of (48 + n mod 10)])"

fun hex_digits :: "nat \<Rightarrow> nat \<Rightarrow> string" where
  "hex_digits 0 n = []"
| "hex_digits (Suc k) n =
     hex_digits k (n div 16) @ [char_of (if n mod 16 < 10 then 48 + n mod 16 else 55 + n mod 16)]"

declare dec_digits.simps [simp del]

definition show_int :: "int \<Rightarrow> string" where
  "show_int i = (if i < 0 then ''-'' @ dec_digits (nat (- i)) else dec_digits (nat i))"

text \<open>
  The conversions the client's format strings use: \<open>%d\<close>, \<open>%u\<close>, \<open>%s\<close> and \<open>%08X\<close>. The flag
  \<open>pct\<close> says that a \<open>%\<close> has been read and its conversion letter is still to come (the width
  digits \<open>08\<close> are skipped, \<open>X\<close> always prints eight digits).
\<close>

definition c_convert :: "char \<Rightarrow> log_arg list \<Rightarrow> string" where
  "c_convert c as =
     (case as of
        Int_arg w # _ \<Rightarrow>
          (if c = CHR ''d'' then show_int (sint w)
           else if c = CHR ''u'' then dec_digits (unat w) else hex_digits 8 (unat w))
      | Str_arg t # _ \<Rightarrow> t
      | [] \<Rightarrow> [])"

fun c_format_from :: "bool \<Rightarrow> string \<Rightarrow> log_arg list \<Rightarrow> string" where
  "c_format_from pct [] as = []"
| "c_format_from False (c # f) as =
     (if c = CHR ''%'' then c_format_from True f as else c # c_format_from False f as)"
| "c_format_from True (c # f) as =
     (if c = CHR ''0'' \<or> c = CHR ''8'' then c_format_from True f as
      else c_convert c as @ c_format_from False f (tl as))"

definition c_format :: "string \<Rightarrow> log_arg list \<Rightarrow> string" where
  "c_format f as = c_format_from False f as"

definition MAX_LOG_MESSAGE_SIZE :: nat where
  [simp]: "MAX_LOG_MESSAGE_SIZE = 80"

text \<open>
  \<open>vsnprintf\<close> stores at most \<open>MAX_LOG_MESSAGE_SIZE - 1\<close> characters and returns the length the
  whole text would have had; \<open>puts\<close> shows what was stored.
\<close>

definition log_message_ret :: "string \<Rightarrow> log_arg list \<Rightarrow> 'i client \<Rightarrow> i32 \<times> 'i client" where
  "log_message_ret fmt args s =
     (let text = c_format fmt args
      in (of_nat (length text),
          s\<lparr>Out := Out s @ [Puts (take (MAX_LOG_MESSAGE_SIZE - 1) text)]\<rparr>))"

definition log_message :: "string \<Rightarrow> log_arg list \<Rightarrow> 'i client \<Rightarrow> 'i client" where
  "log_message fmt args s = snd (log_message_ret fmt args s)"

definition printf :: "string \<Rightarrow> log_arg list \<Rightarrow> 'i client \<Rightarrow> 'i client" where
  "printf fmt args s = s\<lparr>Out := Out s @ [Printed (c_format fmt args)]\<rparr>"

definition perror :: "string \<Rightarrow> 'i client \<Rightarrow> 'i client" where
  "perror str s = s\<lparr>Out := Out s @ [Perror str]\<rparr>"

definition sync :: "sync_event \<Rightarrow> 'i client \<Rightarrow> 'i client" where
  "sync e s = s\<lparr>Sync := Sync s @ [e]\<rparr>"

text \<open>Output and synchronisation calls change nothing but their own trace.\<close>

definition same_data :: "'i client \<Rightarrow> 'i client \<Rightarrow> bool" where
  "same_data s t \<longleftrightarrow>
     PipeTbl t = PipeTbl s \<and> sbn_client_sockfd t = sbn_client_sockfd s \<and>
     sbn_client_cpuId t = sbn_client_cpuId s \<and> continue_heartbeat t = continue_heartbeat s \<and>
     continue_receive_check t = continue_receive_check s \<and> server_address t = server_address s \<and>
     Sock t = Sock s \<and> OpenFds t = OpenFds s \<and> HeapBlocks t = HeapBlocks s \<and>
     Threads t = Threads s \<and> Slept t = Slept s \<and> Errno t = Errno s"

lemma log_message_frame [simp]:
  "PipeTbl (log_message f a s) = PipeTbl s"
  "sbn_client_sockfd (log_message f a s) = sbn_client_sockfd s"
  "sbn_client_cpuId (log_message f a s) = sbn_client_cpuId s"
  "continue_heartbeat (log_message f a s) = continue_heartbeat s"
  "continue_receive_check (log_message f a s) = continue_receive_check s"
  "server_address (log_message f a s) = server_address s"
  "Sock (log_message f a s) = Sock s" "OpenFds (log_message f a s) = OpenFds s"
  "HeapBlocks (log_message f a s) = HeapBlocks s" "Threads (log_message f a s) = Threads s"
  "Sync (log_message f a s) = Sync s" "Slept (log_message f a s) = Slept s" "Errno (log_message f a s) = Errno s"
  by (simp_all add: log_message_def log_message_ret_def Let_def)

lemma printf_frame [simp]:
  "PipeTbl (printf f a s) = PipeTbl s"
  "sbn_client_sockfd (printf f a s) = sbn_client_sockfd s"
  "sbn_client_cpuId (printf f a s) = sbn_client_cpuId s"
  "continue_heartbeat (printf f a s) = continue_heartbeat s"
  "continue_receive_check (printf f a s) = continue_receive_check s"
  "server_address (printf f a s) = server_address s"
  "Sock (printf f a s) = Sock s" "OpenFds (printf f a s) = OpenFds s"
  "HeapBlocks (printf f a s) = HeapBlocks s" "Threads (printf f a s) = Threads s"
  "Sync (printf f a s) = Sync s" "Slept (printf f a s) = Slept s" "Errno (printf f a s) = Errno s"
  by (simp_all add: printf_def)

lemma perror_frame [simp]:
  "PipeTbl (perror f s) = PipeTbl s"
  "sbn_client_sockfd (perror f s) = sbn_client_sockfd s"
  "sbn_client_cpuId (perror f s) = sbn_client_cpuId s"
  "continue_heartbeat (perror f s) = continue_heartbeat s"
  "continue_receive_check (perror f s) = continue_receive_check s"
  "server_address (perror f s) = server_address s"
  "Sock (perror f s) = Sock s" "OpenFds (perror f s) = OpenFds s"
  "HeapBlocks (perror f s) = HeapBlocks s" "Threads (perror f s) = Threads s"
  "Sync (perror f s) = Sync s" "Slept (perror f s) = Slept s" "Errno (perror f s) = Errno s"
  by (simp_all add: perror_def)

lemma sync_frame [simp]:
  "PipeTbl (sync e s) = PipeTbl s"
  "sbn_client_sockfd (sync e s) = sbn_client_sockfd s"
  "sbn_client_cpuId (sync e s) = sbn_client_cpuId s"
  "continue_heartbeat (sync e s) = continue_heartbeat s"
  "continue_receive_check (sync e s) = continue_receive_check s"
  "server_address (sync e s) = server_address s"
  "Sock (sync e s) = Sock s" "OpenFds (sync e s) = OpenFds s"
  "HeapBlocks (sync e s) = HeapBlocks s" "Threads (sync e s) = Threads s"
  "Sync (sync e s) = Sync s @ [e]" "Slept (sync e s) = Slept s" "Errno (sync e s) = Errno s" "Out (sync e s) = Out s"
  by (simp_all add: sync_def)

lemma same_data_refl [simp]: "same_data s s"
  by (simp add: same_data_def)

lemma same_data_trans [trans]: "same_data s t \<Longrightarrow> same_data t u \<Longrightarrow> same_data s u"
  by (simp add: same_data_def)

lemma same_data_output [simp]:
  "same_data s (log_message f a t) = same_data s t"
  "same_data s (printf f a t) = same_data s t"
  "same_data s (perror p t) = same_data s t"
  "same_data s (sync e t) = same_data s t"
  by (simp_all add: same_data_def)

text \<open>A line of the log is never longer than the buffer allows, whatever is formatted.\<close>

lemma log_message_Out:
  "Out (log_message f a s) = Out s @ [Puts (take 79 (c_format f a))]"
  by (simp add: log_message_def log_message_ret_def Let_def)

text \<open>
  The logger is bounded: one line of at most 79 characters, a prefix of the text, is shown and nothing else
  changes. The value returned is the length of the whole text, so for a text of 80 characters or more it is
  not the number of characters written.
\<close>

lemma log_message_bounded:
  assumes "log_message_ret f a s = (n, t)" and "length (c_format f a) < 2 ^ 31"
  shows "\<exists>line. Out t = Out s @ [Puts line] \<and> line = take 79 (c_format f a) \<and>
      (unat n = length line \<longleftrightarrow> length (c_format f a) \<le> 79)"
    and "same_data s t \<and> Sync t = Sync s"
  using assms by (auto simp: log_message_ret_def Let_def same_data_def unat_of_nat take_bit_nat_eq_self)

end
