(* ===== verification/SBN_Fifo.thy ===== *)
theory SBN_Fifo
  imports SBN_Prelude
begin

text \<open>
  The contract between a message pipe and its two users: the receive thread puts messages at
  the back, the application takes them from the front and keeps a pointer to the one it took
  last. The operations and tests are the parameters, the laws what the pipe promises, and the
  consequences for any sequence of operations are proved once here.
\<close>

datatype 'x fifo_op = Put 'x | Get

text \<open>
  A run of a sequence of operations the way the client performs them: a put on a full queue
  drops the message, a get on a drained one delivers nothing. The result is the final queue, the
  messages that were accepted and the messages that were delivered, each in order.
\<close>

fun fifo_run :: "('q \<Rightarrow> bool) \<Rightarrow> ('q \<Rightarrow> bool) \<Rightarrow> ('x \<Rightarrow> 'q \<Rightarrow> 'q run) \<Rightarrow> ('q \<Rightarrow> 'q) \<Rightarrow> ('q \<Rightarrow> 'a) \<Rightarrow>
    'q \<Rightarrow> 'x fifo_op list \<Rightarrow> ('q \<times> 'x list \<times> 'a list) run" where
  "fifo_run full drained put get held q [] = Inr (q, [], [])"
| "fifo_run full drained put get held q (Put x # ops) =
     (if full q then fifo_run full drained put get held q ops
      else bindR (put x q) (\<lambda>q'.
           bindR (fifo_run full drained put get held q' ops) (\<lambda>(r, acc, del).
           Inr (r, x # acc, del))))"
| "fifo_run full drained put get held q (Get # ops) =
     (if drained q then fifo_run full drained put get held q ops
      else bindR (fifo_run full drained put get held (get q) ops) (\<lambda>(r, acc, del).
           Inr (r, acc, held (get q) # del)))"

locale bounded_fifo =
  fixes inv :: "'q \<Rightarrow> bool"
    and items :: "'q \<Rightarrow> 'a list"
    and held :: "'q \<Rightarrow> 'a"
    and full :: "'q \<Rightarrow> bool"
    and drained :: "'q \<Rightarrow> bool"
    and put :: "'x \<Rightarrow> 'q \<Rightarrow> 'q run"
    and get :: "'q \<Rightarrow> 'q"
    and fits :: "'x \<Rightarrow> bool"
    and carries :: "'a \<Rightarrow> 'x \<Rightarrow> bool"
    and cap :: nat
  assumes full_iff: "inv q \<Longrightarrow> full q \<longleftrightarrow> length (items q) = cap"
    and drained_iff: "inv q \<Longrightarrow> drained q \<longleftrightarrow> items q = []"
    and items_bound: "inv q \<Longrightarrow> length (items q) \<le> cap"
    and put_law: "inv q \<Longrightarrow> \<not> full q \<Longrightarrow> fits x \<Longrightarrow>
      \<exists>r a. put x q = Inr r \<and> inv r \<and> items r = items q @ [a] \<and> carries a x \<and> held r = held q"
    and get_law: "inv q \<Longrightarrow> items q \<noteq> [] \<Longrightarrow>
      inv (get q) \<and> items (get q) = tl (items q) \<and> held (get q) = hd (items q)"
begin

lemma get_cons:
  assumes "inv q" and "\<not> drained q"
  shows "inv (get q)" and "items q = held (get q) # items (get q)"
  using get_law [OF assms(1)] drained_iff [OF assms(1)] assms(2) by auto

text \<open>First in, first out: nothing is reordered, duplicated or invented.\<close>

lemma run_fifo:
  assumes "inv q" and "\<forall>x. Put x \<in> set ops \<longrightarrow> fits x"
  shows "\<exists>r acc del st. fifo_run full drained put get held q ops = Inr (r, acc, del) \<and> inv r \<and>
    list_all2 carries st acc \<and> items q @ st = del @ items r"
  using assms
proof (induction ops arbitrary: q)
  case Nil
  then show ?case by simp
next
  case (Cons op ops)
  have rest: "\<forall>x. Put x \<in> set ops \<longrightarrow> fits x" using Cons.prems(2) by simp
  show ?case
  proof (cases op)
    case (Put x)
    show ?thesis
    proof (cases "full q")
      case True
      then show ?thesis using Cons.IH [OF Cons.prems(1) rest] Put by simp
    next
      case False
      have "fits x" using Cons.prems(2) Put by simp
      then obtain q' a where put: "put x q = Inr q'" "inv q'" "items q' = items q @ [a]"
        "carries a x" using put_law [OF Cons.prems(1) False] by blast
      obtain r acc del st where run: "fifo_run full drained put get held q' ops = Inr (r, acc, del)"
        "inv r" "list_all2 carries st acc" "items q' @ st = del @ items r"
        using Cons.IH [OF put(2) rest] by blast
      have "list_all2 carries (a # st) (x # acc)" using put(4) run(3) by simp
      moreover have "items q @ (a # st) = del @ items r" using run(4) put(3) by simp
      ultimately show ?thesis using Put False put(1) run(1,2) by fastforce
    qed
  next
    case Get
    show ?thesis
    proof (cases "drained q")
      case True
      then show ?thesis using Cons.IH [OF Cons.prems(1) rest] Get by simp
    next
      case False
      note g = get_cons [OF Cons.prems(1) False]
      obtain r acc del st where "fifo_run full drained put get held (get q) ops = Inr (r, acc, del)"
        "inv r" "list_all2 carries st acc" "items (get q) @ st = del @ items r"
        using Cons.IH [OF g(1) rest] by blast
      then show ?thesis using Get False g(2) by fastforce
    qed
  qed
qed

text \<open>The message handed out last stays where it is however many messages arrive.\<close>

lemma puts_keep_held:
  assumes "inv q" and "\<forall>x \<in> set xs. fits x"
  shows "\<exists>r acc. fifo_run full drained put get held q (map Put xs) = Inr (r, acc, []) \<and> inv r \<and>
    held r = held q"
  using assms
proof (induction xs arbitrary: q)
  case Nil
  then show ?case by simp
next
  case (Cons x xs)
  show ?case
  proof (cases "full q")
    case True
    then show ?thesis using Cons by simp
  next
    case False
    then obtain q' where "put x q = Inr q'" "inv q'" "held q' = held q"
      using put_law [OF Cons.prems(1) False, of x] Cons.prems(2) by auto
    then show ?thesis using Cons.IH [of q'] Cons.prems(2) False by auto
  qed
qed

text \<open>Of a series of messages the queue accepts the first ones, as many as there is room for.\<close>

lemma puts_accepted:
  assumes "inv q" and "\<forall>x \<in> set xs. fits x"
  shows "\<exists>r. fifo_run full drained put get held q (map Put xs) =
      Inr (r, take (cap - length (items q)) xs, []) \<and> inv r \<and>
    length (items r) = min cap (length (items q) + length xs)"
  using assms
proof (induction xs arbitrary: q)
  case Nil
  then show ?case using items_bound by auto
next
  case (Cons x xs)
  show ?case
  proof (cases "full q")
    case True
    then show ?thesis
      using Cons.IH [OF Cons.prems(1)] Cons.prems(2) full_iff [OF Cons.prems(1)] by simp
  next
    case False
    then obtain q' a where q': "put x q = Inr q'" "inv q'" "items q' = items q @ [a]"
      using put_law [OF Cons.prems(1) False, of x] Cons.prems(2) by auto
    have "length (items q) < cap"
      using False full_iff [OF Cons.prems(1)] items_bound [OF Cons.prems(1)] by simp
    then have "cap - length (items q) = Suc (cap - length (items q'))" using q'(3) by simp
    then show ?thesis using Cons.IH [OF q'(2)] Cons.prems(2) False q'(1,3) by auto
  qed
qed

end

end
