(* ===== verification/SBN_Pipe.thy ===== *)
theory SBN_Pipe
  imports SBN_State SBN_Fifo
begin

text \<open>
  One pipe as a ring of message slots. \<open>ReadMessage\<close> is the slot handed out last and
  \<open>NumberOfMessages\<close> counts it together with the unread ones, so a fresh pipe has one. The
  ring operations are the statements of \<open>ingest_app_message\<close> and \<open>__wrap_CFE_SB_RcvMsg\<close> that
  touch it. The contract they keep is the locale \<open>bounded_fifo\<close>, interpreted on them at the end.
\<close>

section \<open>The operations\<close>

definition invalidate_pipe :: "platform \<Rightarrow> 'm::len word pipe \<Rightarrow> 'm word pipe" where
  "invalidate_pipe P p =
     p\<lparr>InUse := CFE_SBN_CLIENT_NOT_IN_USE,
       SysQueueId := CFE_SBN_CLIENT_UNUSED_QUEUE,
       PipeId := CFE_SBN_CLIENT_INVALID_PIPE,
       NumberOfMessages := 1,
       ReadMessage := of_nat (CFE_PLATFORM_SBN_CLIENT_MAX_PIPE_DEPTH - 1),
       PipeName := overwrite (PipeName p) 0 (replicate (OS_MAX_API_NAME P) 0),
       SubscribedMsgIds := overwrite (SubscribedMsgIds p) 0
         (replicate CFE_SBN_CLIENT_MAX_MSG_IDS_PER_PIPE CFE_SBN_CLIENT_INVALID_MSG_ID)\<rparr>"

definition message_entry_point :: "'i pipe \<Rightarrow> i32" where
  "message_entry_point p =
     (ReadMessage p + NumberOfMessages p) mod of_nat CFE_PLATFORM_SBN_CLIENT_MAX_PIPE_DEPTH"

text \<open>The overflow test of the ingest loop, and the emptiness test of the receive call.\<close>

definition pipe_full :: "'i pipe \<Rightarrow> bool" where
  "pipe_full p \<longleftrightarrow> NumberOfMessages p = of_nat CFE_PLATFORM_SBN_CLIENT_MAX_PIPE_DEPTH"

definition pipe_empty :: "'i pipe \<Rightarrow> bool" where
  "pipe_empty p \<longleftrightarrow> NumberOfMessages p < 2"

text \<open>\<open>memcpy (Messages[message_entry_point (pipe)], msg_buffer, MsgSz); NumberOfMessages++\<close>\<close>

definition pipe_put :: "byte list \<Rightarrow> 'i pipe \<Rightarrow> 'i pipe run" where
  "pipe_put bs p =
     (let e = unat (message_entry_point p)
      in bindR (arr_get (Messages p) e) (\<lambda>slot.
         bindR (mem_write slot 0 bs) (\<lambda>slot'.
         bindR (arr_set (Messages p) e slot') (\<lambda>ms.
         Inr (p\<lparr>Messages := ms, NumberOfMessages := NumberOfMessages p + 1\<rparr>)))))"

text \<open>The next slot to read, and the two assignments that consume it.\<close>

definition pipe_next :: "'i pipe \<Rightarrow> u32" where
  "pipe_next p = (ReadMessage p + 1) mod of_nat CFE_PLATFORM_SBN_CLIENT_MAX_PIPE_DEPTH"

definition pipe_get :: "'i pipe \<Rightarrow> 'i pipe" where
  "pipe_get p = p\<lparr>ReadMessage := pipe_next p, NumberOfMessages := NumberOfMessages p - 1\<rparr>"

section \<open>Well-formedness and abstraction\<close>

text \<open>The sizes of the arrays in the C type, and the ring invariant.\<close>

definition pipe_wf :: "platform \<Rightarrow> 'i pipe \<Rightarrow> bool" where
  "pipe_wf P p \<longleftrightarrow>
     length (PipeName p) = OS_MAX_API_NAME P \<and>
     length (Messages p) = CFE_PLATFORM_SBN_CLIENT_MAX_PIPE_DEPTH \<and>
     list_all (\<lambda>m. length m = CFE_SBN_CLIENT_MAX_MESSAGE_SIZE P) (Messages p) \<and>
     length (SubscribedMsgIds p) = CFE_SBN_CLIENT_MAX_MSG_IDS_PER_PIPE"

definition ring_ok :: "'i pipe \<Rightarrow> bool" where
  "ring_ok p \<longleftrightarrow> unat (ReadMessage p) < 32 \<and>
     1 \<le> unat (NumberOfMessages p) \<and> unat (NumberOfMessages p) \<le> 32"

definition pipe_slot :: "'i pipe \<Rightarrow> nat \<Rightarrow> byte list" where
  "pipe_slot p k = Messages p ! ((unat (ReadMessage p) + k) mod 32)"

text \<open>The message the application may be looking at, and those it has not been given yet.\<close>

definition pipe_held :: "'i pipe \<Rightarrow> byte list" where
  "pipe_held p = pipe_slot p 0"

definition pipe_unread :: "'i pipe \<Rightarrow> byte list list" where
  "pipe_unread p = map (pipe_slot p) [1..<unat (NumberOfMessages p)]"

lemma length_pipe_unread [simp]: "length (pipe_unread p) = unat (NumberOfMessages p) - 1"
  by (simp add: pipe_unread_def)

lemma pipe_wf_slot: "pipe_wf P p \<Longrightarrow> i < 32 \<Longrightarrow> length (Messages p ! i) = CFE_SB_MAX_SB_MSG_SIZE P"
  by (simp add: pipe_wf_def list_all_length)

lemma ring_ok_not_full:
  "ring_ok p \<Longrightarrow> \<not> pipe_full p \<longleftrightarrow> unat (NumberOfMessages p) < 32"
  by (auto simp: ring_ok_def pipe_full_def word_unat_eq_iff)

lemma pipe_full_iff: "ring_ok p \<Longrightarrow> pipe_full p \<longleftrightarrow> length (pipe_unread p) = 31"
  using ring_ok_not_full [of p] by (auto simp: ring_ok_def)

lemma pipe_empty_iff: "ring_ok p \<Longrightarrow> pipe_empty p \<longleftrightarrow> pipe_unread p = []"
  by (auto simp: ring_ok_def pipe_empty_def pipe_unread_def word_less_nat_alt)

section \<open>The ring operations on the abstraction\<close>

lemma message_entry_point_unat:
  "unat (message_entry_point p) = (unat (ReadMessage p) + unat (NumberOfMessages p)) mod 32"
  by (simp add: message_entry_point_def u32_add_mod_32)

lemma message_entry_point_bound: "unat (message_entry_point p) < 32"
  by (simp add: message_entry_point_unat)

lemma ring_slots_distinct:
  assumes "k < n" and "n < 32"
  shows "(r + k) mod 32 \<noteq> (r + n) mod (32 :: nat)"
proof
  assume "(r + k) mod 32 = (r + n) mod 32"
  then have "(r + n) mod 32 = (r + k) mod 32" by simp
  then have "32 dvd n - k"
    using mod_eq_dvd_iff_nat [of "r + k" "r + n" 32] assms by simp
  then show False using assms nat_dvd_not_less [of "n - k" 32] by simp
qed

lemma unat_inc_count:
  "unat (n :: u32) < 32 \<Longrightarrow> unat (n + 1) = Suc (unat n)"
  by (simp add: unat_word_ariths)

lemma pipe_put_eq:
  assumes "pipe_wf P p" and "length bs \<le> CFE_SB_MAX_SB_MSG_SIZE P"
  shows "pipe_put bs p =
     Inr (p\<lparr>Messages := (Messages p)[unat (message_entry_point p) :=
              overwrite (Messages p ! unat (message_entry_point p)) 0 bs],
            NumberOfMessages := NumberOfMessages p + 1\<rparr>)"
proof -
  have e: "unat (message_entry_point p) < length (Messages p)"
    using assms(1) message_entry_point_bound [of p] by (simp add: pipe_wf_def)
  have "length (Messages p ! unat (message_entry_point p)) = CFE_SB_MAX_SB_MSG_SIZE P"
    using assms(1) message_entry_point_bound [of p] by (rule pipe_wf_slot)
  with e assms(2) show ?thesis by (simp add: pipe_put_def Let_def)
qed

lemma pipe_put_wf [sbn_wf]:
  assumes "pipe_wf P p" and "length bs \<le> CFE_SB_MAX_SB_MSG_SIZE P" and "pipe_put bs p = Inr q"
  shows "pipe_wf P q"
proof -
  have "length (Messages p ! unat (message_entry_point p)) = CFE_SB_MAX_SB_MSG_SIZE P"
    using assms(1) message_entry_point_bound [of p] by (rule pipe_wf_slot)
  with assms(1-3) show ?thesis
    unfolding pipe_put_eq [OF assms(1,2)] using message_entry_point_bound [of p]
    by (auto simp: pipe_wf_def list_all_length nth_list_update)
qed

lemma pipe_put_effect:
  assumes wf: "pipe_wf P p" and r: "ring_ok p" and "\<not> pipe_full p"
    and len: "length bs \<le> CFE_SB_MAX_SB_MSG_SIZE P"
  obtains q m where "pipe_put bs p = Inr q" "ring_ok q"
    "pipe_unread q = pipe_unread p @ [m]" "take (length bs) m = bs" "pipe_held q = pipe_held p"
    "InUse q = InUse p" "PipeId q = PipeId p" "SubscribedMsgIds q = SubscribedMsgIds p"
proof -
  let ?n = "unat (NumberOfMessages p)" and ?e = "unat (message_entry_point p)"
  let ?m = "overwrite (Messages p ! ?e) 0 bs"
  let ?q = "p\<lparr>Messages := (Messages p)[?e := ?m], NumberOfMessages := NumberOfMessages p + 1\<rparr>"
  have n: "1 \<le> ?n" "?n < 32" using r assms(3) ring_ok_not_full [OF r] by (auto simp: ring_ok_def)
  have n': "unat (NumberOfMessages p + 1) = Suc ?n" using n by (simp add: unat_inc_count)
  have e: "?e < length (Messages p)"
    using wf message_entry_point_bound [of p] by (simp add: pipe_wf_def)
  have old: "pipe_slot ?q k = pipe_slot p k" if "k < ?n" for k
    using ring_slots_distinct [OF that n(2), of "unat (ReadMessage p)"]
    by (simp add: pipe_slot_def message_entry_point_unat)
  have new: "pipe_slot ?q ?n = ?m"
    using e by (simp add: pipe_slot_def message_entry_point_unat)
  have "pipe_unread ?q = pipe_unread p @ [?m]"
    using n n' new old by (simp add: pipe_unread_def)
  moreover have "pipe_held ?q = pipe_held p" using n old [of 0] by (simp add: pipe_held_def)
  moreover have "ring_ok ?q" using r n n' by (simp add: ring_ok_def)
  ultimately show thesis
    using that [of ?q ?m] pipe_put_eq [OF wf len] by simp
qed

lemma pipe_next_unat: "unat (pipe_next p) = (unat (ReadMessage p) + 1) mod 32"
  using u32_add_mod_32 [of "ReadMessage p" 1] by (simp add: pipe_next_def)

lemma pipe_get_slot: "pipe_slot (pipe_get p) k = pipe_slot p (Suc k)"
  by (simp add: pipe_slot_def pipe_get_def pipe_next_unat mod_simps)

lemma pipe_get_wf [sbn_wf]: "pipe_wf P p \<Longrightarrow> pipe_wf P (pipe_get p)"
  by (simp add: pipe_wf_def pipe_get_def)

lemma unat_dec_count: "1 \<le> unat (n :: u32) \<Longrightarrow> unat (n - 1) = unat n - 1"
  by (simp add: unat_minus_one unat_gt_0 flip: unat_eq_zero)

lemma pipe_get_effect:
  assumes r: "ring_ok p" and "pipe_unread p \<noteq> []"
  shows "ring_ok (pipe_get p)" "pipe_unread (pipe_get p) = tl (pipe_unread p)"
    "pipe_held (pipe_get p) = hd (pipe_unread p)"
proof -
  let ?n = "unat (NumberOfMessages p)"
  have n: "2 \<le> ?n" "?n \<le> 32"
    using assms by (auto simp: ring_ok_def pipe_unread_def)
  have n': "unat (NumberOfMessages (pipe_get p)) = ?n - 1"
    using n by (simp add: pipe_get_def unat_dec_count)
  show "ring_ok (pipe_get p)"
    unfolding ring_ok_def n' using n by (simp add: pipe_get_def pipe_next_unat) linarith
  have un: "[Suc 0..<?n] = Suc 0 # map Suc [Suc 0..<?n - Suc 0]"
    using n by (simp add: map_Suc_upt upt_conv_Cons numeral_2_eq_2)
  show "pipe_unread (pipe_get p) = tl (pipe_unread p)"
    by (simp add: pipe_unread_def n' un pipe_get_slot comp_def)
  show "pipe_held (pipe_get p) = hd (pipe_unread p)"
    by (simp add: pipe_unread_def pipe_held_def un pipe_get_slot)
qed

lemma pipe_get_frame [simp]:
  "InUse (pipe_get p) = InUse p" "PipeId (pipe_get p) = PipeId p"
  "SubscribedMsgIds (pipe_get p) = SubscribedMsgIds p" "Messages (pipe_get p) = Messages p"
  by (simp_all add: pipe_get_def)

lemma invalidate_pipe_wf [sbn_wf]: "pipe_wf P p \<Longrightarrow> pipe_wf P (invalidate_pipe P p)"
  by (simp add: pipe_wf_def invalidate_pipe_def)

lemma invalidate_pipe_ring [sbn_wf]: "ring_ok (invalidate_pipe P p)"
  by (simp add: ring_ok_def invalidate_pipe_def)

lemma invalidate_pipe_fields [simp]:
  "InUse (invalidate_pipe P p) = 0" "PipeId (invalidate_pipe P p) = 0xFF"
  "NumberOfMessages (invalidate_pipe P p) = 1" "pipe_unread (invalidate_pipe P p) = []"
  by (simp_all add: invalidate_pipe_def pipe_unread_def)

section \<open>The pipe keeps the queue contract\<close>

definition pipe_inv :: "platform \<Rightarrow> 'i pipe \<Rightarrow> bool" where
  "pipe_inv P p \<longleftrightarrow> pipe_wf P p \<and> ring_ok p"

text \<open>A stored slot starts with the bytes of the message it carries.\<close>

definition slot_carries :: "byte list \<Rightarrow> byte list \<Rightarrow> bool" where
  "slot_carries m bs \<longleftrightarrow> take (length bs) m = bs"

lemma pipe_put_law:
  assumes "pipe_inv P p" and "\<not> pipe_full p" and "length bs \<le> CFE_SB_MAX_SB_MSG_SIZE P"
  shows "\<exists>q m. pipe_put bs p = Inr q \<and> pipe_inv P q \<and> pipe_unread q = pipe_unread p @ [m] \<and>
    slot_carries m bs \<and> pipe_held q = pipe_held p"
proof -
  have wf: "pipe_wf P p" "ring_ok p" using assms(1) by (simp_all add: pipe_inv_def)
  obtain q m where "pipe_put bs p = Inr q" "ring_ok q" "pipe_unread q = pipe_unread p @ [m]"
    "take (length bs) m = bs" "pipe_held q = pipe_held p"
    using wf assms(2,3) by (rule pipe_put_effect)
  then show ?thesis using pipe_put_wf [OF wf(1) assms(3)] by (auto simp: pipe_inv_def slot_carries_def)
qed

interpretation pq: bounded_fifo "pipe_inv P" pipe_unread pipe_held pipe_full pipe_empty
  pipe_put pipe_get "\<lambda>bs. length bs \<le> CFE_SB_MAX_SB_MSG_SIZE P" slot_carries 31
  for P
proof unfold_locales
  fix q :: "'i pipe"
  assume inv: "pipe_inv P q"
  then have r: "ring_ok q" by (simp add: pipe_inv_def)
  show "pipe_full q \<longleftrightarrow> length (pipe_unread q) = 31" using r by (rule pipe_full_iff)
  show "pipe_empty q \<longleftrightarrow> pipe_unread q = []" using r by (rule pipe_empty_iff)
  show "length (pipe_unread q) \<le> 31" using r by (auto simp: ring_ok_def)
next
  fix q :: "'i pipe" and bs :: "byte list"
  assume "pipe_inv P q" "\<not> pipe_full q" "length bs \<le> CFE_SB_MAX_SB_MSG_SIZE P"
  then show "\<exists>r a. pipe_put bs q = Inr r \<and> pipe_inv P r \<and> pipe_unread r = pipe_unread q @ [a] \<and>
      slot_carries a bs \<and> pipe_held r = pipe_held q"
    by (rule pipe_put_law)
next
  fix q :: "'i pipe"
  assume "pipe_inv P q" "pipe_unread q \<noteq> []"
  then show "pipe_inv P (pipe_get q) \<and> pipe_unread (pipe_get q) = tl (pipe_unread q) \<and>
      pipe_held (pipe_get q) = hd (pipe_unread q)"
    by (auto simp: pipe_inv_def pipe_get_wf pipe_get_effect)
qed

section \<open>Properties\<close>

definition fresh_pipe :: "platform \<Rightarrow> 'm::len word pipe" where
  "fresh_pipe P = invalidate_pipe P (static_pipe P)"

lemma pipe_wf_static: "pipe_wf P (static_pipe P)"
  by (simp add: pipe_wf_def static_pipe_def list_all_length)

lemma pipe_inv_fresh [simp]: "pipe_inv P (fresh_pipe P)"
  by (simp add: fresh_pipe_def pipe_inv_def invalidate_pipe_wf invalidate_pipe_ring pipe_wf_static)

lemma fresh_pipe_unread [simp]: "pipe_unread (fresh_pipe P) = []"
  by (simp add: fresh_pipe_def)

text \<open>
  C17. A pipe is a first-in first-out queue: whatever sequence of deliveries and receives is run
  on it, no slot outside the ring is touched, the messages received (in order) followed by those
  still unread are the ones that were unread before followed by the accepted ones, each slot
  starting with exactly the bytes that were put, and the pipe stays well formed.
\<close>

theorem pipe_fifo:
  assumes "pipe_inv P p" and "\<forall>bs. Put bs \<in> set ops \<longrightarrow> length bs \<le> CFE_SB_MAX_SB_MSG_SIZE P"
  shows "\<exists>q acc del stored.
    fifo_run pipe_full pipe_empty pipe_put pipe_get pipe_held p ops = Inr (q, acc, del) \<and>
    pipe_inv P q \<and> list_all2 slot_carries stored acc \<and>
    pipe_unread p @ stored = del @ pipe_unread q"
  using assms by (rule pq.run_fifo)

theorem pipe_fifo_witness:
  "\<exists>q acc del stored. fifo_run pipe_full pipe_empty pipe_put pipe_get pipe_held
      (fresh_pipe cfs_small :: 16 word pipe) [Put [1, 2], Put [3], Get, Get, Get] = Inr (q, acc, del) \<and>
    pipe_inv cfs_small q \<and> list_all2 slot_carries stored acc \<and>
    pipe_unread (fresh_pipe cfs_small :: 16 word pipe) @ stored = del @ pipe_unread q"
  by (rule pipe_fifo) (auto simp: cfs_small_def)

text \<open>
  C34. The message the application was handed last is not overwritten by deliveries: however many
  messages arrive, the slot \<open>ReadMessage\<close> points to keeps its contents (this is what
  \<open>NumberOfMessages\<close> starting at 1 buys, and why a pointer into the ring may be given out).
\<close>

theorem pipe_held_stable:
  assumes "pipe_inv P p" and "\<forall>bs \<in> set msgs. length bs \<le> CFE_SB_MAX_SB_MSG_SIZE P"
  shows "\<exists>q acc. fifo_run pipe_full pipe_empty pipe_put pipe_get pipe_held p (map Put msgs) =
    Inr (q, acc, []) \<and> pipe_inv P q \<and> pipe_held q = pipe_held p"
  using assms by (rule pq.puts_keep_held)

theorem pipe_held_stable_witness:
  "\<exists>q acc. fifo_run pipe_full pipe_empty pipe_put pipe_get pipe_held
      (fresh_pipe cfs_small :: 16 word pipe) (map Put (replicate 40 [1, 2])) = Inr (q, acc, []) \<and>
    pipe_inv cfs_small q \<and> pipe_held q = pipe_held (fresh_pipe cfs_small :: 16 word pipe)"
  by (rule pipe_held_stable) (simp_all add: cfs_small_def)

text \<open>
  Capacity: of a series of deliveries with no receive in between, a pipe accepts exactly the
  first ones until 31 messages are unread, one less than \<open>CFE_PLATFORM_SBN_CLIENT_MAX_PIPE_DEPTH\<close>
  because the slot handed out last stays reserved; the rest is dropped.
\<close>

theorem pipe_capacity:
  assumes "pipe_inv P p" and "\<forall>bs \<in> set msgs. length bs \<le> CFE_SB_MAX_SB_MSG_SIZE P"
  shows "\<exists>q. fifo_run pipe_full pipe_empty pipe_put pipe_get pipe_held p (map Put msgs) =
      Inr (q, take (31 - length (pipe_unread p)) msgs, []) \<and> pipe_inv P q \<and>
    length (pipe_unread q) = min 31 (length (pipe_unread p) + length msgs)"
  using assms by (rule pq.puts_accepted)

theorem pipe_capacity_witness:
  "\<exists>q. fifo_run pipe_full pipe_empty pipe_put pipe_get pipe_held
      (fresh_pipe cfs_small :: 16 word pipe) (map Put (replicate 40 [1, 2])) =
      Inr (q, replicate 31 [1, 2], []) \<and> pipe_inv cfs_small q \<and> length (pipe_unread q) = 31"
  using pipe_capacity [of cfs_small "fresh_pipe cfs_small :: 16 word pipe" "replicate 40 [1, 2]"]
  by (simp add: cfs_small_def)

text \<open>
  The slot a message is copied to: for all values of the two 32-bit counters, also those for
  which their sum wraps, \<open>message_entry_point\<close> is the mathematical residue of the sum and an index
  inside the ring.
\<close>

theorem message_entry_point_residue:
  "unat (message_entry_point p) = (unat (ReadMessage p) + unat (NumberOfMessages p)) mod 32 \<and>
   unat (message_entry_point p) < CFE_PLATFORM_SBN_CLIENT_MAX_PIPE_DEPTH \<and>
   0 \<le> sint (message_entry_point p)"
proof -
  have b: "unat (message_entry_point p) < 32" by (rule message_entry_point_bound)
  then have "int (unat (message_entry_point p)) < int 32" by (simp only: of_nat_less_iff)
  then have "uint (message_entry_point p) < 32" by simp
  moreover have "- (2 ^ 31) \<le> uint (message_entry_point p)"
    by (rule order_trans [OF _ uint_ge_0]) simp
  ultimately have "sint (message_entry_point p) = uint (message_entry_point p)"
    unfolding sint_uint by (intro signed_take_bit_int_eq_self) simp_all
  then show ?thesis using b by (simp add: message_entry_point_unat)
qed

end
