(* ===== verification/SBN_Table.thy ===== *)
theory SBN_Table
  imports SBN_Pipe
begin

text \<open>
  The pipe table: initialisation and the search for a free entry (\<open>sbn_client.c\<close>), the lookup
  of a pipe and of a free subscription slot (\<open>sbn_client_utils.c\<close>), and the two wrappers that
  create and delete pipes (\<open>sbn_client_wrappers.c\<close>). \<open>tbl_inv\<close> is the invariant of the table
  once \<open>CFE_SBN_Client_InitPipeTbl\<close> has run: an entry in use carries its own index as pipe id,
  every other entry is as \<open>invalidate_pipe\<close> leaves it.
\<close>

section \<open>Initialisation and searches\<close>

definition CFE_SBN_Client_InitPipeTbl :: "platform \<Rightarrow> 'm::len word client \<Rightarrow> 'm word client" where
  "CFE_SBN_Client_InitPipeTbl P s = s\<lparr>PipeTbl := map (invalidate_pipe P) (PipeTbl s)\<rparr>"

definition CFE_SBN_Client_GetAvailPipeIdx :: "'i client \<Rightarrow> u8" where
  "CFE_SBN_Client_GetAvailPipeIdx s =
     (case scan (\<lambda>p. InUse p = CFE_SBN_CLIENT_NOT_IN_USE) (PipeTbl s) of
        Some i \<Rightarrow> of_nat i
      | None \<Rightarrow> CFE_SBN_CLIENT_INVALID_PIPE)"

text \<open>The id is used as an index before anything has checked it.\<close>

definition CFE_SBN_Client_GetPipeIdx :: "'i client \<Rightarrow> u8 \<Rightarrow> u8 run" where
  "CFE_SBN_Client_GetPipeIdx s pid =
     bindR (arr_get (PipeTbl s) (unat pid)) (\<lambda>p.
       if PipeId p = pid \<and> InUse p = CFE_SBN_CLIENT_IN_USE then Inr pid
       else Inr (case scan (\<lambda>q. PipeId q = pid \<and> InUse q = CFE_SBN_CLIENT_IN_USE) (PipeTbl s) of
                   Some i \<Rightarrow> of_nat i
                 | None \<Rightarrow> CFE_SBN_CLIENT_INVALID_PIPE))"

definition CFE_SBN_Client_GetMessageSubscribeIndex :: "'m::len word client \<Rightarrow> u8 \<Rightarrow> u8 run" where
  "CFE_SBN_Client_GetMessageSubscribeIndex s pid =
     bindR (arr_get (PipeTbl s) (unat pid)) (\<lambda>p.
       Inr (case scan (\<lambda>m. m = CFE_SBN_CLIENT_INVALID_MSG_ID) (SubscribedMsgIds p) of
              Some i \<Rightarrow> of_nat i
            | None \<Rightarrow> CFE_SBN_CLIENT_MAX_MSG_IDS_MET))"

section \<open>Creating and deleting pipes\<close>

text \<open>The \<open>n\<close> bytes \<open>strncpy\<close> stores for a string \<open>src\<close>: cut at \<open>n\<close>, or padded with zeros.\<close>

definition strncpy_bytes :: "byte list \<Rightarrow> nat \<Rightarrow> byte list" where
  "strncpy_bytes src n = take n src @ replicate (n - length src) 0"

lemma length_strncpy_bytes [simp]: "length (strncpy_bytes src n) = n"
  by (simp add: strncpy_bytes_def)

text \<open>
  \<open>ptr\<close> says that \<open>PipeIdPtr\<close> is not \<open>NULL\<close>; the second result is what it points to afterwards.
  \<open>name\<close> is the C string \<open>PipeName\<close>, or none for \<open>NULL\<close>.
\<close>

definition wrap_CFE_SB_CreatePipe ::
    "platform \<Rightarrow> bool \<Rightarrow> u16 \<Rightarrow> byte list option \<Rightarrow> 'm::len word client \<Rightarrow>
     (i32 \<times> u8 option \<times> 'm word client) run" where
  "wrap_CFE_SB_CreatePipe P ptr depth name s =
     (let idp = (if ptr then Some CFE_SBN_CLIENT_INVALID_PIPE else None) in
      if \<not> ptr \<or> unat depth > CFE_PLATFORM_SBN_CLIENT_MAX_PIPE_DEPTH \<or> depth = 0
      then Inr (CFE_SBN_CLIENT_BAD_ARGUMENT P, idp, s)
      else
        case scan (\<lambda>p. InUse p \<noteq> CFE_SBN_CLIENT_IN_USE) (PipeTbl s) of
          None \<Rightarrow> Inr (CFE_SBN_CLIENT_MAX_PIPES_MET, idp, s)
        | Some i \<Rightarrow>
            (case name of
               None \<Rightarrow> Inl NullDeref
             | Some nm \<Rightarrow>
                 (let p = PipeTbl s ! i;
                      p' = p\<lparr>InUse := CFE_SBN_CLIENT_IN_USE, PipeId := of_nat i, SendErrors := 0,
                             PipeName := overwrite (PipeName p) 0
                               (strncpy_bytes nm (OS_MAX_API_NAME P))\<rparr>
                  in Inr (SBN_CLIENT_SUCCESS P, Some (of_nat i),
                          s\<lparr>PipeTbl := (PipeTbl s)[i := p']\<rparr>))))"

definition wrap_CFE_SB_DeletePipe ::
    "platform \<Rightarrow> u8 \<Rightarrow> 'm::len word client \<Rightarrow> i32 \<times> 'm word client" where
  "wrap_CFE_SB_DeletePipe P pid s =
     (case scan (\<lambda>p. PipeId p = pid) (PipeTbl s) of
        Some i \<Rightarrow>
          (if InUse (PipeTbl s ! i) = CFE_SBN_CLIENT_IN_USE
           then (CFE_SUCCESS P,
                 s\<lparr>PipeTbl := (PipeTbl s)[i := invalidate_pipe P (PipeTbl s ! i)]\<rparr>)
           else (-1, s))
      | None \<Rightarrow> (-2, s))"

section \<open>The table invariant\<close>

definition entry_inv :: "platform \<Rightarrow> nat \<Rightarrow> 'm::len word pipe \<Rightarrow> bool" where
  "entry_inv P i p \<longleftrightarrow> pipe_inv P p \<and>
     (if InUse p = CFE_SBN_CLIENT_IN_USE then PipeId p = of_nat i
      else invalidate_pipe P p = p)"

definition tbl_inv :: "platform \<Rightarrow> 'm::len word pipe list \<Rightarrow> bool" where
  "tbl_inv P tbl \<longleftrightarrow> length tbl = CFE_PLATFORM_SBN_CLIENT_MAX_PIPES \<and>
     (\<forall>i < CFE_PLATFORM_SBN_CLIENT_MAX_PIPES. entry_inv P i (tbl ! i))"

text \<open>The shape C's types give the table, initialised or not.\<close>

definition tbl_wf :: "platform \<Rightarrow> 'i pipe list \<Rightarrow> bool" where
  "tbl_wf P tbl \<longleftrightarrow> length tbl = CFE_PLATFORM_SBN_CLIENT_MAX_PIPES \<and> list_all (pipe_wf P) tbl"

lemma tbl_invD:
  "tbl_inv P tbl \<Longrightarrow> length tbl = 5"
  "tbl_inv P tbl \<Longrightarrow> i < 5 \<Longrightarrow> entry_inv P i (tbl ! i)"
  by (simp_all add: tbl_inv_def)

lemma tbl_inv_update [sbn_wf]:
  "tbl_inv P tbl \<Longrightarrow> entry_inv P i p \<Longrightarrow> tbl_inv P (tbl[i := p])"
  by (cases "i < 5") (auto simp: tbl_inv_def nth_list_update list_update_beyond)

lemma invalidate_pipe_idem:
  "pipe_wf P p \<Longrightarrow> invalidate_pipe P (invalidate_pipe P p) = invalidate_pipe P p"
  by (simp add: invalidate_pipe_def overwrite_full pipe_wf_def)

lemma entry_inv_invalidate [sbn_wf]: "pipe_wf P p \<Longrightarrow> entry_inv P i (invalidate_pipe P p)"
  by (simp add: entry_inv_def pipe_inv_def invalidate_pipe_wf invalidate_pipe_ring
      invalidate_pipe_idem)

lemma entry_inv_invalid:
  "entry_inv P i p \<Longrightarrow> InUse p \<noteq> 1 \<Longrightarrow> InUse p = 0 \<and> PipeId p = 0xFF"
  by (metis CFE_SBN_CLIENT_IN_USE_def entry_inv_def invalidate_pipe_fields(1,2))

lemma entry_inv_wf: "entry_inv P i p \<Longrightarrow> pipe_wf P p \<and> ring_ok p"
  by (simp add: entry_inv_def pipe_inv_def)

lemma small_index_u8: "i < 5 \<Longrightarrow> unat (of_nat i :: u8) = i" "i < 5 \<Longrightarrow> (of_nat i :: u8) \<noteq> 255"
proof -
  show a: "unat (of_nat i :: u8) = i" if "i < 5" for i
    using that by (simp add: unat_of_nat take_bit_nat_eq_self)
  show "(of_nat i :: u8) \<noteq> 255" if "i < 5"
  proof
    assume "(of_nat i :: u8) = 255"
    then have "unat (of_nat i :: u8) = 255" by simp
    with a [OF that] that show False by simp
  qed
qed

section \<open>The lookup contract\<close>

text \<open>
  What the wrappers need of \<open>CFE_SBN_Client_GetPipeIdx\<close>: an id in use is its own index, any
  other id inside the table gives the invalid index, an id outside it is an access outside the
  array. \<open>guarded\<close> is the shape in which both wrappers use it.
\<close>

locale pipe_lookup =
  fixes inv :: "'s \<Rightarrow> bool"
    and lookup :: "'s \<Rightarrow> u8 \<Rightarrow> u8 run"
    and live :: "'s \<Rightarrow> u8 \<Rightarrow> bool"
    and inside :: "u8 \<Rightarrow> bool"
  assumes hit: "inv s \<Longrightarrow> live s i \<Longrightarrow> lookup s i = Inr i"
    and miss: "inv s \<Longrightarrow> inside i \<Longrightarrow> \<not> live s i \<Longrightarrow> lookup s i = Inr 0xFF"
    and wild: "inv s \<Longrightarrow> \<not> inside i \<Longrightarrow> lookup s i = Inl OutOfBounds"
    and live_inside: "live s i \<Longrightarrow> inside i \<and> i \<noteq> 0xFF"
begin

lemma guarded:
  "inv s \<Longrightarrow>
   bindR (lookup s i) (\<lambda>j. if j = 0xFF then bad else k j) =
     (if live s i then k i else if inside i then bad else Inl OutOfBounds)"
  using hit [of s i] miss [of s i] wild [of s i] live_inside [of s i] by auto

lemma found_iff: "inv s \<Longrightarrow> (\<exists>j. lookup s i = Inr j \<and> j \<noteq> 0xFF) \<longleftrightarrow> live s i"
  using hit [of s i] miss [of s i] wild [of s i] live_inside [of s i]
  by (cases "inside i"; cases "live s i") auto

lemma faults_iff: "inv s \<Longrightarrow> lookup s i = Inl f \<longleftrightarrow> \<not> inside i \<and> f = OutOfBounds"
  using hit [of s i] miss [of s i] wild [of s i] live_inside [of s i]
  by (cases "inside i"; cases "live s i") auto

end

definition pipe_live :: "'i client \<Rightarrow> u8 \<Rightarrow> bool" where
  "pipe_live s pid \<longleftrightarrow> unat pid < CFE_PLATFORM_SBN_CLIENT_MAX_PIPES \<and>
     InUse (PipeTbl s ! unat pid) = CFE_SBN_CLIENT_IN_USE"

lemma GetPipeIdx_live:
  assumes "tbl_inv P (PipeTbl s)" and "pipe_live s pid"
  shows "CFE_SBN_Client_GetPipeIdx s pid = Inr pid"
proof -
  have "unat pid < 5" "InUse (PipeTbl s ! unat pid) = 1"
    using assms(2) by (simp_all add: pipe_live_def)
  moreover from this have "PipeId (PipeTbl s ! unat pid) = pid"
    using tbl_invD(2) [OF assms(1)] by (simp add: entry_inv_def)
  ultimately show ?thesis using tbl_invD(1) [OF assms(1)] by (simp add: CFE_SBN_Client_GetPipeIdx_def)
qed

lemma GetPipeIdx_not_live:
  assumes inv: "tbl_inv P (PipeTbl s)" and "unat pid < 5" and nl: "\<not> pipe_live s pid"
  shows "CFE_SBN_Client_GetPipeIdx s pid = Inr 0xFF"
proof -
  have "\<not> (PipeId q = pid \<and> InUse q = 1)" if q: "q \<in> set (PipeTbl s)" for q
  proof
    assume use: "PipeId q = pid \<and> InUse q = 1"
    obtain j where j: "j < 5" "q = PipeTbl s ! j"
      using q tbl_invD(1) [OF inv] by (auto simp: in_set_conv_nth)
    then have "PipeId q = of_nat j"
      using use tbl_invD(2) [OF inv j(1)] by (simp add: entry_inv_def)
    then have "unat pid = j" using use small_index_u8(1) [OF j(1)] by simp
    then show False using use nl j by (simp add: pipe_live_def)
  qed
  then have "scan (\<lambda>q. PipeId q = pid \<and> InUse q = 1) (PipeTbl s) = None"
    by (auto simp: scan_None)
  moreover have "\<not> (PipeId (PipeTbl s ! unat pid) = pid \<and> InUse (PipeTbl s ! unat pid) = 1)"
    using nl assms(2) by (simp add: pipe_live_def)
  ultimately show ?thesis
    using assms(2) tbl_invD(1) [OF inv] by (auto simp: CFE_SBN_Client_GetPipeIdx_def)
qed

interpretation pl: pipe_lookup "\<lambda>s. tbl_inv P (PipeTbl s)" CFE_SBN_Client_GetPipeIdx pipe_live
  "\<lambda>pid. unat pid < 5"
  for P
proof unfold_locales
  fix s :: "'m::len word client" and i :: u8
  assume inv: "tbl_inv P (PipeTbl s)"
  show "CFE_SBN_Client_GetPipeIdx s i = Inr i" if "pipe_live s i"
    using inv that by (rule GetPipeIdx_live)
  show "CFE_SBN_Client_GetPipeIdx s i = Inr 0xFF" if "unat i < 5" "\<not> pipe_live s i"
    using inv that by (rule GetPipeIdx_not_live)
  show "CFE_SBN_Client_GetPipeIdx s i = Inl OutOfBounds" if "\<not> unat i < 5"
    using that tbl_invD(1) [OF inv] by (simp add: CFE_SBN_Client_GetPipeIdx_def)
next
  fix s :: "'m::len word client" and i :: u8
  assume live: "pipe_live s i"
  have "i \<noteq> 0xFF" using live by (auto simp: pipe_live_def)
  with live show "unat i < 5 \<and> i \<noteq> 0xFF" by (simp add: pipe_live_def)
qed

section \<open>Behaviour of the table operations\<close>

lemma InitPipeTbl_inv [sbn_wf]:
  assumes "tbl_wf P (PipeTbl s)"
  shows "tbl_inv P (PipeTbl (CFE_SBN_Client_InitPipeTbl P s))"
  using assms
  by (auto simp: tbl_inv_def tbl_wf_def CFE_SBN_Client_InitPipeTbl_def list_all_length
      intro: entry_inv_invalidate)

text \<open>A client whose table has just been initialised.\<close>

definition ready_client :: "platform \<Rightarrow> 'm::len word client" where
  "ready_client P = CFE_SBN_Client_InitPipeTbl P (client_start P)"

lemma tbl_wf_client_start: "tbl_wf P (PipeTbl (client_start P))"
  by (simp add: tbl_wf_def client_start_def static_pipe_def pipe_wf_def list_all_length)

lemma tbl_inv_ready [simp]: "tbl_inv P (PipeTbl (ready_client P))"
  unfolding ready_client_def by (rule InitPipeTbl_inv [OF tbl_wf_client_start])

lemma not_in_use_iff: "tbl_inv P tbl \<Longrightarrow> i < 5 \<Longrightarrow> InUse (tbl ! i) \<noteq> 1 \<longleftrightarrow> InUse (tbl ! i) = 0"
  using entry_inv_invalid [OF tbl_invD(2)] by fastforce

lemma scan_free:
  assumes "tbl_inv P tbl" and "i < 5" and "InUse (tbl ! i) \<noteq> 1" and "\<forall>j < i. InUse (tbl ! j) = 1"
  shows "scan (\<lambda>p. InUse p \<noteq> 1) tbl = Some i" "scan (\<lambda>p. InUse p = 0) tbl = Some i"
  using assms not_in_use_iff [OF assms(1)] tbl_invD(1) [OF assms(1)]
  by (auto simp: scan_Some)

lemma scan_all_used:
  assumes "tbl_inv P tbl" and "\<forall>i < 5. InUse (tbl ! i) = 1"
  shows "scan (\<lambda>p. InUse p \<noteq> 1) tbl = None" "scan (\<lambda>p. InUse p = 0) tbl = None"
  using assms tbl_invD(1) [OF assms(1)] by (auto simp: scan_None in_set_conv_nth)

text \<open>The entry a successful creation leaves behind.\<close>

definition created_pipe :: "platform \<Rightarrow> nat \<Rightarrow> byte list \<Rightarrow> 'm::len word pipe \<Rightarrow> 'm word pipe" where
  "created_pipe P i nm p =
     p\<lparr>InUse := 1, PipeId := of_nat i, SendErrors := 0,
       PipeName := overwrite (PipeName p) 0 (strncpy_bytes nm (OS_MAX_API_NAME P))\<rparr>"

lemma created_pipe_fields [simp]:
  "InUse (created_pipe P i nm p) = 1" "PipeId (created_pipe P i nm p) = of_nat i"
  "NumberOfMessages (created_pipe P i nm p) = NumberOfMessages p"
  "ReadMessage (created_pipe P i nm p) = ReadMessage p"
  "Messages (created_pipe P i nm p) = Messages p"
  "SubscribedMsgIds (created_pipe P i nm p) = SubscribedMsgIds p"
  by (simp_all add: created_pipe_def)

lemma created_pipe_entry_inv [sbn_wf]: "entry_inv P i p \<Longrightarrow> entry_inv P i (created_pipe P i nm p)"
  by (auto simp: entry_inv_def pipe_inv_def pipe_wf_def ring_ok_def created_pipe_def split: if_splits)

lemma invalidate_created_pipe:
  assumes "pipe_wf P p" and "invalidate_pipe P p = p"
  shows "invalidate_pipe P (created_pipe P i nm p) = p\<lparr>SendErrors := 0\<rparr>"
proof -
  have "invalidate_pipe P (created_pipe P i nm p) = (invalidate_pipe P p)\<lparr>SendErrors := 0\<rparr>"
    using assms(1) by (simp add: invalidate_pipe_def created_pipe_def overwrite_full pipe_wf_def)
  with assms(2) show ?thesis by simp
qed

lemma CreatePipe_ok:
  assumes "scan (\<lambda>p. InUse p \<noteq> 1) (PipeTbl s) = Some i" and "depth \<noteq> 0" and "unat depth \<le> 32"
  shows "wrap_CFE_SB_CreatePipe P True depth (Some nm) s =
    Inr (OS_SUCCESS P, Some (of_nat i),
         s\<lparr>PipeTbl := (PipeTbl s)[i := created_pipe P i nm (PipeTbl s ! i)]\<rparr>)"
  using assms by (simp add: wrap_CFE_SB_CreatePipe_def created_pipe_def Let_def)

lemma CreatePipe_state:
  assumes "wrap_CFE_SB_CreatePipe P ptr depth name s = Inr (st, idp, s')"
  shows "s' = s \<or> (\<exists>i nm. scan (\<lambda>p. InUse p \<noteq> 1) (PipeTbl s) = Some i \<and>
    s' = s\<lparr>PipeTbl := (PipeTbl s)[i := created_pipe P i nm (PipeTbl s ! i)]\<rparr>)"
proof (cases "\<not> ptr \<or> unat depth > 32 \<or> depth = 0")
  case True
  then show ?thesis using assms by (auto simp: wrap_CFE_SB_CreatePipe_def)
next
  case False
  show ?thesis
  proof (cases "scan (\<lambda>p. InUse p \<noteq> 1) (PipeTbl s)")
    case None
    then show ?thesis using assms False by (simp add: wrap_CFE_SB_CreatePipe_def)
  next
    case (Some i)
    then obtain nm where "name = Some nm"
      using assms False by (cases name) (simp_all add: wrap_CFE_SB_CreatePipe_def)
    then show ?thesis using assms False CreatePipe_ok [OF Some, of depth P nm] Some by auto
  qed
qed

lemma CreatePipe_inv [sbn_wf]:
  assumes inv: "tbl_inv P (PipeTbl s)"
    and run: "wrap_CFE_SB_CreatePipe P ptr depth name s = Inr (st, idp, s')"
  shows "tbl_inv P (PipeTbl s')"
  using CreatePipe_state [OF run]
proof (elim disjE exE conjE)
  assume "s' = s"
  then show ?thesis using inv by simp
next
  fix i nm
  assume i: "scan (\<lambda>p. InUse p \<noteq> 1) (PipeTbl s) = Some i"
    and s': "s' = s\<lparr>PipeTbl := (PipeTbl s)[i := created_pipe P i nm (PipeTbl s ! i)]\<rparr>"
  have "i < 5" using scan_SomeD [OF i] tbl_invD(1) [OF inv] by simp
  then have "tbl_inv P ((PipeTbl s)[i := created_pipe P i nm (PipeTbl s ! i)])"
    by (intro tbl_inv_update created_pipe_entry_inv tbl_invD(2) inv)
  then show ?thesis by (simp add: s')
qed

lemma DeletePipe_inv [sbn_wf]:
  assumes inv: "tbl_inv P (PipeTbl s)" and run: "wrap_CFE_SB_DeletePipe P pid s = (st, s')"
  shows "tbl_inv P (PipeTbl s')"
proof (cases "PipeTbl s' = PipeTbl s")
  case True
  then show ?thesis using inv by simp
next
  case False
  then obtain i where i: "scan (\<lambda>p. PipeId p = pid) (PipeTbl s) = Some i"
    "PipeTbl s' = (PipeTbl s)[i := invalidate_pipe P (PipeTbl s ! i)]"
    using run by (auto simp: wrap_CFE_SB_DeletePipe_def split: if_splits option.splits)
  have "i < 5" using scan_SomeD [OF i(1)] tbl_invD(1) [OF inv] by simp
  then have "pipe_wf P (PipeTbl s ! i)" using entry_inv_wf tbl_invD(2) [OF inv] by blast
  then show ?thesis unfolding i(2) by (intro tbl_inv_update entry_inv_invalidate inv)
qed

lemma scan_pipe_id:
  assumes inv: "tbl_inv P (PipeTbl s)" and "pipe_live s pid"
  shows "scan (\<lambda>p. PipeId p = pid) (PipeTbl s) = Some (unat pid)"
proof -
  have pid: "unat pid < 5" "InUse (PipeTbl s ! unat pid) = 1"
    using assms(2) by (simp_all add: pipe_live_def)
  have own: "PipeId (PipeTbl s ! j) = of_nat j \<or> PipeId (PipeTbl s ! j) = 0xFF" if "j < 5" for j
    using tbl_invD(2) [OF inv that] entry_inv_invalid [OF tbl_invD(2) [OF inv that]]
    by (auto simp: entry_inv_def split: if_splits)
  have ne: "PipeId (PipeTbl s ! j) \<noteq> pid" if "j < unat pid" for j
  proof
    assume eq: "PipeId (PipeTbl s ! j) = pid"
    have j: "j < 5" using that pid(1) by simp
    have "pid \<noteq> 0xFF" using pid(1) by auto
    then have "pid = of_nat j" using own [OF j] eq by auto
    then show False using small_index_u8(1) [OF j] that by simp
  qed
  have "PipeId (PipeTbl s ! unat pid) = pid"
    using tbl_invD(2) [OF inv pid(1)] pid(2) by (simp add: entry_inv_def)
  then show ?thesis using ne pid(1) tbl_invD(1) [OF inv] by (simp add: scan_Some)
qed

section \<open>Properties\<close>

lemma InitPipeTbl_entry:
  assumes "tbl_wf P (PipeTbl s)" and "i < 5"
  shows "PipeTbl (CFE_SBN_Client_InitPipeTbl P s) ! i = invalidate_pipe P (PipeTbl s ! i)"
    "SubscribedMsgIds (invalidate_pipe P (PipeTbl s ! i)) = replicate 4 0"
  using assms by (simp_all add: CFE_SBN_Client_InitPipeTbl_def tbl_wf_def list_all_length
      pipe_wf_def invalidate_pipe_def overwrite_full)

text \<open>
  Initialisation turns any table, whatever its arrays hold, into one that satisfies the table
  invariant: no id names a pipe, the first free entry is 0, every ring is drained and no entry
  carries a subscription; initialising again changes nothing.
\<close>

theorem InitPipeTbl_ready:
  assumes "tbl_wf P (PipeTbl s)"
  shows "let s' = CFE_SBN_Client_InitPipeTbl P s in
    tbl_inv P (PipeTbl s') \<and> (\<forall>pid. \<not> pipe_live s' pid) \<and> CFE_SBN_Client_GetAvailPipeIdx s' = 0 \<and>
    (\<forall>i < 5. pipe_unread (PipeTbl s' ! i) = [] \<and> SubscribedMsgIds (PipeTbl s' ! i) = replicate 4 0) \<and>
    CFE_SBN_Client_InitPipeTbl P s' = s'"
proof -
  let ?s = "CFE_SBN_Client_InitPipeTbl P s"
  have inv: "tbl_inv P (PipeTbl ?s)" using assms by (rule InitPipeTbl_inv)
  note ent = InitPipeTbl_entry [OF assms]
  have "scan (\<lambda>p. InUse p = 0) (PipeTbl ?s) = Some 0"
    by (rule scan_free(2) [OF inv]) (simp_all add: ent)
  moreover have "map (invalidate_pipe P) (PipeTbl ?s) = PipeTbl ?s"
    using assms by (auto simp: CFE_SBN_Client_InitPipeTbl_def tbl_wf_def list_all_length
        in_set_conv_nth invalidate_pipe_idem)
  ultimately show ?thesis
    using inv ent by (simp add: Let_def pipe_live_def CFE_SBN_Client_GetAvailPipeIdx_def
        CFE_SBN_Client_InitPipeTbl_def [of P ?s])
qed

theorem InitPipeTbl_ready_witness:
  "let s' = CFE_SBN_Client_InitPipeTbl cfs_small (client_start cfs_small :: 16 word client) in
    tbl_inv cfs_small (PipeTbl s') \<and> (\<forall>pid. \<not> pipe_live s' pid) \<and>
    CFE_SBN_Client_GetAvailPipeIdx s' = 0 \<and>
    (\<forall>i < 5. pipe_unread (PipeTbl s' ! i) = [] \<and> SubscribedMsgIds (PipeTbl s' ! i) = replicate 4 0) \<and>
    CFE_SBN_Client_InitPipeTbl cfs_small s' = s'"
  by (rule InitPipeTbl_ready [OF tbl_wf_client_start])

lemma ready_not_live: "\<not> pipe_live (ready_client P) pid"
  by (simp add: ready_client_def pipe_live_def InitPipeTbl_entry(1) [OF tbl_wf_client_start])

text \<open>
  Looking a pipe up, on every id: under the table invariant an id in use is found at its own
  index, any other id below 5 gives \<open>CFE_SBN_CLIENT_INVALID_PIPE\<close>, and an id of 5 or more (the
  invalid id 0xFF included) reads \<open>PipeTbl\<close> outside its bounds before anything is checked.
\<close>

theorem GetPipeIdx_branches:
  assumes "tbl_inv P (PipeTbl s)"
  shows "CFE_SBN_Client_GetPipeIdx s pid =
    (if pipe_live s pid then Inr pid
     else if unat pid < 5 then Inr CFE_SBN_CLIENT_INVALID_PIPE else Inl OutOfBounds)"
  using pl.hit [OF assms, of pid] pl.miss [OF assms, of pid] pl.wild [OF assms, of pid] by simp

theorem GetPipeIdx_branches_witness:
  "CFE_SBN_Client_GetPipeIdx (ready_client cfs_small :: 16 word client) 0xFF = Inl OutOfBounds \<and>
   CFE_SBN_Client_GetPipeIdx (ready_client cfs_small :: 16 word client) 3 = Inr 0xFF"
proof -
  have inv: "tbl_inv cfs_small (PipeTbl (ready_client cfs_small :: 16 word client))" by simp
  show ?thesis
    using GetPipeIdx_branches [OF inv, of 255] GetPipeIdx_branches [OF inv, of 3]
    by (simp add: ready_not_live)
qed

lemma all_live_or_least:
  assumes "\<not> (\<forall>i < 5. pipe_live s (of_nat i))"
  obtains i where "i < 5" "\<not> pipe_live s (of_nat i)" "\<forall>j < i. pipe_live s (of_nat j)"
proof -
  let ?i = "LEAST i. i < 5 \<and> \<not> pipe_live s (of_nat i)"
  have "\<exists>i. i < 5 \<and> \<not> pipe_live s (of_nat i)" using assms by blast
  then have i: "?i < 5 \<and> \<not> pipe_live s (of_nat ?i)" by (rule LeastI_ex)
  have "pipe_live s (of_nat j)" if "j < ?i" for j
    using not_less_Least [OF that] that i by (auto dest: less_trans)
  then show thesis using that i by blast
qed

lemma pipe_live_of_nat: "i < 5 \<Longrightarrow> pipe_live s (of_nat i) \<longleftrightarrow> InUse (PipeTbl s ! i) = 1"
  by (simp add: pipe_live_def small_index_u8)

lemma pipe_live_update:
  assumes "length (PipeTbl s) = 5" and "i < 5" and "InUse p = 1"
  shows "pipe_live (s\<lparr>PipeTbl := (PipeTbl s)[i := p]\<rparr>) pid \<longleftrightarrow> pipe_live s pid \<or> pid = of_nat i"
  using assms small_index_u8(1) [OF assms(2)]
  by (auto simp: pipe_live_def nth_list_update word_unat_eq_iff)

lemma entry_inv_unused:
  assumes "entry_inv P i p" and "InUse p \<noteq> 1"
  shows "pipe_unread p = []" "SubscribedMsgIds p = replicate 4 0"
proof -
  have eq: "invalidate_pipe P p = p" using assms by (simp add: entry_inv_def split: if_splits)
  show "pipe_unread p = []" by (metis eq invalidate_pipe_fields(4))
  have "length (SubscribedMsgIds p) = 4" using assms(1) by (simp add: entry_inv_def pipe_inv_def pipe_wf_def)
  then have "SubscribedMsgIds (invalidate_pipe P p) = replicate 4 0"
    by (simp add: invalidate_pipe_def overwrite_full)
  then show "SubscribedMsgIds p = replicate 4 0" by (simp only: eq)
qed

lemma created_pipe_unread [simp]: "pipe_unread (created_pipe P i nm p) = pipe_unread p"
  by (simp add: pipe_unread_def pipe_slot_def [abs_def])



lemma scan_invalid_id:
  assumes inv: "tbl_inv P (PipeTbl s)" and "\<not> pipe_live s pid"
  shows "(\<exists>i < 5. PipeId (PipeTbl s ! i) = pid) \<longleftrightarrow> pid = 0xFF \<and> \<not> (\<forall>i < 5. pipe_live s (of_nat i))"
proof -
  have live: "PipeId (PipeTbl s ! i) = of_nat i" if "i < 5" "pipe_live s (of_nat i)" for i
    using that tbl_invD(2) [OF inv that(1)] by (simp add: pipe_live_of_nat entry_inv_def)
  have dead: "PipeId (PipeTbl s ! i) = 0xFF" if "i < 5" "\<not> pipe_live s (of_nat i)" for i
    using that entry_inv_invalid [OF tbl_invD(2) [OF inv that(1)]] by (simp add: pipe_live_of_nat)
  show ?thesis
    using live dead assms(2) small_index_u8(2) by metis
qed

lemma DeletePipe_live:
  assumes inv: "tbl_inv P (PipeTbl s)" and live: "pipe_live s pid"
  shows "wrap_CFE_SB_DeletePipe P pid s = (CFE_SUCCESS P,
    s\<lparr>PipeTbl := (PipeTbl s)[unat pid := invalidate_pipe P (PipeTbl s ! unat pid)]\<rparr>)"
  using scan_pipe_id [OF inv live] live by (simp add: wrap_CFE_SB_DeletePipe_def pipe_live_def)

text \<open>
  C27. Deleting a pipe, every branch. The id of a pipe in use is released: success, its entry is as
  after initialisation, and no other id changes. The invalid id 0xFF gives -1 when some entry is
  free, because it matches the id of a free entry; every other id (and 0xFF on a full table) gives
  -2. In both error cases nothing changes.
\<close>

theorem DeletePipe_branches:
  assumes inv: "tbl_inv P (PipeTbl s)"
  shows "(pipe_live s pid \<longrightarrow> (\<exists>s'. wrap_CFE_SB_DeletePipe P pid s = (CFE_SUCCESS P, s') \<and>
      PipeTbl s' = (PipeTbl s)[unat pid := invalidate_pipe P (PipeTbl s ! unat pid)] \<and>
      (\<forall>q. pipe_live s' q \<longleftrightarrow> pipe_live s q \<and> q \<noteq> pid))) \<and>
    (\<not> pipe_live s pid \<longrightarrow> wrap_CFE_SB_DeletePipe P pid s =
      (if pid = 0xFF \<and> \<not> (\<forall>i < 5. pipe_live s (of_nat i)) then -1 else -2, s))"
proof (intro conjI impI)
  assume live: "pipe_live s pid"
  have len: "length (PipeTbl s) = 5" by (rule tbl_invD(1) [OF inv])
  have "pipe_live (s\<lparr>PipeTbl := (PipeTbl s)[unat pid := invalidate_pipe P (PipeTbl s ! unat pid)]\<rparr>) q
      \<longleftrightarrow> pipe_live s q \<and> q \<noteq> pid" for q
    using len live by (auto simp: pipe_live_def nth_list_update word_unat_eq_iff)
  then show "\<exists>s'. wrap_CFE_SB_DeletePipe P pid s = (CFE_SUCCESS P, s') \<and>
      PipeTbl s' = (PipeTbl s)[unat pid := invalidate_pipe P (PipeTbl s ! unat pid)] \<and>
      (\<forall>q. pipe_live s' q \<longleftrightarrow> pipe_live s q \<and> q \<noteq> pid)"
    using DeletePipe_live [OF inv live] by simp
next
  assume nl: "\<not> pipe_live s pid"
  have len: "length (PipeTbl s) = 5" by (rule tbl_invD(1) [OF inv])
  show "wrap_CFE_SB_DeletePipe P pid s =
      (if pid = 0xFF \<and> \<not> (\<forall>i < 5. pipe_live s (of_nat i)) then -1 else -2, s)"
  proof (cases "scan (\<lambda>p. PipeId p = pid) (PipeTbl s)")
    case None
    then have "\<not> (\<exists>i < 5. PipeId (PipeTbl s ! i) = pid)" using len by (auto simp: scan_None)
    then show ?thesis using None scan_invalid_id [OF inv nl] by (simp add: wrap_CFE_SB_DeletePipe_def)
  next
    case (Some i)
    then have i: "i < 5" "PipeId (PipeTbl s ! i) = pid" using scan_SomeD [OF Some] len by simp_all
    have ff: "pid = 0xFF \<and> \<not> (\<forall>i < 5. pipe_live s (of_nat i))"
      using scan_invalid_id [OF inv nl] i by blast
    have "InUse (PipeTbl s ! i) \<noteq> 1"
    proof
      assume "InUse (PipeTbl s ! i) = 1"
      then have "pid = of_nat i" using tbl_invD(2) [OF inv i(1)] i(2) by (simp add: entry_inv_def)
      then show False using small_index_u8(2) [OF i(1)] ff by simp
    qed
    then show ?thesis using Some ff by (simp add: wrap_CFE_SB_DeletePipe_def)
  qed
qed

theorem DeletePipe_branches_witness:
  "wrap_CFE_SB_DeletePipe cfs_small 0xFF (ready_client cfs_small :: 16 word client) =
     (-1, ready_client cfs_small) \<and>
   wrap_CFE_SB_DeletePipe cfs_small 2 (ready_client cfs_small :: 16 word client) =
     (-2, ready_client cfs_small)"
proof -
  have inv: "tbl_inv cfs_small (PipeTbl (ready_client cfs_small :: 16 word client))" by simp
  have "\<exists>i < 5. \<not> pipe_live (ready_client cfs_small :: 16 word client) (of_nat i)"
    by (auto simp: ready_not_live intro: exI [of _ "0 :: nat"])
  then show ?thesis
    using DeletePipe_branches [OF inv, of 255] DeletePipe_branches [OF inv, of 2]
    by (simp add: ready_not_live)
qed

lemma CreatePipe_success:
  assumes inv: "tbl_inv P (PipeTbl s)"
    and run: "wrap_CFE_SB_CreatePipe P ptr depth name s = Inr (st, Some pid, s')" and "pid \<noteq> 0xFF"
  obtains i nm where "i < 5" "pid = of_nat i" "InUse (PipeTbl s ! i) \<noteq> 1" "st = OS_SUCCESS P"
    "s' = s\<lparr>PipeTbl := (PipeTbl s)[i := created_pipe P i nm (PipeTbl s ! i)]\<rparr>"
proof -
  have ok: "\<not> (\<not> ptr \<or> unat depth > 32 \<or> depth = 0)"
    using run assms(3) by (auto simp: wrap_CFE_SB_CreatePipe_def Let_def split: if_splits)
  obtain i where i: "scan (\<lambda>p. InUse p \<noteq> 1) (PipeTbl s) = Some i"
    using run assms(3) ok by (cases "scan (\<lambda>p. InUse p \<noteq> 1) (PipeTbl s)")
      (auto simp: wrap_CFE_SB_CreatePipe_def Let_def)
  then obtain nm where "name = Some nm"
    using run ok by (cases name) (simp_all add: wrap_CFE_SB_CreatePipe_def)
  then show thesis
    using CreatePipe_ok [OF i, of depth P nm] run ok scan_SomeD [OF i] tbl_invD(1) [OF inv]
    by (intro that [of i nm]) simp_all
qed

text \<open>
  C33. A pipe that was created can be found under the id the call returned, and deleting that id
  succeeds, makes it unknown again and restores the table, up to the \<open>SendErrors\<close> counter of the
  entry, which creation had reset.
\<close>

theorem create_delete_roundtrip:
  assumes inv: "tbl_inv P (PipeTbl s)"
    and run: "wrap_CFE_SB_CreatePipe P ptr depth name s = Inr (st, Some pid, s')" and "pid \<noteq> 0xFF"
  shows "CFE_SBN_Client_GetPipeIdx s' pid = Inr pid \<and>
    (\<exists>s''. wrap_CFE_SB_DeletePipe P pid s' = (CFE_SUCCESS P, s'') \<and>
       CFE_SBN_Client_GetPipeIdx s'' pid = Inr 0xFF \<and>
       s'' = s\<lparr>PipeTbl := (PipeTbl s)[unat pid := (PipeTbl s ! unat pid)\<lparr>SendErrors := 0\<rparr>]\<rparr>)"
proof -
  obtain i nm where i: "i < 5" "pid = of_nat i" "InUse (PipeTbl s ! i) \<noteq> 1"
    and s': "s' = s\<lparr>PipeTbl := (PipeTbl s)[i := created_pipe P i nm (PipeTbl s ! i)]\<rparr>"
    using CreatePipe_success [OF inv run assms(3)] by blast
  have len: "length (PipeTbl s) = 5" by (rule tbl_invD(1) [OF inv])
  have pid: "unat pid = i" using i by (simp add: small_index_u8)
  have ent: "entry_inv P i (PipeTbl s ! i)" using inv i(1) by (rule tbl_invD(2))
  have inv': "tbl_inv P (PipeTbl s')" using inv run by (rule CreatePipe_inv)
  have live: "pipe_live s' pid" using i(1) pid len by (simp add: pipe_live_def s')
  have eq: "invalidate_pipe P (created_pipe P i nm (PipeTbl s ! i)) = (PipeTbl s ! i)\<lparr>SendErrors := 0\<rparr>"
    using ent i(3) by (intro invalidate_created_pipe) (simp_all add: entry_inv_def pipe_inv_def)
  let ?s2 = "s\<lparr>PipeTbl := (PipeTbl s)[i := (PipeTbl s ! i)\<lparr>SendErrors := 0\<rparr>]\<rparr>"
  have del: "wrap_CFE_SB_DeletePipe P pid s' = (CFE_SUCCESS P, ?s2)"
    using DeletePipe_live [OF inv' live] len i(1) pid by (simp add: s' eq)
  have "tbl_inv P (PipeTbl ?s2)" using DeletePipe_inv [OF inv' del] .
  moreover have "\<not> pipe_live ?s2 pid" using pid len i by (simp add: pipe_live_def)
  ultimately have "CFE_SBN_Client_GetPipeIdx ?s2 pid = Inr 0xFF"
    using pid i(1) by (intro GetPipeIdx_not_live) simp_all
  then show ?thesis using GetPipeIdx_live [OF inv' live] del pid by simp
qed

theorem create_delete_roundtrip_witness:
  "\<exists>s' s''. wrap_CFE_SB_CreatePipe cfs_small True 10 (Some [0x61]) (ready_client cfs_small) =
      Inr (0, Some 0, s') \<and> wrap_CFE_SB_DeletePipe cfs_small 0 s' = (0, s'' :: 16 word client) \<and>
    CFE_SBN_Client_GetPipeIdx s' 0 = Inr 0 \<and> CFE_SBN_Client_GetPipeIdx s'' 0 = Inr 0xFF"
proof -
  let ?s = "ready_client cfs_small :: 16 word client"
  have inv: "tbl_inv cfs_small (PipeTbl ?s)" by simp
  have "InUse (PipeTbl ?s ! 0) \<noteq> 1" using ready_not_live [of cfs_small 0] by (simp add: pipe_live_def)
  then have "scan (\<lambda>p. InUse p \<noteq> 1) (PipeTbl ?s) = Some 0" by (intro scan_free(1) [OF inv]) simp_all
  then have "wrap_CFE_SB_CreatePipe cfs_small True 10 (Some [0x61]) ?s = Inr (OS_SUCCESS cfs_small,
      Some (of_nat 0), ?s\<lparr>PipeTbl := (PipeTbl ?s)[0 := created_pipe cfs_small 0 [0x61] (PipeTbl ?s ! 0)]\<rparr>)"
    by (intro CreatePipe_ok) simp_all
  then show ?thesis
    using create_delete_roundtrip [OF inv, of True 10 "Some [0x61]" 0 0] platform_okD(1,2) [OF platform_ok_cfs(2)]
    by auto
qed

end
