(* ===== verification/SBN_Socket.thy ===== *)
theory SBN_Socket
  imports SBN_Table
begin

text \<open>
  The socket side of \<open>sbn_client_utils.c\<close>: reading an exact number of bytes, writing, the
  heartbeat, connecting to the server, and the check of \<open>pthread_create\<close>. The contract of the
  exact read, as seen by the frame parser, is the locale \<open>byte_source\<close>.
\<close>

section \<open>Error numbers of the C library\<close>

definition EPERM :: i32 where [simp]: "EPERM = 1"
definition EINTR :: i32 where [simp]: "EINTR = 4"
definition EBADF :: i32 where [simp]: "EBADF = 9"
definition EAGAIN :: i32 where [simp]: "EAGAIN = 11"
definition ENOMEM :: i32 where [simp]: "ENOMEM = 12"
definition EACCES :: i32 where [simp]: "EACCES = 13"
definition EFAULT :: i32 where [simp]: "EFAULT = 14"
definition EINVAL :: i32 where [simp]: "EINVAL = 22"
definition EMFILE :: i32 where [simp]: "EMFILE = 24"
definition ENOTSOCK :: i32 where [simp]: "ENOTSOCK = 88"
definition EPROTOTYPE :: i32 where [simp]: "EPROTOTYPE = 91"
definition EPROTONOSUPPORT :: i32 where [simp]: "EPROTONOSUPPORT = 93"
definition EAFNOSUPPORT :: i32 where [simp]: "EAFNOSUPPORT = 97"
definition EADDRINUSE :: i32 where [simp]: "EADDRINUSE = 98"
definition EADDRNOTAVAIL :: i32 where [simp]: "EADDRNOTAVAIL = 99"
definition ENETUNREACH :: i32 where [simp]: "ENETUNREACH = 101"
definition ENOBUFS :: i32 where [simp]: "ENOBUFS = 105"
definition EISCONN :: i32 where [simp]: "EISCONN = 106"
definition ETIMEDOUT :: i32 where [simp]: "ETIMEDOUT = 110"
definition ECONNREFUSED :: i32 where [simp]: "ECONNREFUSED = 111"
definition EALREADY :: i32 where [simp]: "EALREADY = 114"
definition EINPROGRESS :: i32 where [simp]: "EINPROGRESS = 115"

section \<open>Threads\<close>

definition check_pthread_create_status ::
    "platform \<Rightarrow> i32 \<Rightarrow> i32 \<Rightarrow> 'i client \<Rightarrow> i32 \<times> 'i client" where
  "check_pthread_create_status P status errorId s =
     (if status = 0 then (SBN_CLIENT_SUCCESS P, s)
      else
        let s1 = (if status = EAGAIN then log_message ''Create thread error = EAGAIN'' [] s
                  else if status = EINVAL then log_message ''Create thread error = EINVAL'' [] s
                  else if status = EPERM then log_message ''Create thread error = EPERM'' [] s
                  else printf (''Unknown thread creation error = %d'' @ [CHR 0x0A])
                         [Int_arg status] s)
        in (errorId, perror ''pthread_create error'' s1))"

section \<open>Reading an exact number of bytes\<close>

definition set_rd :: "i32 \<Rightarrow> rd_event list \<Rightarrow> 'i client \<Rightarrow> 'i client" where
  "set_rd fd es s = s\<lparr>Sock := (Sock s)(fd := (Sock s fd)\<lparr>rd := es\<rparr>)\<rparr>"

lemma set_rd_frame [simp]:
  "PipeTbl (set_rd fd es s) = PipeTbl s" "sbn_client_sockfd (set_rd fd es s) = sbn_client_sockfd s"
  "sbn_client_cpuId (set_rd fd es s) = sbn_client_cpuId s"
  "continue_heartbeat (set_rd fd es s) = continue_heartbeat s"
  "continue_receive_check (set_rd fd es s) = continue_receive_check s"
  "HeapBlocks (set_rd fd es s) = HeapBlocks s" "Threads (set_rd fd es s) = Threads s"
  "OpenFds (set_rd fd es s) = OpenFds s" "Sync (set_rd fd es s) = Sync s"
  "Slept (set_rd fd es s) = Slept s" "Out (set_rd fd es s) = Out s"
  "server_address (set_rd fd es s) = server_address s" "Errno (set_rd fd es s) = Errno s"
  "Sock (set_rd fd es s) = (Sock s)(fd := (Sock s fd)\<lparr>rd := es\<rparr>)"
  by (simp_all add: set_rd_def)

text \<open>The \<open>while\<close> loop: \<open>got\<close> bytes of \<open>n\<close> are in the buffer.\<close>

function ReadBytes_loop ::
    "platform \<Rightarrow> i32 \<Rightarrow> nat \<Rightarrow> byte list \<Rightarrow> nat \<Rightarrow> 'i client \<Rightarrow> (i32 \<times> byte list \<times> 'i client) run" where
  "ReadBytes_loop P fd n buf got s =
     (if got = n then Inr (CFE_SUCCESS P, buf, s)
      else bindR (sock_read (n - got) (rd (Sock s fd))) (\<lambda>r.
        case fst r of
          R_Error e \<Rightarrow>
            Inr (CFE_SBN_CLIENT_PIPE_BROKEN_ERR, buf,
                 log_message (''SBN_CLIENT: ERROR CFE_SBN_CLIENT_PIPE_BROKEN_ERR'' @ [CHR 0x0A]) []
                   ((set_rd fd (snd r) s)\<lparr>Errno := e\<rparr>))
        | R_Eof \<Rightarrow>
            Inr (CFE_SBN_CLIENT_PIPE_CLOSED_ERR, buf,
                 log_message
                   (''SBN_CLIENT: ERROR CFE_SBN_CLIENT_PIPE_CLOSED_ERR: %s'' @ [CHR 0x0A])
                   [Str_arg (strerror P (Errno s))] (set_rd fd (snd r) s))
        | R_Bytes bs \<Rightarrow>
            bindR (mem_write buf got bs) (\<lambda>buf'.
              ReadBytes_loop P fd n buf' (got + length bs) (set_rd fd (snd r) s))))"
  by pat_completeness auto
termination
  by (relation "measure (\<lambda>(P, fd, n, buf, got, s). n - got)")
     (simp, clarsimp, drule sock_read_bytes, linarith)

declare ReadBytes_loop.simps [simp del]

definition CFE_SBN_Client_ReadBytes ::
    "platform \<Rightarrow> i32 \<Rightarrow> byte list \<Rightarrow> nat \<Rightarrow> 'i client \<Rightarrow> (i32 \<times> byte list \<times> 'i client) run" where
  "CFE_SBN_Client_ReadBytes P fd buf n s =
     (if n > CFE_SBN_CLIENT_MAX_MESSAGE_SIZE P
      then Inr (CFE_SBN_CLIENT_BAD_ARGUMENT P, buf,
        log_message
          ''CFE_SBN_Client_ReadBytes: MsgSz (%u) > CFE_SBN_CLIENT_MAX_MESSAGE_SIZE (%u)''
          [Int_arg (of_nat n), Int_arg (of_nat (CFE_SBN_CLIENT_MAX_MESSAGE_SIZE P))] s)
      else ReadBytes_loop P fd n buf 0 s)"

section \<open>Writing\<close>

definition set_chan :: "i32 \<Rightarrow> chan \<Rightarrow> 'i client \<Rightarrow> 'i client" where
  "set_chan fd c s = s\<lparr>Sock := (Sock s)(fd := c)\<rparr>"

lemma set_chan_frame [simp]:
  "PipeTbl (set_chan fd c s) = PipeTbl s" "sbn_client_sockfd (set_chan fd c s) = sbn_client_sockfd s"
  "sbn_client_cpuId (set_chan fd c s) = sbn_client_cpuId s"
  "continue_heartbeat (set_chan fd c s) = continue_heartbeat s"
  "continue_receive_check (set_chan fd c s) = continue_receive_check s"
  "HeapBlocks (set_chan fd c s) = HeapBlocks s" "Threads (set_chan fd c s) = Threads s"
  "OpenFds (set_chan fd c s) = OpenFds s" "Sync (set_chan fd c s) = Sync s"
  "Slept (set_chan fd c s) = Slept s" "Out (set_chan fd c s) = Out s"
  "server_address (set_chan fd c s) = server_address s" "Errno (set_chan fd c s) = Errno s"
  "Sock (set_chan fd c s) = (Sock s)(fd := c)"
  by (simp_all add: set_chan_def)

definition write_message :: "i32 \<Rightarrow> byte list \<Rightarrow> 'i client \<Rightarrow> size_t \<times> 'i client" where
  "write_message fd bs s =
     (let (r, c) = sock_write bs (Sock s fd) in (r, set_chan fd c s))"

definition send_heartbeat ::
    "platform \<Rightarrow> ('i, 'k, 'u) packer \<Rightarrow> i32 \<Rightarrow> 'i client \<Rightarrow> i32 \<times> 'i client" where
  "send_heartbeat P K fd s =
     (let hdr = replicate (SBN_PACKED_HDR_SZ P) 0;
          k0 = Pack_Init K hdr (SBN_PACKED_HDR_SZ P);
          k1 = Pack_UInt16 K k0 0;
          k2 = Pack_UInt8 K k1 SBN_HEARTBEAT_MSG;
          k3 = Pack_UInt32 K k2 2;
          (r, c) = sock_write (take (SBN_PACKED_HDR_SZ P) (Pack_Buf K k3)) (Sock s fd)
      in (ucast r, set_chan fd c s))"

section \<open>Connecting\<close>

text \<open>What the system calls return: \<open>socket\<close> and \<open>connect\<close> with the \<open>errno\<close> they set when they
  fail, \<open>inet_pton\<close> with the address it stores when it succeeds.\<close>

record connect_env =
  socket_ret :: i32
  socket_errno :: i32
  inet_pton_ret :: i32
  inet_pton_addr :: "byte list"
  connect_ret :: i32
  connect_errno :: i32

definition AF_INET :: u16 where [simp]: "AF_INET = 2"

text \<open>\<open>htons\<close> on a little-endian host.\<close>

definition htons :: "u16 \<Rightarrow> u16" where
  "htons w = un16 (be16 w ! 1) (be16 w ! 0)"

text \<open>\<open>memset (&server_address, '0', sizeof (server_address))\<close>: the character, not the number.\<close>

definition zero_char_address :: sockaddr_in where
  "zero_char_address = \<lparr>sin_family = 0x3030, sin_port = 0x3030, sin_addr = replicate 4 0x30,
     sin_zero = replicate 8 0x30\<rparr>"

definition connect_to_server ::
    "platform \<Rightarrow> connect_env \<Rightarrow> string \<Rightarrow> u16 \<Rightarrow> 'i client \<Rightarrow> i32 \<times> 'i client" where
  "connect_to_server P e server_ip server_port s0 =
     (let s = s0\<lparr>Slept := Slept s0 + 5\<rparr>;
          fd = socket_ret e in
      if sint fd < 0 then
        let s1 = s\<lparr>Errno := socket_errno e\<rparr> in
        (SERVER_SOCKET_ERROR,
         log_message
           (if socket_errno e \<in> {EACCES, EAFNOSUPPORT, EINVAL, EMFILE, ENOBUFS, ENOMEM, EPROTONOSUPPORT}
            then ''Socket err = %s'' else ''Unknown socket error = %s'')
           [Str_arg (strerror P (Errno s1))] s1)
      else
        let s1 = s\<lparr>OpenFds := OpenFds s @ [fd],
                   server_address := zero_char_address
                     \<lparr>sin_family := AF_INET, sin_port := htons server_port\<rparr>\<rparr>;
            s2 = (if inet_pton_ret e = 1
                  then s1\<lparr>server_address := (server_address s1)\<lparr>sin_addr := inet_pton_addr e\<rparr>\<rparr>
                  else s1) in
        if inet_pton_ret e = 0 then
          (SERVER_INET_PTON_SRC_ERROR, perror ''connect_to_server inet_pton 0 error'' s2)
        else if inet_pton_ret e = -1 then
          (SERVER_INET_PTON_INVALID_AF_ERROR, perror ''connect_to_server inet_pton -1 error'' s2)
        else if sint (connect_ret e) < 0 then
          let s3 = s2\<lparr>Errno := connect_errno e\<rparr> in
          (SERVER_CONNECT_ERROR,
           log_message (''SERVER_CONNECT_ERROR: Connect failed error: %d'' @ [CHR 0x0A])
             [Int_arg (connect_ret e)]
             (log_message
               (if connect_errno e \<in> {EACCES, EPERM, EADDRINUSE, EADDRNOTAVAIL, EAFNOSUPPORT,
                  EAGAIN, EALREADY, EBADF, ECONNREFUSED, EFAULT, EINPROGRESS, EINTR, EISCONN,
                  ENETUNREACH, ENOTSOCK, EPROTOTYPE, ETIMEDOUT}
                then ''connect err = %s'' else ''Unknown connect error = %s'')
               [Str_arg (strerror P (Errno s3))] s3))
        else (fd, s2))"

section \<open>What the exact read does\<close>

text \<open>How the data of a stream ends: never (a read blocks), by an error or by a close.\<close>

datatype stream_end = Ends_blocked | Ends_error | Ends_closed

fun ending :: "rd_event list \<Rightarrow> stream_end" where
  "ending [] = Ends_blocked"
| "ending (Rd_Error e # es) = Ends_error"
| "ending (Rd_Close # es) = Ends_closed"
| "ending (Rd_Data bs # es) = ending es"

lemma sock_read_ending:
  "sock_read n es = Inr (R_Bytes bs, es') \<Longrightarrow> ending es' = ending es"
  by (induction n es rule: sock_read.induct) (auto split: if_splits)

lemma sock_read_no_data:
  assumes "incoming es = []"
  shows "ending es = Ends_blocked \<Longrightarrow> sock_read n es = Inl Blocked"
    "ending es = Ends_error \<Longrightarrow> \<exists>e es'. sock_read n es = Inr (R_Error e, es')"
    "ending es = Ends_closed \<Longrightarrow> \<exists>es'. sock_read n es = Inr (R_Eof, es')"
  using assms by (induction n es rule: sock_read.induct) auto

text \<open>A read changes the input side of its socket, \<open>errno\<close> and the log, nothing else.\<close>

definition only_read :: "i32 \<Rightarrow> 'i client \<Rightarrow> 'i client \<Rightarrow> bool" where
  "only_read fd s t \<longleftrightarrow>
     PipeTbl t = PipeTbl s \<and> sbn_client_sockfd t = sbn_client_sockfd s \<and>
     sbn_client_cpuId t = sbn_client_cpuId s \<and> continue_heartbeat t = continue_heartbeat s \<and>
     continue_receive_check t = continue_receive_check s \<and> server_address t = server_address s \<and>
     OpenFds t = OpenFds s \<and> HeapBlocks t = HeapBlocks s \<and> Threads t = Threads s \<and>
     Slept t = Slept s \<and> Sync t = Sync s \<and>
     (\<forall>d. d \<noteq> fd \<longrightarrow> Sock t d = Sock s d) \<and>
     sent (Sock t fd) = sent (Sock s fd) \<and> wr (Sock t fd) = wr (Sock s fd)"

lemma only_read_refl [simp]: "only_read fd s s"
  by (simp add: only_read_def)

lemma only_read_trans: "only_read fd s t \<Longrightarrow> only_read fd t u \<Longrightarrow> only_read fd s u"
  by (simp add: only_read_def)

lemma only_read_set_rd [simp]: "only_read fd s (set_rd fd es s)"
  by (simp add: only_read_def)

lemma only_read_log [simp]:
  "only_read fd s (log_message f a t) \<longleftrightarrow> only_read fd s t"
  "only_read fd s (printf f a t) \<longleftrightarrow> only_read fd s t"
  by (simp_all add: only_read_def)

lemma only_read_Errno [simp]: "only_read fd s (t\<lparr>Errno := e\<rparr>) \<longleftrightarrow> only_read fd s t"
  by (simp add: only_read_def)

lemma only_read_fields [sbn_frame]:
  assumes "only_read fd s t"
  shows "PipeTbl t = PipeTbl s" "sbn_client_sockfd t = sbn_client_sockfd s"
    "sbn_client_cpuId t = sbn_client_cpuId s" "continue_heartbeat t = continue_heartbeat s"
    "continue_receive_check t = continue_receive_check s" "HeapBlocks t = HeapBlocks s"
    "Sync t = Sync s" "Threads t = Threads s" "OpenFds t = OpenFds s" "Slept t = Slept s"
    "sent (Sock t fd) = sent (Sock s fd)"
  using assms by (simp_all add: only_read_def)

text \<open>Enough data: the read succeeds with the next bytes, however they are cut into chunks.\<close>

lemma ReadBytes_loop_enough:
  assumes "n \<le> length buf" and "got \<le> n" and "n - got \<le> length (incoming (rd (Sock s fd)))"
  shows "\<exists>t. ReadBytes_loop P fd n buf got s =
      Inr (CFE_SUCCESS P, overwrite buf got (take (n - got) (incoming (rd (Sock s fd)))), t) \<and>
    only_read fd s t \<and> Out t = Out s \<and>
    incoming (rd (Sock t fd)) = drop (n - got) (incoming (rd (Sock s fd))) \<and>
    ending (rd (Sock t fd)) = ending (rd (Sock s fd))"
  using assms
proof (induction "n - got" arbitrary: buf got s rule: less_induct)
  case less
  let ?es = "rd (Sock s fd)"
  show ?case
  proof (cases "got = n")
    case True
    then show ?thesis by (simp add: ReadBytes_loop.simps)
  next
    case False
    then have pos: "0 < n - got" using less.prems(2) by simp
    then have "incoming ?es \<noteq> []" using less.prems(3) by auto
    then obtain bs es' where read: "sock_read (n - got) ?es = Inr (R_Bytes bs, es')"
      using sock_read_progress pos by blast
    have len: "0 < length bs" "length bs \<le> n - got"
      using sock_read_bytes [OF read] by simp_all
    have inc: "incoming ?es = bs @ incoming es'" by (rule sock_read_incoming [OF read])
    have fits: "got + length bs \<le> length buf" using len(2) less.prems(1,2) by simp
    have dec: "n - (got + length bs) < n - got" "got + length bs \<le> n" using len by linarith+
    let ?buf = "overwrite buf got bs" and ?s = "set_rd fd es' s"
    have "\<exists>t. ReadBytes_loop P fd n ?buf (got + length bs) ?s =
        Inr (CFE_SUCCESS P, overwrite ?buf (got + length bs)
          (take (n - (got + length bs)) (incoming (rd (Sock ?s fd)))), t) \<and>
      only_read fd ?s t \<and> Out t = Out ?s \<and>
      incoming (rd (Sock t fd)) = drop (n - (got + length bs)) (incoming (rd (Sock ?s fd))) \<and>
      ending (rd (Sock t fd)) = ending (rd (Sock ?s fd))"
      by (rule less.hyps [OF dec(1)]) (use dec(2) inc fits less.prems in auto)
    then obtain t where t: "ReadBytes_loop P fd n ?buf (got + length bs) ?s =
        Inr (CFE_SUCCESS P, overwrite buf got (bs @ take (n - got - length bs) (incoming es')), t)"
      "only_read fd ?s t" "Out t = Out s"
      "incoming (rd (Sock t fd)) = drop (n - got - length bs) (incoming es')"
      "ending (rd (Sock t fd)) = ending es'"
      using overwrite_overwrite [OF fits] by auto
    have "only_read fd s t" using only_read_trans [OF only_read_set_rd t(2)] .
    moreover have "ReadBytes_loop P fd n buf got s =
        Inr (CFE_SUCCESS P, overwrite buf got (take (n - got) (incoming ?es)), t)"
      using False read fits t(1) len by (simp add: ReadBytes_loop.simps [of P fd n buf got s] inc)
    ultimately show ?thesis
      using t(3-5) len inc sock_read_ending [OF read] by auto
  qed
qed

text \<open>Not enough data: the call ends as the stream does, without touching memory outside the
  buffer.\<close>

definition short_read_status :: "stream_end \<Rightarrow> i32" where
  "short_read_status k = (if k = Ends_error then CFE_SBN_CLIENT_PIPE_BROKEN_ERR
                          else CFE_SBN_CLIENT_PIPE_CLOSED_ERR)"

lemma ReadBytes_loop_short:
  assumes "n \<le> length buf" and "got \<le> n" and "length (incoming (rd (Sock s fd))) < n - got"
  shows "if ending (rd (Sock s fd)) = Ends_blocked then ReadBytes_loop P fd n buf got s = Inl Blocked
    else \<exists>buf' t. ReadBytes_loop P fd n buf got s =
        Inr (short_read_status (ending (rd (Sock s fd))), buf', t) \<and>
      length buf' = length buf \<and> only_read fd s t"
  using assms
proof (induction "n - got" arbitrary: buf got s rule: less_induct)
  case less
  let ?es = "rd (Sock s fd)"
  have ne: "got \<noteq> n" using less.prems(3) by auto
  then have pos: "0 < n - got" using less.prems(2) by simp
  show ?case
  proof (cases "incoming ?es = []")
    case True
    note nd = sock_read_no_data [OF True, of "n - got"]
    show ?thesis
    proof (cases "ending ?es")
      case Ends_blocked
      then show ?thesis using nd(1) ne by (simp add: ReadBytes_loop.simps [of P fd n buf got s])
    next
      case Ends_error
      then obtain e es' where "sock_read (n - got) ?es = Inr (R_Error e, es')" using nd(2) by blast
      then show ?thesis using ne Ends_error
        by (simp add: ReadBytes_loop.simps [of P fd n buf got s] short_read_status_def)
    next
      case Ends_closed
      then obtain es' where "sock_read (n - got) ?es = Inr (R_Eof, es')" using nd(3) by blast
      then show ?thesis using ne Ends_closed
        by (simp add: ReadBytes_loop.simps [of P fd n buf got s] short_read_status_def)
    qed
  next
    case False
    then obtain bs es' where read: "sock_read (n - got) ?es = Inr (R_Bytes bs, es')"
      using sock_read_progress pos by blast
    have len: "0 < length bs" "length bs \<le> n - got"
      using sock_read_bytes [OF read] by simp_all
    have inc: "incoming ?es = bs @ incoming es'" by (rule sock_read_incoming [OF read])
    have fits: "got + length bs \<le> length buf" using len(2) less.prems(1,2) by simp
    have dec: "n - (got + length bs) < n - got" "got + length bs \<le> n" using len by linarith+
    let ?buf = "overwrite buf got bs" and ?s = "set_rd fd es' s"
    have IH: "if ending es' = Ends_blocked
      then ReadBytes_loop P fd n ?buf (got + length bs) ?s = Inl Blocked
      else \<exists>buf' t. ReadBytes_loop P fd n ?buf (got + length bs) ?s =
          Inr (short_read_status (ending es'), buf', t) \<and>
        length buf' = length ?buf \<and> only_read fd ?s t"
      using less.hyps [OF dec(1), of ?buf ?s] dec(2) inc fits less.prems by auto
    have step: "ReadBytes_loop P fd n buf got s = ReadBytes_loop P fd n ?buf (got + length bs) ?s"
      using ne read fits by (simp add: ReadBytes_loop.simps [of P fd n buf got s])
    show ?thesis
      using IH fits only_read_trans [OF only_read_set_rd] unfolding step sock_read_ending [OF read, symmetric]
      by (auto split: if_splits)
  qed
qed

lemma ReadBytes_enough:
  assumes "n \<le> CFE_SB_MAX_SB_MSG_SIZE P" and "n \<le> length buf"
    and "n \<le> length (incoming (rd (Sock s fd)))"
  shows "\<exists>t. CFE_SBN_Client_ReadBytes P fd buf n s =
      Inr (CFE_SUCCESS P, overwrite buf 0 (take n (incoming (rd (Sock s fd)))), t) \<and>
    incoming (rd (Sock t fd)) = drop n (incoming (rd (Sock s fd))) \<and>
    ending (rd (Sock t fd)) = ending (rd (Sock s fd)) \<and> only_read fd s t \<and> Out t = Out s"
  using ReadBytes_loop_enough [of n buf 0 s fd P] assms
  by (auto simp: CFE_SBN_Client_ReadBytes_def)

lemma ReadBytes_short:
  assumes "n \<le> CFE_SB_MAX_SB_MSG_SIZE P" and "n \<le> length buf"
    and "length (incoming (rd (Sock s fd))) < n"
  shows "if ending (rd (Sock s fd)) = Ends_blocked
    then CFE_SBN_Client_ReadBytes P fd buf n s = Inl Blocked
    else \<exists>buf' t. CFE_SBN_Client_ReadBytes P fd buf n s =
        Inr (short_read_status (ending (rd (Sock s fd))), buf', t) \<and>
      length buf' = length buf \<and> only_read fd s t"
  using ReadBytes_loop_short [of n buf 0 s fd P] assms
  by (simp add: CFE_SBN_Client_ReadBytes_def)

lemma ReadBytes_too_big:
  assumes "CFE_SB_MAX_SB_MSG_SIZE P < n"
  shows "\<exists>t. CFE_SBN_Client_ReadBytes P fd buf n s = Inr (CFE_SB_BAD_ARGUMENT P, buf, t) \<and>
    only_read fd s t \<and> Sock t = Sock s"
  using assms by (simp add: CFE_SBN_Client_ReadBytes_def)

text \<open>What holds of every outcome that returns.\<close>

lemma ReadBytes_returns:
  assumes "n \<le> length buf" and run: "CFE_SBN_Client_ReadBytes P fd buf n s = Inr (st, buf', t)"
  shows "only_read fd s t" "length buf' = length buf"
proof -
  consider (big) "CFE_SB_MAX_SB_MSG_SIZE P < n"
    | (enough) "n \<le> CFE_SB_MAX_SB_MSG_SIZE P" "n \<le> length (incoming (rd (Sock s fd)))"
    | (short) "n \<le> CFE_SB_MAX_SB_MSG_SIZE P" "length (incoming (rd (Sock s fd))) < n"
    by linarith
  then have "only_read fd s t \<and> length buf' = length buf"
  proof cases
    case big
    then show ?thesis using ReadBytes_too_big [OF big, of fd buf s] run by auto
  next
    case enough
    then show ?thesis using ReadBytes_enough [OF enough(1) assms(1) enough(2)] run assms(1)
      by (auto simp: min_def)
  next
    case short
    then show ?thesis using ReadBytes_short [OF short(1) assms(1) short(2)] run
      by (auto split: if_splits)
  qed
  then show "only_read fd s t" "length buf' = length buf" by simp_all
qed

section \<open>The contract of the exact read\<close>

text \<open>
  What the frame parser relies on: as long as the bytes are there, a read of \<open>n\<close> bytes returns
  the next \<open>n\<close> bytes of the stream and leaves the rest. \<open>read_two\<close> is the shape in which a frame
  is read: a header, then the payload whose size the header gives.
\<close>

locale byte_source =
  fixes read :: "byte list \<Rightarrow> nat \<Rightarrow> 's \<Rightarrow> (i32 \<times> byte list \<times> 's) run"
    and avail :: "'s \<Rightarrow> byte list"
    and lim :: nat
    and okc :: i32
    and same :: "'s \<Rightarrow> 's \<Rightarrow> bool"
  assumes read_ok: "n \<le> lim \<Longrightarrow> n \<le> length buf \<Longrightarrow> n \<le> length (avail s) \<Longrightarrow>
      \<exists>t. read buf n s = Inr (okc, overwrite buf 0 (take n (avail s)), t) \<and>
        avail t = drop n (avail s) \<and> same s t"
    and same_trans: "same s t \<Longrightarrow> same t u \<Longrightarrow> same s u"
begin

lemma read_exact:
  assumes "length h \<le> lim" and "length buf = length h" and "avail s = h @ rest"
  shows "\<exists>t. read buf (length h) s = Inr (okc, h, t) \<and> avail t = rest \<and> same s t"
  using read_ok [of "length h" buf s] assms by (auto simp: overwrite_full)

lemma read_two:
  assumes "length h \<le> lim" and "length hbuf = length h"
    and "length b \<le> lim" and "length b \<le> length bbuf" and "avail s = h @ b @ rest"
  shows "\<exists>t u. read hbuf (length h) s = Inr (okc, h, t) \<and>
    read bbuf (length b) t = Inr (okc, overwrite bbuf 0 b, u) \<and> avail u = rest \<and> same s t \<and> same s u"
proof -
  obtain t where t: "read hbuf (length h) s = Inr (okc, h, t)" "avail t = b @ rest" "same s t"
    using read_exact assms(1,2,5) by blast
  have "length b \<le> length (avail t)" using t(2) by simp
  then obtain u where "read bbuf (length b) t = Inr (okc, overwrite bbuf 0 b, u)"
    "avail u = rest" "same t u"
    using read_ok [OF assms(3,4), of t] t(2) by auto
  then show ?thesis using t same_trans by blast
qed

end

interpretation rb: byte_source "\<lambda>buf n s. CFE_SBN_Client_ReadBytes P fd buf n s"
  "\<lambda>s. incoming (rd (Sock s fd))" "CFE_SB_MAX_SB_MSG_SIZE P" "CFE_SUCCESS P"
  "\<lambda>s t. only_read fd s t \<and> Out t = Out s \<and> ending (rd (Sock t fd)) = ending (rd (Sock s fd))"
  for P fd
proof unfold_locales
  fix n :: nat and buf :: "byte list" and s :: "'i client"
  assume "n \<le> CFE_SB_MAX_SB_MSG_SIZE P" "n \<le> length buf" "n \<le> length (incoming (rd (Sock s fd)))"
  then show "\<exists>t. CFE_SBN_Client_ReadBytes P fd buf n s =
      Inr (CFE_SUCCESS P, overwrite buf 0 (take n (incoming (rd (Sock s fd)))), t) \<and>
    incoming (rd (Sock t fd)) = drop n (incoming (rd (Sock s fd))) \<and>
    (only_read fd s t \<and> Out t = Out s \<and> ending (rd (Sock t fd)) = ending (rd (Sock s fd)))"
    using ReadBytes_enough by blast
qed (auto intro: only_read_trans)

section \<open>Properties\<close>

text \<open>
  C31. The exact read does not depend on how the stream is cut: from two sockets on which the same bytes
  arrive, in whatever chunks, a read of \<open>n\<close> bytes that are there succeeds with the same buffer, namely the
  next \<open>n\<close> bytes at its start and the rest of it untouched, and consumes exactly these bytes.
\<close>

theorem ReadBytes_fragmentation:
  assumes n: "n \<le> CFE_SB_MAX_SB_MSG_SIZE P" "n \<le> length buf"
    and data: "incoming (rd (Sock s fd)) = bs @ rest" "incoming (rd (Sock s' fd')) = bs @ rest" "length bs = n"
  shows "\<exists>t t'. CFE_SBN_Client_ReadBytes P fd buf n s = Inr (CFE_SUCCESS P, bs @ drop n buf, t) \<and>
    CFE_SBN_Client_ReadBytes P fd' buf n s' = Inr (CFE_SUCCESS P, bs @ drop n buf, t') \<and>
    incoming (rd (Sock t fd)) = rest \<and> incoming (rd (Sock t' fd')) = rest"
  using ReadBytes_enough [OF n, of s fd] ReadBytes_enough [OF n, of s' fd'] data
  by (auto simp: overwrite_def)

theorem ReadBytes_fragmentation_witness:
  "\<exists>t t' :: 16 word client.
    CFE_SBN_Client_ReadBytes cfs_small 0 [9, 9, 9, 9] 3
      (set_rd 0 [Rd_Data [1], Rd_Data [], Rd_Data [2, 3, 4]] (client_start cfs_small :: 16 word client)) = Inr (0, [1, 2, 3, 9], t) \<and>
    CFE_SBN_Client_ReadBytes cfs_small 0 [9, 9, 9, 9] 3
      (set_rd 0 [Rd_Data [1, 2, 3, 4]] (client_start cfs_small :: 16 word client)) = Inr (0, [1, 2, 3, 9], t')"
  using ReadBytes_fragmentation [of 3 cfs_small "[9, 9, 9, 9]"
      "set_rd 0 [Rd_Data [1], Rd_Data [], Rd_Data [2, 3, 4]] (client_start cfs_small :: 16 word client)" 0 "[1, 2, 3]" "[4]"
      "set_rd 0 [Rd_Data [1, 2, 3, 4]] (client_start cfs_small :: 16 word client)" 0]
  by auto

text \<open>
  The exact read, the other branches: more than the largest message is refused without reading; a
  stream that ends early gives \<open>CFE_SBN_CLIENT_PIPE_BROKEN_ERR\<close> or \<open>CFE_SBN_CLIENT_PIPE_CLOSED_ERR\<close> by how it
  ends, and one that stays open keeps the call waiting (it has no timeout). In no case is memory outside
  the buffer touched, and everything but the input side of the socket, \<open>errno\<close> and the log is unchanged.
\<close>

theorem ReadBytes_other_branches:
  assumes "n \<le> length buf"
  shows "(CFE_SB_MAX_SB_MSG_SIZE P < n \<longrightarrow>
      (\<exists>t. CFE_SBN_Client_ReadBytes P fd buf n s = Inr (CFE_SB_BAD_ARGUMENT P, buf, t) \<and>
        only_read fd s t \<and> Sock t = Sock s)) \<and>
    (n \<le> CFE_SB_MAX_SB_MSG_SIZE P \<and> length (incoming (rd (Sock s fd))) < n \<longrightarrow>
      (if ending (rd (Sock s fd)) = Ends_blocked then CFE_SBN_Client_ReadBytes P fd buf n s = Inl Blocked
       else \<exists>buf' t. CFE_SBN_Client_ReadBytes P fd buf n s =
           Inr (if ending (rd (Sock s fd)) = Ends_error then CFE_SBN_CLIENT_PIPE_BROKEN_ERR
                else CFE_SBN_CLIENT_PIPE_CLOSED_ERR, buf', t) \<and>
         length buf' = length buf \<and> only_read fd s t))"
  using ReadBytes_too_big [of P n fd buf s] ReadBytes_short [OF _ assms, of P s fd]
  by (auto simp: short_read_status_def split: if_splits)

theorem ReadBytes_other_branches_witness:
  "\<exists>buf' t. CFE_SBN_Client_ReadBytes cfs_small 0 [9, 9, 9] 3
      (set_rd 0 [Rd_Data [1], Rd_Error 104] (client_start cfs_small :: 16 word client)) = Inr (1010, buf', t) \<and>
    length buf' = 3"
  using ReadBytes_other_branches [of 3 "[9, 9, 9]" cfs_small 0
      "set_rd 0 [Rd_Data [1], Rd_Error 104] (client_start cfs_small :: 16 word client)"]
  by auto

end
