(* ===== verification/SBN_Frame.thy ===== *)
theory SBN_Frame
  imports SBN_Socket
begin

text \<open>
  The frames the client puts on the wire. \<open>sbn_header\<close> is the abstract format of an SBN header;
  the lemmas say what the packing and unpacking calls of the C code make of a buffer under the
  documented behaviour of \<open>sbn_pack.h\<close>. \<open>SendSubToSbn\<close> of \<open>sbn_client.c\<close> is modelled here.
\<close>

definition sbn_header :: "u16 \<Rightarrow> u8 \<Rightarrow> u32 \<Rightarrow> byte list" where
  "sbn_header sz ty cpu = be16 sz @ [ty] @ be32 cpu"

lemma length_sbn_header [simp]: "length (sbn_header sz ty cpu) = 7"
  by (simp add: sbn_header_def)

section \<open>Packing\<close>

lemma packer_okD:
  assumes "packer_ok K enc"
  shows "Pack_Buf K (Pack_Init K b (length b)) = b" "BufUsed K (Pack_Init K b (length b)) = 0"
    "appends K (\<lambda>k. Pack_UInt8 K k w8) [w8]" "appends K (\<lambda>k. Pack_UInt16 K k w16) (be16 w16)"
    "appends K (\<lambda>k. Pack_UInt32 K k w32) (be32 w32)" "appends K (\<lambda>k. Pack_Data K k bs) bs"
    "appends K (\<lambda>k. Pack_MsgID K k m) (enc m)"
  using assms by (simp_all add: packer_ok_def)

text \<open>\<open>packed K k bs b\<close>: the calls so far have written \<open>bs\<close> at the start of the buffer \<open>b\<close>.\<close>

definition packed :: "('i, 'k, 'u) packer \<Rightarrow> 'k \<Rightarrow> byte list \<Rightarrow> byte list \<Rightarrow> bool" where
  "packed K k bs b \<longleftrightarrow> length bs \<le> length b \<and> BufUsed K k = length bs \<and> Pack_Buf K k = overwrite b 0 bs"

lemma packed_init: "packer_ok K enc \<Longrightarrow> n = length b \<Longrightarrow> packed K (Pack_Init K b n) [] b"
  by (simp add: packed_def packer_okD)

lemma packed_step:
  assumes "appends K op bs" and "packed K k as b" and "length as + length bs \<le> length b"
  shows "packed K (op k) (as @ bs) b"
  using assms overwrite_overwrite [of 0 as b bs] by (simp add: packed_def appends_def)

lemma packed_header:
  assumes K: "packer_ok K enc" and "n = length b" and "7 \<le> length b"
  shows "packed K (Pack_UInt32 K (Pack_UInt8 K (Pack_UInt16 K (Pack_Init K b n) sz) ty) cpu)
    (sbn_header sz ty cpu) b"
proof -
  have "packed K (Pack_UInt16 K (Pack_Init K b n) sz) ([] @ be16 sz) b"
    by (rule packed_step [OF packer_okD(4) [OF K] packed_init [OF K assms(2)]]) (use assms(3) in simp)
  then have "packed K (Pack_UInt8 K (Pack_UInt16 K (Pack_Init K b n) sz) ty) (be16 sz @ [ty]) b"
    using packed_step [OF packer_okD(3) [OF K, of ty]] assms(3) by simp
  then show ?thesis
    using packed_step [OF packer_okD(5) [OF K, of cpu]] assms(3) by (fastforce simp: sbn_header_def)
qed

section \<open>Unpacking\<close>

text \<open>The three unpacking calls of \<open>recv_msg\<close>.\<close>

definition unpack_header :: "('i, 'k, 'u) packer \<Rightarrow> byte list \<Rightarrow> nat \<Rightarrow> u16 \<times> u8 \<times> u32" where
  "unpack_header K hdr n =
     (let u0 = Unpack_Init K hdr n;
          (sz, u1) = Unpack_UInt16 K u0;
          (ty, u2) = Unpack_UInt8 K u1;
          (cpu, u3) = Unpack_UInt32 K u2
      in (sz, ty, cpu))"

lemma length_7_conv: "length h = 7 \<Longrightarrow> \<exists>b0 b1 b2 b3 b4 b5 b6. h = [b0, b1, b2, b3, b4, b5, b6]"
  by (auto simp: numeral_eq_Suc length_Suc_conv)

lemma unpack_header_bytes:
  assumes "packer_ok K enc" and "length h = 7"
  shows "unpack_header K h 7 =
    (un16 (h ! 0) (h ! 1), h ! 2, un32 (h ! 3) (h ! 4) (h ! 5) (h ! 6))"
proof -
  obtain b0 b1 b2 b3 b4 b5 b6 where h: "h = [b0, b1, b2, b3, b4, b5, b6]"
    using length_7_conv [OF assms(2)] by blast
  obtain u1 u2 u3 where "Unpack_UInt16 K (Unpack_Init K h 7) = (un16 b0 b1, u1)"
    "Unpack_UInt8 K u1 = (b2, u2)" "Unpack_UInt32 K u2 = (un32 b3 b4 b5 b6, u3)"
    using assms(1) unfolding packer_ok_def h by blast
  then show ?thesis by (simp add: unpack_header_def h)
qed

lemma unpack_sbn_header:
  assumes "packer_ok K enc"
  shows "unpack_header K (sbn_header sz ty cpu) 7 = (sz, ty, cpu)"
proof -
  let ?h = "sbn_header sz ty cpu"
  have "?h ! 0 = be16 sz ! 0" "?h ! 1 = be16 sz ! 1" "?h ! 2 = ty" "?h ! 3 = be32 cpu ! 0"
    "?h ! 4 = be32 cpu ! 1" "?h ! 5 = be32 cpu ! 2" "?h ! 6 = be32 cpu ! 3"
    by (simp_all add: sbn_header_def be16_def be32_def)
  then show ?thesis
    using unpack_header_bytes [OF assms, of ?h] un16_be16 [of sz] un32_be32 [of cpu] by simp
qed

section \<open>The heartbeat and the subscription frame\<close>

lemma send_heartbeat_frame:
  assumes P: "platform_ok P" and K: "packer_ok K enc"
  shows "send_heartbeat P K fd s =
    (let (r, c) = sock_write (sbn_header 0 0xA0 2) (Sock s fd) in (ucast r, set_chan fd c s))"
proof -
  have "packed K (Pack_UInt32 K (Pack_UInt8 K (Pack_UInt16 K
      (Pack_Init K (replicate 7 0) 7) 0) 0xA0) 2) (sbn_header 0 0xA0 2) (replicate 7 0)"
    by (rule packed_header [OF K]) simp_all
  then show ?thesis
    using platform_okD(12) [OF P] by (simp add: send_heartbeat_def packed_def overwrite_full Let_def)
qed

record CFE_SB_Qos_t =
  Priority :: u8
  Reliability :: u8

definition SendSubToSbn ::
    "platform \<Rightarrow> ('m::len word, 'k, 'u) packer \<Rightarrow> u8 \<Rightarrow> 'm word \<Rightarrow> CFE_SB_Qos_t \<Rightarrow>
     'm word client \<Rightarrow> 'm word client" where
  "SendSubToSbn P K SubType MsgID QoS s =
     (let Buf = replicate (SBN_PACKED_SUB_SZ P) 0;
          k0 = Pack_Init K Buf (SBN_PACKED_SUB_SZ P);
          k1 = Pack_UInt16 K k0 54;
          k2 = Pack_UInt8 K k1 SubType;
          k3 = Pack_UInt32 K k2 2;
          k4 = Pack_Data K k3 (SBN_IDENT P);
          k5 = Pack_UInt16 K k4 1;
          k6 = Pack_MsgID K k5 MsgID;
          k7 = Pack_Data K k6 [Priority QoS, Reliability QoS];
          (write_result, s1) = write_message (sbn_client_sockfd s)
             (take (BufUsed K k7) (Pack_Buf K k7)) s
      in if write_result \<noteq> of_nat (BufUsed K k7)
         then log_message (''SBN_CLIENT: ERROR SendSubToSbn!!'' @ [CHR 0x0A]) [] s1
         else s1)"

text \<open>The subscription frame: a header that announces 54 bytes, then the payload.\<close>

definition sub_payload :: "platform \<Rightarrow> ('i \<Rightarrow> byte list) \<Rightarrow> 'i \<Rightarrow> u8 \<Rightarrow> u8 \<Rightarrow> byte list" where
  "sub_payload P enc m prio rel = SBN_IDENT P @ be16 1 @ enc m @ [prio, rel]"

lemma packed_sub:
  assumes K: "packer_ok K enc" and "n = length b"
    and fits: "7 + length (sub_payload P enc m prio rel) \<le> length b"
  shows "packed K (Pack_Data K (Pack_MsgID K (Pack_UInt16 K (Pack_Data K
      (Pack_UInt32 K (Pack_UInt8 K (Pack_UInt16 K (Pack_Init K b n) 54) ty) 2)
      (SBN_IDENT P)) 1) m) [prio, rel])
    (sbn_header 54 ty 2 @ sub_payload P enc m prio rel) b"
proof -
  have n: "7 + length (SBN_IDENT P) + 2 + length (enc m) + 2 \<le> length b"
    using fits by (simp add: sub_payload_def)
  let ?k3 = "Pack_UInt32 K (Pack_UInt8 K (Pack_UInt16 K (Pack_Init K b n) 54) ty) 2"
  have "packed K ?k3 (sbn_header 54 ty 2) b"
    by (rule packed_header [OF K assms(2)]) (use n in simp)
  then have "packed K (Pack_Data K ?k3 (SBN_IDENT P)) (sbn_header 54 ty 2 @ SBN_IDENT P) b"
    by (rule packed_step [OF packer_okD(6) [OF K]]) (use n in simp)
  then have "packed K (Pack_UInt16 K (Pack_Data K ?k3 (SBN_IDENT P)) 1)
      ((sbn_header 54 ty 2 @ SBN_IDENT P) @ be16 1) b"
    by (rule packed_step [OF packer_okD(4) [OF K]]) (use n in simp)
  then have "packed K (Pack_MsgID K (Pack_UInt16 K (Pack_Data K ?k3 (SBN_IDENT P)) 1) m)
      (((sbn_header 54 ty 2 @ SBN_IDENT P) @ be16 1) @ enc m) b"
    by (rule packed_step [OF packer_okD(7) [OF K]]) (use n in simp)
  then have "packed K (Pack_Data K (Pack_MsgID K (Pack_UInt16 K (Pack_Data K ?k3 (SBN_IDENT P)) 1) m)
      [prio, rel]) ((((sbn_header 54 ty 2 @ SBN_IDENT P) @ be16 1) @ enc m) @ [prio, rel]) b"
    by (rule packed_step [OF packer_okD(6) [OF K]]) (use n in simp)
  then show ?thesis by (simp add: sub_payload_def)
qed

section \<open>Properties\<close>

lemma packed_prefix: "packed K k bs b \<Longrightarrow> take (length bs) (Pack_Buf K k) = bs"
  by (simp add: packed_def)

text \<open>
  The SBN header is read back as it was written: for every size, type and processor id, the three
  unpacking calls of \<open>recv_msg\<close> on the seven bytes that the three packing calls leave at the start of
  a buffer return these values.
\<close>

theorem header_roundtrip:
  assumes "packer_ok K enc" and "n = length b" and "7 \<le> length b"
  shows "unpack_header K (take 7 (Pack_Buf K
    (Pack_UInt32 K (Pack_UInt8 K (Pack_UInt16 K (Pack_Init K b n) sz) ty) cpu))) 7 = (sz, ty, cpu)"
  using packed_prefix [OF packed_header [OF assms, of sz ty cpu]] unpack_sbn_header [OF assms(1), of sz ty cpu]
  by simp

theorem header_roundtrip_witness:
  "unpack_header list_packer (take 7 (Pack_Buf list_packer (Pack_UInt32 list_packer
      (Pack_UInt8 list_packer (Pack_UInt16 list_packer (Pack_Init list_packer (replicate 9 0) 9) 0x1234) 3)
      0xDEADBEEF))) 7 = (0x1234, 3, 0xDEADBEEF)"
  by (rule header_roundtrip [OF packer_ok_list_packer]) simp_all

text \<open>
  The heartbeat: on a socket that takes all bytes, \<open>send_heartbeat\<close> writes the seven bytes of a
  header with size 0, type 0xA0 and processor id 2, returns 7, and changes nothing else.
\<close>

theorem heartbeat_bytes:
  assumes P: "platform_ok P" and K: "packer_ok K enc" and "wr (Sock s fd) = []"
  shows "send_heartbeat P K fd s =
    (7, set_chan fd ((Sock s fd)\<lparr>sent := sent (Sock s fd) @ [0, 0, 0xA0, 0, 0, 0, 2]\<rparr>) s)"
  using send_heartbeat_frame [OF P K, of fd s] assms(3)
  by (simp add: sock_write_def sbn_header_def be16_def be32_def)

theorem heartbeat_bytes_witness:
  "fst (send_heartbeat cfs_small list_packer 4 (client_start cfs_small)) = 7"
  using heartbeat_bytes [OF platform_ok_cfs(2) packer_ok_list_packer, of "client_start cfs_small" 4]
  by (simp add: client_start_def)

end
