(* ===== verification/SBN_Subscribe.thy ===== *)
theory SBN_Subscribe
  imports SBN_Frame
begin

text \<open>
  Subscribing a pipe to a message id (\<open>sbn_client_wrappers.c\<close>), and the five wrappers that are
  not implemented yet. A successful call fills the first free slot of the pipe and sends one
  subscription frame.
\<close>

section \<open>The operations\<close>

definition set_subscription :: "nat \<Rightarrow> nat \<Rightarrow> 'i \<Rightarrow> 'i client \<Rightarrow> 'i client run" where
  "set_subscription i j m s =
     bindR (arr_get (PipeTbl s) i) (\<lambda>p.
     bindR (arr_set (SubscribedMsgIds p) j m) (\<lambda>ms.
     Inr (s\<lparr>PipeTbl := (PipeTbl s)[i := p\<lparr>SubscribedMsgIds := ms\<rparr>]\<rparr>)))"

definition wrap_CFE_SB_Subscribe ::
    "platform \<Rightarrow> ('m::len word, 'k, 'u) packer \<Rightarrow> 'm word \<Rightarrow> u8 \<Rightarrow> 'm word client \<Rightarrow>
     (i32 \<times> 'm word client) run" where
  "wrap_CFE_SB_Subscribe P K MsgId pid s =
     bindR (CFE_SBN_Client_GetPipeIdx s pid) (\<lambda>PipeIdx.
       if PipeIdx = CFE_SBN_CLIENT_INVALID_PIPE then Inr (CFE_SBN_CLIENT_BAD_ARGUMENT P, s)
       else bindR (CFE_SBN_Client_GetMessageSubscribeIndex s pid) (\<lambda>MsgIdIdx.
         if MsgIdIdx = CFE_SBN_CLIENT_MAX_MSG_IDS_MET
         then Inr (CFE_SBN_CLIENT_BAD_ARGUMENT P, s)
         else bindR (set_subscription (unat PipeIdx) (unat MsgIdIdx) MsgId s) (\<lambda>s1.
           Inr (CFE_SUCCESS P,
             SendSubToSbn P K (SBN_SUB_MSG P) MsgId \<lparr>Priority = 0, Reliability = 0\<rparr> s1))))"

definition wrap_CFE_SB_SubscribeEx ::
    "'m::len word \<Rightarrow> u8 \<Rightarrow> CFE_SB_Qos_t \<Rightarrow> u16 \<Rightarrow> 'm word client \<Rightarrow> i32 \<times> 'm word client" where
  "wrap_CFE_SB_SubscribeEx MsgId pid Quality MsgLim s =
     (-1, printf (''SBN_CLIENT: ERROR CFE_SB_SubscribeEx not yet implemented'' @ [CHR 0x0A]) [] s)"

definition wrap_CFE_SB_SubscribeLocal ::
    "'m::len word \<Rightarrow> u8 \<Rightarrow> u16 \<Rightarrow> 'm word client \<Rightarrow> i32 \<times> 'm word client" where
  "wrap_CFE_SB_SubscribeLocal MsgId pid MsgLim s =
     (-1, printf (''SBN_CLIENT: ERROR CFE_SB_SubscribeLocal not yet implemented'' @ [CHR 0x0A]) [] s)"

definition wrap_CFE_SB_Unsubscribe ::
    "'m::len word \<Rightarrow> u8 \<Rightarrow> 'm word client \<Rightarrow> i32 \<times> 'm word client" where
  "wrap_CFE_SB_Unsubscribe MsgId pid s =
     (-1, printf (''SBN_CLIENT: ERROR CFE_SB_Unsubscribe not yet implemented'' @ [CHR 0x0A]) [] s)"

definition wrap_CFE_SB_UnsubscribeLocal ::
    "'m::len word \<Rightarrow> u8 \<Rightarrow> 'm word client \<Rightarrow> i32 \<times> 'm word client" where
  "wrap_CFE_SB_UnsubscribeLocal MsgId pid s =
     (-1, printf (''SBN_CLIENT: ERROR CFE_SB_UnsubscribeLocal not yet implemented'' @ [CHR 0x0A]) [] s)"

definition wrap_CFE_SB_ZeroCopySend ::
    "byte list \<Rightarrow> u32 \<Rightarrow> 'm::len word client \<Rightarrow> i32 \<times> 'm word client" where
  "wrap_CFE_SB_ZeroCopySend msg BufferHandle s =
     (-1, printf (''SBN_CLIENT: ERROR CFE_SB_ZeroCopySend not yet implemented'' @ [CHR 0x0A]) [] s)"

section \<open>The slots of a pipe\<close>

text \<open>The message ids a pipe is subscribed to: the slots that are not free.\<close>

definition subscribed :: "'m::len word pipe \<Rightarrow> 'm word set" where
  "subscribed p = set (SubscribedMsgIds p) - {CFE_SBN_CLIENT_INVALID_MSG_ID}"

definition free_slots :: "'m::len word pipe \<Rightarrow> nat" where
  "free_slots p = length (filter (\<lambda>m. m = CFE_SBN_CLIENT_INVALID_MSG_ID) (SubscribedMsgIds p))"

lemma set_update_free:
  "j < length xs \<Longrightarrow> xs ! j = z \<Longrightarrow> set (xs[j := m]) - {z} = insert m (set xs - {z}) - {z}"
  by (auto simp: set_conv_nth nth_list_update)

lemma filter_update_free:
  "j < length xs \<Longrightarrow> xs ! j = z \<Longrightarrow> m \<noteq> z \<Longrightarrow>
   length (filter (\<lambda>x. x = z) (xs[j := m])) = length (filter (\<lambda>x. x = z) xs) - 1"
  by (induction xs arbitrary: j) (auto split: nat.split simp: filter_empty_conv)

lemma free_slots_zero: "free_slots p = 0 \<longleftrightarrow> 0 \<notin> set (SubscribedMsgIds p)"
  by (auto simp: free_slots_def filter_empty_conv)

lemma small_slot_u8: "j < 4 \<Longrightarrow> unat (of_nat j :: u8) = j \<and> (of_nat j :: u8) \<noteq> 0xFF"
  using small_index_u8 [of j] by simp

lemma SubscribeIndex_full:
  assumes "unat pid < length (PipeTbl s)" and "free_slots (PipeTbl s ! unat pid) = 0"
  shows "CFE_SBN_Client_GetMessageSubscribeIndex s pid = Inr 0xFF"
proof -
  have "scan (\<lambda>m. m = 0) (SubscribedMsgIds (PipeTbl s ! unat pid)) = None"
    using assms(2) by (auto simp: free_slots_zero scan_None)
  then show ?thesis using assms(1) by (simp add: CFE_SBN_Client_GetMessageSubscribeIndex_def)
qed

lemma SubscribeIndex_free:
  assumes "unat pid < length (PipeTbl s)" and "free_slots (PipeTbl s ! unat pid) \<noteq> 0"
  obtains j where "scan (\<lambda>m. m = 0) (SubscribedMsgIds (PipeTbl s ! unat pid)) = Some j"
    "CFE_SBN_Client_GetMessageSubscribeIndex s pid = Inr (of_nat j)"
proof -
  have "scan (\<lambda>m. m = 0) (SubscribedMsgIds (PipeTbl s ! unat pid)) \<noteq> None"
    using assms(2) by (auto simp: free_slots_zero scan_None)
  then obtain j where "scan (\<lambda>m. m = 0) (SubscribedMsgIds (PipeTbl s ! unat pid)) = Some j" by blast
  with that show thesis using assms(1) by (simp add: CFE_SBN_Client_GetMessageSubscribeIndex_def)
qed

section \<open>What a subscription does\<close>

lemma write_message_frame [simp]:
  "PipeTbl (snd (write_message fd bs s)) = PipeTbl s"
  "sbn_client_sockfd (snd (write_message fd bs s)) = sbn_client_sockfd s"
  "sbn_client_cpuId (snd (write_message fd bs s)) = sbn_client_cpuId s"
  "continue_heartbeat (snd (write_message fd bs s)) = continue_heartbeat s"
  "continue_receive_check (snd (write_message fd bs s)) = continue_receive_check s"
  "HeapBlocks (snd (write_message fd bs s)) = HeapBlocks s"
  "Threads (snd (write_message fd bs s)) = Threads s"
  "Sync (snd (write_message fd bs s)) = Sync s" "Out (snd (write_message fd bs s)) = Out s"
  by (simp_all add: write_message_def case_prod_beta)

definition subscribed_entry :: "nat \<Rightarrow> 'i \<Rightarrow> 'i pipe \<Rightarrow> 'i pipe" where
  "subscribed_entry j m p = p\<lparr>SubscribedMsgIds := (SubscribedMsgIds p)[j := m]\<rparr>"

lemma subscribed_entry_fields [simp]:
  "InUse (subscribed_entry j m p) = InUse p" "PipeId (subscribed_entry j m p) = PipeId p"
  "NumberOfMessages (subscribed_entry j m p) = NumberOfMessages p"
  "ReadMessage (subscribed_entry j m p) = ReadMessage p"
  "Messages (subscribed_entry j m p) = Messages p"
  "SubscribedMsgIds (subscribed_entry j m p) = (SubscribedMsgIds p)[j := m]"
  by (simp_all add: subscribed_entry_def)

lemma subscribed_entry_inv [sbn_wf]:
  "entry_inv P i p \<Longrightarrow> InUse p = 1 \<Longrightarrow> entry_inv P i (subscribed_entry j m p)"
  by (simp add: entry_inv_def pipe_inv_def pipe_wf_def ring_ok_def subscribed_entry_def)

definition with_entry :: "nat \<Rightarrow> 'i pipe \<Rightarrow> 'i client \<Rightarrow> 'i client" where
  "with_entry i p s = s\<lparr>PipeTbl := (PipeTbl s)[i := p]\<rparr>"

lemma with_entry_frame [simp]:
  "PipeTbl (with_entry i p s) = (PipeTbl s)[i := p]"
  "sbn_client_sockfd (with_entry i p s) = sbn_client_sockfd s"
  "sbn_client_cpuId (with_entry i p s) = sbn_client_cpuId s"
  "continue_heartbeat (with_entry i p s) = continue_heartbeat s"
  "continue_receive_check (with_entry i p s) = continue_receive_check s"
  "server_address (with_entry i p s) = server_address s"
  "Sock (with_entry i p s) = Sock s" "OpenFds (with_entry i p s) = OpenFds s"
  "HeapBlocks (with_entry i p s) = HeapBlocks s" "Threads (with_entry i p s) = Threads s"
  "Sync (with_entry i p s) = Sync s" "Slept (with_entry i p s) = Slept s"
  "Errno (with_entry i p s) = Errno s" "Out (with_entry i p s) = Out s"
  by (simp_all add: with_entry_def)

lemma SendSubToSbn_frame_data [simp]:
  "PipeTbl (SendSubToSbn P K ty m q s) = PipeTbl s"
  "sbn_client_sockfd (SendSubToSbn P K ty m q s) = sbn_client_sockfd s"
  "sbn_client_cpuId (SendSubToSbn P K ty m q s) = sbn_client_cpuId s"
  "HeapBlocks (SendSubToSbn P K ty m q s) = HeapBlocks s"
  "Sync (SendSubToSbn P K ty m q s) = Sync s"
  by (simp_all add: SendSubToSbn_def case_prod_beta Let_def)

lemma Subscribe_live_free:
  assumes inv: "tbl_inv P (PipeTbl s)" and live: "pipe_live s pid"
    and j: "scan (\<lambda>m. m = 0) (SubscribedMsgIds (PipeTbl s ! unat pid)) = Some j"
  shows "wrap_CFE_SB_Subscribe P K MsgId pid s =
    Inr (CFE_SUCCESS P, SendSubToSbn P K (SBN_SUB_MSG P) MsgId \<lparr>Priority = 0, Reliability = 0\<rparr>
      (with_entry (unat pid) (subscribed_entry j MsgId (PipeTbl s ! unat pid)) s))"
proof -
  let ?p = "PipeTbl s ! unat pid"
  have pid: "unat pid < 5" "unat pid < length (PipeTbl s)"
    using live tbl_invD(1) [OF inv] by (simp_all add: pipe_live_def)
  then have "length (SubscribedMsgIds ?p) = 4"
    using entry_inv_wf [OF tbl_invD(2) [OF inv pid(1)]] by (simp add: pipe_wf_def)
  then have j4: "j < 4" "j < length (SubscribedMsgIds ?p)" using scan_SomeD [OF j] by simp_all
  have idx: "CFE_SBN_Client_GetMessageSubscribeIndex s pid = Inr (of_nat j)"
    using j pid by (simp add: CFE_SBN_Client_GetMessageSubscribeIndex_def)
  have "pid \<noteq> 0xFF" using pid(1) by auto
  then show ?thesis
    using pl.hit [OF inv live] idx small_slot_u8 [OF j4(1)] j4(2) pid(2)
    by (simp add: wrap_CFE_SB_Subscribe_def set_subscription_def with_entry_def subscribed_entry_def)
qed

lemma Subscribe_live_full:
  assumes inv: "tbl_inv P (PipeTbl s)" and live: "pipe_live s pid"
    and "free_slots (PipeTbl s ! unat pid) = 0"
  shows "wrap_CFE_SB_Subscribe P K MsgId pid s = Inr (CFE_SB_BAD_ARGUMENT P, s)"
proof -
  have pid: "unat pid < length (PipeTbl s)" "unat pid < 5"
    using live tbl_invD(1) [OF inv] by (simp_all add: pipe_live_def)
  then have "pid \<noteq> 0xFF" by auto
  then show ?thesis
    using pl.hit [OF inv live] SubscribeIndex_full [OF pid(1) assms(3)]
    by (simp add: wrap_CFE_SB_Subscribe_def)
qed

lemma Subscribe_not_live:
  assumes inv: "tbl_inv P (PipeTbl s)" and "\<not> pipe_live s pid"
  shows "wrap_CFE_SB_Subscribe P K MsgId pid s =
    (if unat pid < 5 then Inr (CFE_SB_BAD_ARGUMENT P, s) else Inl OutOfBounds)"
  using pl.miss [OF inv, of pid] pl.wild [OF inv, of pid] assms(2)
  by (simp add: wrap_CFE_SB_Subscribe_def)

lemma Subscribe_inv [sbn_wf]:
  assumes inv: "tbl_inv P (PipeTbl s)" and run: "wrap_CFE_SB_Subscribe P K MsgId pid s = Inr (st, s')"
  shows "tbl_inv P (PipeTbl s')"
proof (cases "pipe_live s pid \<and> free_slots (PipeTbl s ! unat pid) \<noteq> 0")
  case True
  then have pid: "unat pid < 5" "InUse (PipeTbl s ! unat pid) = 1" by (simp_all add: pipe_live_def)
  then obtain j where j: "scan (\<lambda>m. m = 0) (SubscribedMsgIds (PipeTbl s ! unat pid)) = Some j"
    using SubscribeIndex_free [of pid s] tbl_invD(1) [OF inv] True by auto
  have "PipeTbl s' = (PipeTbl s)[unat pid := subscribed_entry j MsgId (PipeTbl s ! unat pid)]"
    using Subscribe_live_free [OF inv _ j, of K MsgId] True run by auto
  then show ?thesis
    using tbl_inv_update [OF inv subscribed_entry_inv [OF tbl_invD(2) [OF inv pid(1)] pid(2)]] by simp
next
  case False
  have "s' = s"
  proof (cases "pipe_live s pid")
    case True
    then show ?thesis using Subscribe_live_full [OF inv, of pid K MsgId] False run by simp
  next
    case nl: False
    then show ?thesis using Subscribe_not_live [OF inv nl, of K MsgId] run by (simp split: if_splits)
  qed
  then show ?thesis using inv by simp
qed

text \<open>The frame a subscription puts on the wire.\<close>

lemma SendSubToSbn_frame:
  assumes K: "packer_ok K enc"
    and fits: "7 + length (sub_payload P enc m (Priority q) (Reliability q)) \<le> SBN_PACKED_SUB_SZ P"
    and ok: "wr (Sock s (sbn_client_sockfd s)) = []"
  shows "sent (Sock (SendSubToSbn P K ty m q s) (sbn_client_sockfd s)) =
    sent (Sock s (sbn_client_sockfd s)) @ sbn_header 54 ty 2 @
      sub_payload P enc m (Priority q) (Reliability q)"
proof -
  let ?b = "replicate (SBN_PACKED_SUB_SZ P) (0 :: byte)"
  let ?f = "sbn_header 54 ty 2 @ sub_payload P enc m (Priority q) (Reliability q)"
  have "packed K (Pack_Data K (Pack_MsgID K (Pack_UInt16 K (Pack_Data K
      (Pack_UInt32 K (Pack_UInt8 K (Pack_UInt16 K (Pack_Init K ?b (SBN_PACKED_SUB_SZ P)) 54) ty) 2)
      (SBN_IDENT P)) 1) m) [Priority q, Reliability q]) ?f ?b"
    by (rule packed_sub [OF K]) (use fits in simp_all)
  moreover have "take (length ?f) (overwrite ?b 0 ?f) = ?f" by (rule take_overwrite_0)
  ultimately show ?thesis
    using ok by (simp add: SendSubToSbn_def packed_def write_message_def sock_write_def Let_def)
qed

section \<open>Properties\<close>

lemma Subscribe_sent:
  assumes K: "packer_ok K enc"
    and fits: "7 + length (sub_payload P enc m 0 0) \<le> SBN_PACKED_SUB_SZ P"
    and inv: "tbl_inv P (PipeTbl s)" and live: "pipe_live s pid"
    and free: "free_slots (PipeTbl s ! unat pid) \<noteq> 0"
    and ok: "wr (Sock s (sbn_client_sockfd s)) = []"
  shows "\<exists>s'. wrap_CFE_SB_Subscribe P K m pid s = Inr (CFE_SUCCESS P, s') \<and>
    sent (Sock s' (sbn_client_sockfd s)) = sent (Sock s (sbn_client_sockfd s)) @
      sbn_header 54 (SBN_SUB_MSG P) 2 @ sub_payload P enc m 0 0"
proof -
  have "unat pid < length (PipeTbl s)" using live tbl_invD(1) [OF inv] by (simp add: pipe_live_def)
  then obtain j where j: "scan (\<lambda>m. m = 0) (SubscribedMsgIds (PipeTbl s ! unat pid)) = Some j"
    using SubscribeIndex_free free by blast
  show ?thesis
    using Subscribe_live_free [OF inv live j, of K m] fits ok
      SendSubToSbn_frame [OF K, of P m "\<lparr>Priority = 0, Reliability = 0\<rparr>"
        "with_entry (unat pid) (subscribed_entry j m (PipeTbl s ! unat pid)) s" "SBN_SUB_MSG P"]
    by simp
qed

text \<open>
  C25. Subscribing, every branch. An id outside the table is an access outside it; an id that names no
  pipe, or a pipe whose four slots are taken, is a bad argument and changes nothing. Otherwise the
  call succeeds whatever happens to the frame it sends: the id is added to the pipe's
  subscriptions and takes one slot, the queue of the pipe and all other pipes are as before, and
  the table invariant is kept. Message id 0 is the mark of a free slot, so subscribing to it
  reports success and leaves the table as it was.
\<close>

theorem Subscribe_branches:
  assumes inv: "tbl_inv P (PipeTbl s)"
  shows "(\<not> unat pid < 5 \<longrightarrow> wrap_CFE_SB_Subscribe P K m pid s = Inl OutOfBounds) \<and>
    (unat pid < 5 \<and> (\<not> pipe_live s pid \<or> free_slots (PipeTbl s ! unat pid) = 0) \<longrightarrow>
       wrap_CFE_SB_Subscribe P K m pid s = Inr (CFE_SB_BAD_ARGUMENT P, s)) \<and>
    (pipe_live s pid \<and> free_slots (PipeTbl s ! unat pid) \<noteq> 0 \<longrightarrow>
       (\<exists>s'. wrap_CFE_SB_Subscribe P K m pid s = Inr (CFE_SUCCESS P, s') \<and> tbl_inv P (PipeTbl s') \<and>
          (\<forall>j. j \<noteq> unat pid \<longrightarrow> PipeTbl s' ! j = PipeTbl s ! j) \<and>
          pipe_unread (PipeTbl s' ! unat pid) = pipe_unread (PipeTbl s ! unat pid) \<and>
          subscribed (PipeTbl s' ! unat pid) = insert m (subscribed (PipeTbl s ! unat pid)) - {0} \<and>
          (if m = 0 then PipeTbl s' = PipeTbl s
           else free_slots (PipeTbl s' ! unat pid) = free_slots (PipeTbl s ! unat pid) - 1)))"
proof (intro conjI impI)
  show "wrap_CFE_SB_Subscribe P K m pid s = Inl OutOfBounds" if "\<not> unat pid < 5"
    using Subscribe_not_live [OF inv, of pid K m] that by (auto simp: pipe_live_def)
  show "wrap_CFE_SB_Subscribe P K m pid s = Inr (CFE_SB_BAD_ARGUMENT P, s)"
    if "unat pid < 5 \<and> (\<not> pipe_live s pid \<or> free_slots (PipeTbl s ! unat pid) = 0)"
    using Subscribe_not_live [OF inv, of pid K m] Subscribe_live_full [OF inv, of pid K m] that
    by (cases "pipe_live s pid") simp_all
next
  assume a: "pipe_live s pid \<and> free_slots (PipeTbl s ! unat pid) \<noteq> 0"
  let ?p = "PipeTbl s ! unat pid"
  have pid: "unat pid < length (PipeTbl s)" using a tbl_invD(1) [OF inv] by (simp add: pipe_live_def)
  obtain j where j: "scan (\<lambda>m. m = 0) (SubscribedMsgIds ?p) = Some j"
    using SubscribeIndex_free [OF pid] a by blast
  have slot: "j < length (SubscribedMsgIds ?p)" "SubscribedMsgIds ?p ! j = 0"
    using scan_SomeD [OF j] by simp_all
  let ?q = "subscribed_entry j m ?p"
  obtain s' where run: "wrap_CFE_SB_Subscribe P K m pid s = Inr (CFE_SUCCESS P, s')"
    and tbl: "PipeTbl s' = (PipeTbl s)[unat pid := ?q]"
    using Subscribe_live_free [OF inv _ j, of K m] a by simp
  have inv': "tbl_inv P (PipeTbl s')" using inv run by (rule Subscribe_inv)
  have q: "pipe_unread ?q = pipe_unread ?p" by (simp add: pipe_unread_def pipe_slot_def [abs_def])
  have sub: "subscribed ?q = insert m (subscribed ?p) - {0}"
    using set_update_free [OF slot, of m] by (simp add: subscribed_def)
  have cnt: "m \<noteq> 0 \<Longrightarrow> free_slots ?q = free_slots ?p - 1"
    using filter_update_free [OF slot, of m] by (simp add: free_slots_def)
  have same: "m = 0 \<Longrightarrow> ?q = ?p"
    using slot list_update_id [of "SubscribedMsgIds ?p" j] by (simp add: subscribed_entry_def)
  show "\<exists>s'. wrap_CFE_SB_Subscribe P K m pid s = Inr (CFE_SUCCESS P, s') \<and> tbl_inv P (PipeTbl s') \<and>
          (\<forall>j. j \<noteq> unat pid \<longrightarrow> PipeTbl s' ! j = PipeTbl s ! j) \<and>
          pipe_unread (PipeTbl s' ! unat pid) = pipe_unread ?p \<and>
          subscribed (PipeTbl s' ! unat pid) = insert m (subscribed ?p) - {0} \<and>
          (if m = 0 then PipeTbl s' = PipeTbl s
           else free_slots (PipeTbl s' ! unat pid) = free_slots ?p - 1)"
    using run inv' q sub cnt same pid
    by (intro exI [of _ s'] conjI) (simp_all add: tbl list_update_id split: if_splits)
qed

text \<open>A ready client whose first entry has been created.\<close>

definition client_with_pipe :: "platform \<Rightarrow> 'm::len word client" where
  "client_with_pipe P = with_entry 0 (created_pipe P 0 [0x61] (fresh_pipe P)) (ready_client P)"

lemma ready_client_entry: "i < 5 \<Longrightarrow> PipeTbl (ready_client P) ! i = fresh_pipe P"
  using InitPipeTbl_entry(1) [OF tbl_wf_client_start, of i P]
  by (simp add: ready_client_def fresh_pipe_def client_start_def)

lemma client_with_pipe_inv [simp]: "tbl_inv P (PipeTbl (client_with_pipe P :: 'm::len word client))"
proof -
  let ?p = "fresh_pipe P :: 'm word pipe"
  have "entry_inv P 0 (PipeTbl (ready_client P :: 'm word client) ! 0)"
    by (rule tbl_invD(2) [OF tbl_inv_ready]) simp
  then have "entry_inv P 0 ?p" by (simp add: ready_client_entry)
  then show ?thesis
    unfolding client_with_pipe_def with_entry_frame
    by (intro tbl_inv_update tbl_inv_ready created_pipe_entry_inv)
qed

lemma client_with_pipe_entry:
  "PipeTbl (client_with_pipe P) ! 0 = created_pipe P 0 [0x61] (fresh_pipe P)"
  by (simp add: client_with_pipe_def tbl_invD(1) [OF tbl_inv_ready])

lemma client_with_pipe_live [simp]: "pipe_live (client_with_pipe P) 0"
  by (simp add: pipe_live_def client_with_pipe_entry)

lemma fresh_pipe_subscribed [simp]: "SubscribedMsgIds (fresh_pipe P) = replicate 4 0"
  by (simp add: fresh_pipe_def invalidate_pipe_def static_pipe_def overwrite_full)

lemma client_with_pipe_fields [simp]:
  "sbn_client_sockfd (client_with_pipe P) = 0" "sbn_client_cpuId (client_with_pipe P) = 0"
  "Sock (client_with_pipe P) = (\<lambda>_. \<lparr>rd = [], wr = [], sent = []\<rparr>)"
  "HeapBlocks (client_with_pipe P) = 0" "Sync (client_with_pipe P) = []" "Out (client_with_pipe P) = []"
  by (simp_all add: client_with_pipe_def ready_client_def CFE_SBN_Client_InitPipeTbl_def
      client_start_def)

lemma free_slots_fresh [simp]: "free_slots (created_pipe P i nm (fresh_pipe P)) = 4"
  by (simp add: free_slots_def)

theorem Subscribe_branches_witness:
  "\<exists>s'. wrap_CFE_SB_Subscribe cfs_small list_packer 0x1801 0 (client_with_pipe cfs_small) =
      Inr (CFE_SUCCESS cfs_small, s') \<and>
    subscribed (PipeTbl s' ! 0) = {0x1801} \<and> free_slots (PipeTbl s' ! 0) = 3"
proof -
  have inv: "tbl_inv cfs_small (PipeTbl (client_with_pipe cfs_small :: 16 word client))" by simp
  show ?thesis
    using Subscribe_branches [OF inv, of 0 list_packer 6145]
    by (auto simp: subscribed_def client_with_pipe_entry)
qed

text \<open>
  C38. The subscription frame: on a socket that takes all bytes, a successful call writes one SBN
  header of type \<open>SBN_SUB_MSG\<close> for processor 2 that announces 54 bytes, followed by the ident
  string, the count 1, the packed message id and a zero quality of service. The announced size is
  the size of what follows exactly when the ident string and the packed id take 50 bytes together.
\<close>

theorem Subscribe_frame:
  assumes "packer_ok K enc" and "7 + length (sub_payload P enc m 0 0) \<le> SBN_PACKED_SUB_SZ P"
    and "tbl_inv P (PipeTbl s)" and "pipe_live s pid" and "free_slots (PipeTbl s ! unat pid) \<noteq> 0"
    and "wr (Sock s (sbn_client_sockfd s)) = []"
  shows "\<exists>s'. wrap_CFE_SB_Subscribe P K m pid s = Inr (CFE_SUCCESS P, s') \<and>
    sent (Sock s' (sbn_client_sockfd s)) = sent (Sock s (sbn_client_sockfd s)) @
      sbn_header 54 (SBN_SUB_MSG P) 2 @ sub_payload P enc m 0 0 \<and>
    (length (sub_payload P enc m 0 0) = 54 \<longleftrightarrow> length (SBN_IDENT P) + length (enc m) = 50)"
  using Subscribe_sent [OF assms] by (auto simp: sub_payload_def)

theorem Subscribe_frame_witness:
  "\<exists>s'. wrap_CFE_SB_Subscribe cfs_small list_packer 0x1801 0 (client_with_pipe cfs_small) =
      Inr (CFE_SUCCESS cfs_small, s') \<and>
    sent (Sock s' 0) = [0, 54, 1, 0, 0, 0, 2] @ replicate 48 0x24 @ [0, 1, 0x18, 0x01, 0, 0]"
proof -
  let ?s = "client_with_pipe cfs_small :: 16 word client"
  have inv: "tbl_inv cfs_small (PipeTbl ?s)" and low: "(6145 :: 8 word) = 1" by simp_all
  show ?thesis
    using inv Subscribe_frame [OF packer_ok_list_packer, where m = 6145 and P = cfs_small and s = ?s and pid = 0]
    by (simp add: client_with_pipe_entry sub_payload_def sbn_header_def be16_def be32_def low)
qed

text \<open>The same client with the pipe subscribed to one message id.\<close>

definition client_subscribed :: "platform \<Rightarrow> 'm::len word \<Rightarrow> 'm word client" where
  "client_subscribed P m =
     with_entry 0 (subscribed_entry 0 m (created_pipe P 0 [0x61] (fresh_pipe P))) (client_with_pipe P)"

lemma client_subscribed_inv [simp]: "tbl_inv P (PipeTbl (client_subscribed P (m :: 'm::len word)))"
proof -
  have "entry_inv P 0 (PipeTbl (client_with_pipe P :: 'm word client) ! 0)"
    by (rule tbl_invD(2) [OF client_with_pipe_inv]) simp
  then have "entry_inv P 0 (subscribed_entry 0 m (created_pipe P 0 [0x61] (fresh_pipe P)))"
    by (intro subscribed_entry_inv) (simp_all add: client_with_pipe_entry)
  then show ?thesis
    unfolding client_subscribed_def with_entry_frame
    by (intro tbl_inv_update client_with_pipe_inv)
qed

lemma client_subscribed_entry:
  "PipeTbl (client_subscribed P m) ! 0 = subscribed_entry 0 m (created_pipe P 0 [0x61] (fresh_pipe P))"
  by (simp add: client_subscribed_def tbl_invD(1) [OF client_with_pipe_inv])

lemma client_subscribed_live [simp]: "pipe_live (client_subscribed P m) 0"
  by (simp add: pipe_live_def client_subscribed_entry)

lemma subscribed_entry_unread [simp]: "pipe_unread (subscribed_entry j m p) = pipe_unread p"
  by (simp add: pipe_unread_def pipe_slot_def [abs_def])

end
