(* ===== verification/SBN_Send.thy ===== *)
theory SBN_Send
  imports SBN_Subscribe
begin

text \<open>
  Sending a message: \<open>CFE_SBN_Client_GetTotalMsgLength\<close> (\<open>sbn_client_utils.c\<close>) and
  \<open>__wrap_CFE_SB_SendMsg\<close> (\<open>sbn_client_wrappers.c\<close>), with the heap block the call allocates.
\<close>

section \<open>The operations\<close>

text \<open>The macro's value is returned as \<open>uint16\<close>.\<close>

definition CFE_SBN_Client_GetTotalMsgLength :: "platform \<Rightarrow> byte list \<Rightarrow> u16" where
  "CFE_SBN_Client_GetTotalMsgLength P msg = of_nat (CCSDS_RD_LEN P msg)"

text \<open>\<open>got_block\<close> says that \<open>malloc\<close> does not return \<open>NULL\<close>, \<open>g\<close> what the block holds then.\<close>

definition wrap_CFE_SB_SendMsg ::
    "platform \<Rightarrow> ('i, 'k, 'u) packer \<Rightarrow> bool \<Rightarrow> (nat \<Rightarrow> byte) \<Rightarrow> byte list \<Rightarrow> 'i client \<Rightarrow>
     (i32 \<times> 'i client) run" where
  "wrap_CFE_SB_SendMsg P K got_block g msg s =
     (let msg_size = CFE_SBN_Client_GetTotalMsgLength P msg;
          total_size = unat msg_size + SBN_PACKED_HDR_SZ P
      in if total_size > CFE_SBN_CLIENT_MAX_MESSAGE_SIZE P then Inr (CFE_SB_MSG_TOO_BIG P, s)
         else if \<not> got_block then Inl NullDeref
         else
           let s1 = s\<lparr>HeapBlocks := HeapBlocks s + 1\<rparr>;
               k0 = Pack_Init K (uninit g total_size) total_size;
               k1 = Pack_UInt16 K k0 msg_size;
               k2 = Pack_UInt8 K k1 (SBN_APP_MSG P);
               k3 = Pack_UInt32 K k2 (sbn_client_cpuId s1)
           in bindR (mem_read msg 0 (unat msg_size)) (\<lambda>m.
              bindR (mem_write (Pack_Buf K k3) (SBN_PACKED_HDR_SZ P) m) (\<lambda>buffer.
                let (write_result, s2) = write_message (sbn_client_sockfd s1) buffer s1
                in if write_result \<noteq> of_nat total_size then Inr (CFE_SB_BUF_ALOC_ERR P, s2)
                   else Inr (CFE_SUCCESS P, s2\<lparr>HeapBlocks := HeapBlocks s2 - 1\<rparr>))))"

section \<open>The frame\<close>

definition app_frame :: "platform \<Rightarrow> u32 \<Rightarrow> u16 \<Rightarrow> byte list \<Rightarrow> byte list" where
  "app_frame P cpu sz msg = sbn_header sz (SBN_APP_MSG P) cpu @ take (unat sz) msg"

lemma length_app_frame: "unat sz \<le> length msg \<Longrightarrow> length (app_frame P cpu sz msg) = 7 + unat sz"
  by (simp add: app_frame_def)

lemma SendMsg_buffer:
  assumes K: "packer_ok K enc" and "n = 7 + unat sz" and m: "length m = unat sz"
  shows "mem_write (Pack_Buf K (Pack_UInt32 K (Pack_UInt8 K (Pack_UInt16 K
      (Pack_Init K (uninit g n) n) sz) ty) cpu)) 7 m = Inr (sbn_header sz ty cpu @ m)"
proof -
  have "packed K (Pack_UInt32 K (Pack_UInt8 K (Pack_UInt16 K (Pack_Init K (uninit g n) n) sz) ty) cpu)
      (sbn_header sz ty cpu) (uninit g n)"
    by (rule packed_header [OF K]) (use assms(2) in simp_all)
  then have buf: "Pack_Buf K (Pack_UInt32 K (Pack_UInt8 K (Pack_UInt16 K (Pack_Init K (uninit g n) n) sz) ty) cpu)
      = overwrite (uninit g n) 0 (sbn_header sz ty cpu)"
    by (simp add: packed_def)
  have "overwrite (overwrite (uninit g n) 0 (sbn_header sz ty cpu)) (0 + length (sbn_header sz ty cpu)) m
      = overwrite (uninit g n) 0 (sbn_header sz ty cpu @ m)"
    by (rule overwrite_overwrite) (use assms(2) in simp)
  also have "\<dots> = sbn_header sz ty cpu @ m" using assms(2) m by (intro overwrite_full) simp
  finally show ?thesis unfolding buf using assms(2) m by simp
qed

text \<open>The call reduced to the one \<open>write\<close> it makes.\<close>

lemma SendMsg_write:
  assumes P: "platform_ok P" and K: "packer_ok K enc"
    and sz: "sz = CFE_SBN_Client_GetTotalMsgLength P msg" and "unat sz \<le> length msg"
    and "unat sz + 7 \<le> CFE_SB_MAX_SB_MSG_SIZE P"
  shows "wrap_CFE_SB_SendMsg P K True g msg s =
    (let (r, c) = sock_write (app_frame P (sbn_client_cpuId s) sz msg) (Sock s (sbn_client_sockfd s));
         s2 = set_chan (sbn_client_sockfd s) c (s\<lparr>HeapBlocks := HeapBlocks s + 1\<rparr>)
     in if r = of_nat (unat sz + 7) then Inr (CFE_SUCCESS P, set_chan (sbn_client_sockfd s) c s)
        else Inr (CFE_SB_BUF_ALOC_ERR P, s2))"
proof -
  have m: "length (take (unat sz) msg) = unat sz" using assms(4) by simp
  have set: "(set_chan fd c (s\<lparr>HeapBlocks := n\<rparr>))\<lparr>HeapBlocks := k\<rparr> =
      (set_chan fd c s)\<lparr>HeapBlocks := k\<rparr>" for fd c n k by (simp add: set_chan_def)
  have same: "(set_chan fd c s)\<lparr>HeapBlocks := HeapBlocks s\<rparr> = set_chan fd c s" for fd c
    by (simp add: set_chan_def)
  show ?thesis
    using assms(4,5) SendMsg_buffer [OF K refl m] platform_okD(12) [OF P]
    by (simp add: wrap_CFE_SB_SendMsg_def Let_def sz [symmetric] app_frame_def write_message_def
        add.commute set same split: prod.splits)
qed

section \<open>Properties\<close>

text \<open>How one \<open>write\<close> of a frame can go: all of it, or a part (none when it fails).\<close>

lemma sock_write_cases:
  assumes "sock_write bs c = (r, c')" and "length bs < 2 ^ 63"
  obtains (all) "r = of_nat (length bs)" "sent c' = sent c @ bs"
    | (part) k where "r \<noteq> of_nat (length bs)" "k < length bs" "sent c' = sent c @ take k bs"
    | (none) "r \<noteq> of_nat (length bs)" "sent c' = sent c"
proof (cases "wr c")
  case Nil
  then show thesis using assms(1) all by (auto simp: sock_write_def)
next
  case (Cons e es)
  show thesis
  proof (cases e)
    case Wr_Error
    have "(-1 :: size_t) \<noteq> of_nat (length bs)"
    proof
      assume "(-1 :: size_t) = of_nat (length bs)"
      then have "unat (-1 :: size_t) = unat (of_nat (length bs) :: size_t)" by simp
      then show False using assms(2) by (simp add: unat_of_nat take_bit_nat_eq_self unsigned_minus_1_eq_mask mask_eq_exp_minus_1)
    qed
    then show thesis using assms(1) none Cons Wr_Error by (auto simp: sock_write_def)
  next
    case (Wr_Accept n)
    show thesis
    proof (cases "length bs \<le> n")
      case True
      then show thesis using assms(1) all Cons Wr_Accept by (auto simp: sock_write_def)
    next
      case False
      then have "(of_nat n :: size_t) \<noteq> of_nat (length bs)"
        using assms(2) by (subst size_t_of_nat_eq) auto
      then show thesis using assms(1) part [of n] False Cons Wr_Accept by (auto simp: sock_write_def)
    qed
  qed
qed



text \<open>A series of sends, with the status of each.\<close>

fun send_each :: "platform \<Rightarrow> ('i, 'k, 'u) packer \<Rightarrow> (nat \<Rightarrow> byte) \<Rightarrow> byte list list \<Rightarrow> 'i client \<Rightarrow>
    (i32 list \<times> 'i client) run" where
  "send_each P K g [] s = Inr ([], s)"
| "send_each P K g (m # ms) s =
     bindR (wrap_CFE_SB_SendMsg P K True g m s) (\<lambda>(st, s1).
     bindR (send_each P K g ms s1) (\<lambda>(sts, s2). Inr (st # sts, s2)))"

definition sendable :: "platform \<Rightarrow> byte list \<Rightarrow> bool" where
  "sendable P m \<longleftrightarrow> (let sz = unat (CFE_SBN_Client_GetTotalMsgLength P m)
     in sz \<le> length m \<and> sz + 7 \<le> CFE_SB_MAX_SB_MSG_SIZE P)"

lemma SendMsg_heap:
  assumes P: "platform_ok P" and K: "packer_ok K enc" and "sendable P m"
  obtains st s' where "wrap_CFE_SB_SendMsg P K True g m s = Inr (st, s')"
    "st = CFE_SUCCESS P \<and> HeapBlocks s' = HeapBlocks s \<or>
     st = CFE_SB_BUF_ALOC_ERR P \<and> HeapBlocks s' = HeapBlocks s + 1"
proof -
  let ?sz = "CFE_SBN_Client_GetTotalMsgLength P m"
  have fits: "unat ?sz \<le> length m" "unat ?sz + 7 \<le> CFE_SB_MAX_SB_MSG_SIZE P"
    using assms(3) by (simp_all add: sendable_def Let_def)
  obtain r c where "sock_write (app_frame P (sbn_client_cpuId s) ?sz m) (Sock s (sbn_client_sockfd s)) = (r, c)"
    by fastforce
  then show thesis
    using SendMsg_write [OF P K refl fits, of g s] that by (cases "r = of_nat (unat ?sz + 7)") simp_all
qed

text \<open>
  Every failed send leaks its buffer: after any series of sends the heap has grown by exactly
  one block per call that returned \<open>CFE_SB_BUF_ALOC_ERR\<close>, and by nothing for the others.
\<close>

theorem send_each_leak:
  assumes P: "platform_ok P" and K: "packer_ok K enc" and "\<forall>m \<in> set ms. sendable P m"
  shows "\<exists>sts s'. send_each P K g ms s = Inr (sts, s') \<and> length sts = length ms \<and>
    HeapBlocks s' = HeapBlocks s + length (filter (\<lambda>st. st = CFE_SB_BUF_ALOC_ERR P) sts)"
  using assms(3)
proof (induction ms arbitrary: s)
  case Nil
  then show ?case by simp
next
  case (Cons m ms)
  have "CFE_SUCCESS P \<noteq> CFE_SB_BUF_ALOC_ERR P" using platform_okD(1,8) [OF P] by auto
  moreover obtain st s1 where one: "wrap_CFE_SB_SendMsg P K True g m s = Inr (st, s1)"
    "st = CFE_SUCCESS P \<and> HeapBlocks s1 = HeapBlocks s \<or>
     st = CFE_SB_BUF_ALOC_ERR P \<and> HeapBlocks s1 = HeapBlocks s + 1"
    using SendMsg_heap [OF P K, of m g s] Cons.prems by auto
  moreover obtain sts s' where "send_each P K g ms s1 = Inr (sts, s')" "length sts = length ms"
    "HeapBlocks s' = HeapBlocks s1 + length (filter (\<lambda>st. st = CFE_SB_BUF_ALOC_ERR P) sts)"
    using Cons.IH [of s1] Cons.prems by auto
  ultimately show ?case by auto
qed

theorem send_each_leak_witness:
  "\<exists>sts s'. send_each cfs_small list_packer (\<lambda>_. 0) (replicate 3 [24, 1, 192, 0, 0, 1, 7, 9])
      ((client_with_pipe cfs_small)\<lparr>Sock := (\<lambda>_. \<lparr>rd = [], wr = [Wr_Error], sent = []\<rparr>)\<rparr>) = Inr (sts, s') \<and>
    length sts = 3 \<and> HeapBlocks s' = length (filter (\<lambda>st. st = 0xCA000008) sts)"
proof -
  have "sendable cfs_small [24, 1, 192, 0, 0, 1, 7, 9]"
    by (simp add: sendable_def CFE_SBN_Client_GetTotalMsgLength_def)
  then show ?thesis
    using send_each_leak [OF platform_ok_cfs(2) packer_ok_list_packer,
        of "replicate 3 [24, 1, 192, 0, 0, 1, 7, 9]" "\<lambda>_. 0"
          "(client_with_pipe cfs_small)\<lparr>Sock := (\<lambda>_. \<lparr>rd = [], wr = [Wr_Error], sent = []\<rparr>)\<rparr>"]
    by simp
qed

lemma TotalMsgLength_unat:
  "unat (CFE_SBN_Client_GetTotalMsgLength P msg) = CCSDS_RD_LEN P msg mod 65536"
  by (simp add: CFE_SBN_Client_GetTotalMsgLength_def unat_of_nat take_bit_eq_mod)

text \<open>
  C36. The 16-bit length: a packet whose length field is at most 0xFFF8 is measured exactly, and the
  frame then carries the whole packet. For the seven largest values of the field the total, 65536 to
  65542 bytes, wraps to 0 to 6: the packet is not refused, and on a socket that takes everything the call reports
  success although at most its first six bytes were sent.
\<close>

theorem SendMsg_length:
  assumes P: "platform_ok P" and K: "packer_ok K enc" and V: "ccsds_v1_ok P"
    and len: "6 \<le> length msg" "length msg = CCSDS_RD_LEN P msg"
    and big: "13 \<le> CFE_SB_MAX_SB_MSG_SIZE P"
    and ok: "wr (Sock s (sbn_client_sockfd s)) = []"
  shows "let fd = sbn_client_sockfd s; n = unat (msg ! 4) * 256 + unat (msg ! 5) in
    if n \<le> 0xFFF8
    then n + 14 \<le> CFE_SB_MAX_SB_MSG_SIZE P \<longrightarrow>
      (\<exists>s'. wrap_CFE_SB_SendMsg P K True g msg s = Inr (CFE_SUCCESS P, s') \<and>
        sent (Sock s' fd) = sent (Sock s fd) @
          sbn_header (of_nat (n + 7)) (SBN_APP_MSG P) (sbn_client_cpuId s) @ msg)
    else n - 0xFFF9 \<le> 6 \<and>
      (\<exists>s'. wrap_CFE_SB_SendMsg P K True g msg s = Inr (CFE_SUCCESS P, s') \<and>
        sent (Sock s' fd) = sent (Sock s fd) @
          sbn_header (of_nat (n - 0xFFF9)) (SBN_APP_MSG P) (sbn_client_cpuId s) @ take (n - 0xFFF9) msg)"
proof -
  let ?n = "unat (msg ! 4) * 256 + unat (msg ! 5)" and ?sz = "CFE_SBN_Client_GetTotalMsgLength P msg"
  have n: "CCSDS_RD_LEN P msg = ?n + 7" using V len(1) by (simp add: ccsds_v1_ok_def)
  have "unat (msg ! 4) < 256" "unat (msg ! 5) < 256"
    using unsigned_less [of "msg ! 4"] unsigned_less [of "msg ! 5"] by simp_all
  then have b: "?n < 65536" by linarith
  have done_by: "\<exists>s'. wrap_CFE_SB_SendMsg P K True g msg s = Inr (CFE_SUCCESS P, s') \<and>
      sent (Sock s' (sbn_client_sockfd s)) = sent (Sock s (sbn_client_sockfd s)) @
        sbn_header ?sz (SBN_APP_MSG P) (sbn_client_cpuId s) @ take (unat ?sz) msg"
    if "unat ?sz \<le> length msg" "unat ?sz + 7 \<le> CFE_SB_MAX_SB_MSG_SIZE P"
    using SendMsg_write [OF P K refl that, of g s] ok length_app_frame [OF that(1)]
    by (simp add: sock_write_def app_frame_def add.commute)
  show ?thesis
  proof (cases "?n \<le> 0xFFF8")
    case True
    then have sz: "unat ?sz = ?n + 7" by (simp add: TotalMsgLength_unat n)
    have hdr: "of_nat (?n + 7) = ?sz" by (simp only: CFE_SBN_Client_GetTotalMsgLength_def n)
    have "unat ?sz \<le> length msg" "take (unat ?sz) msg = msg" using sz len(2) n by simp_all
    then show ?thesis
      using True done_by sz unfolding Let_def hdr by auto
  next
    case False
    have "(?n + 7) mod 65536 = ?n - 0xFFF9" using b False by (simp add: mod_if)
    then have sz: "unat ?sz = ?n - 0xFFF9" by (simp add: TotalMsgLength_unat n)
    then have hdr: "of_nat (?n - 0xFFF9) = ?sz" by (simp only: sz [symmetric] of_nat_unat ucast_id)
    have "unat ?sz \<le> 6" using sz b by linarith
    then have "unat ?sz \<le> length msg" "unat ?sz + 7 \<le> CFE_SB_MAX_SB_MSG_SIZE P" using len(1) big by simp_all
    then show ?thesis using False done_by \<open>unat ?sz \<le> 6\<close> unfolding Let_def hdr sz [symmetric] by simp
  qed
qed

theorem SendMsg_length_witness:
  "\<exists>s'. wrap_CFE_SB_SendMsg cfs_small list_packer True (\<lambda>_. 0)
      ([24, 1, 192, 0, 0xFF, 0xFB] @ replicate 65532 0) (client_with_pipe cfs_small) = Inr (0, s') \<and>
    sent (Sock s' 0) = [0, 2, 3, 0, 0, 0, 0, 24, 1]"
proof -
  let ?m = "[24, 1, 192, 0, 0xFF, 0xFB] @ replicate 65532 0 :: byte list"
  have "length ?m = CCSDS_RD_LEN cfs_small ?m" by (simp add: nth_append)
  then show ?thesis
    using SendMsg_length [OF platform_ok_cfs(2) packer_ok_list_packer ccsds_v1_ok_cfs(2), of ?m
        "client_with_pipe cfs_small" "\<lambda>_. 0"]
    by (simp add: nth_append sbn_header_def be16_def be32_def)
qed

end
