(* ===== verification/SBN_Ingest.thy ===== *)
theory SBN_Ingest
  imports SBN_Send
begin

text \<open>
  The receiving side: the message id of a packet (\<open>sbn_client_utils.c\<close>), the delivery of an
  application message into the first pipe that wants it (\<open>sbn_client_ingest.c\<close>) and
  \<open>recv_msg\<close> (\<open>sbn_client.c\<close>), which reads one SBN frame. Buffers the code leaves uninitialised
  are \<open>uninit\<close> of an arbitrary function, an argument of the definitions.
\<close>

section \<open>The operations\<close>

definition CFE_SBN_Client_GetMsgId :: "platform \<Rightarrow> byte list \<Rightarrow> 'm::len word" where
  "CFE_SBN_Client_GetMsgId P msg =
     (if \<not> MESSAGE_FORMAT_IS_CCSDS_VER_2 P then of_nat (CCSDS_RD_SID P msg)
      else
        let MsgId = of_nat (CCSDS_RD_APID P msg);
            MsgId1 = (if CCSDS_RD_TYPE P msg = CCSDS_CMD P
                      then MsgId OR ucast (CFE_SB_CMD_MESSAGE_TYPE P) else MsgId);
            SubSystemId = (of_nat (CCSDS_RD_SUBSYSTEM_ID P msg) :: u32)
        in MsgId1 OR ucast (push_bit 8 SubSystemId))"

text \<open>The body of the inner loop once a slot of pipe \<open>i\<close> matches; the mutex is held.\<close>

definition ingest_into :: "nat \<Rightarrow> byte list \<Rightarrow> u16 \<Rightarrow> 'm::len word \<Rightarrow> 'm word client \<Rightarrow> 'm word client run" where
  "ingest_into i msg_buffer MsgSz MsgId s =
     bindR (arr_get (PipeTbl s) i) (\<lambda>p.
       if pipe_full p
       then Inr (sync Mutex_unlock (log_message ''SBN_CLIENT: ERROR pipe overflow'' [] s))
       else
         let s1 = log_message ''App message received: MsgId 0x%08X'' [Int_arg (ucast MsgId)] s
         in bindR (mem_read msg_buffer 0 (unat MsgSz)) (\<lambda>bs.
            bindR (pipe_put bs p) (\<lambda>q.
            Inr (sync Cond_signal (sync Mutex_unlock (s1\<lparr>PipeTbl := (PipeTbl s1)[i := q]\<rparr>))))))"

text \<open>The loop over the pipes with \<open>n\<close> of them still to visit; \<open>used\<close> is \<open>at_least_1_pipe_is_in_use\<close>.\<close>

fun ingest_loop :: "nat \<Rightarrow> byte list \<Rightarrow> u16 \<Rightarrow> 'm::len word \<Rightarrow> bool \<Rightarrow> 'm word client \<Rightarrow> 'm word client run" where
  "ingest_loop 0 msg_buffer MsgSz MsgId used s =
     Inr (sync Mutex_unlock
       (log_message (if used then ''SBN_CLIENT: ERROR no subscription for this msgid''
                     else ''SBN_CLIENT: No pipes are in use'') [] s))"
| "ingest_loop (Suc n) msg_buffer MsgSz MsgId used s =
     (let i = CFE_PLATFORM_SBN_CLIENT_MAX_PIPES - Suc n in
      bindR (arr_get (PipeTbl s) i) (\<lambda>p.
        if InUse p = CFE_SBN_CLIENT_IN_USE then
          (case scan (\<lambda>x. x = MsgId) (SubscribedMsgIds p) of
             Some j \<Rightarrow> ingest_into i msg_buffer MsgSz MsgId s
           | None \<Rightarrow> ingest_loop n msg_buffer MsgSz MsgId True s)
        else ingest_loop n msg_buffer MsgSz MsgId used s))"

definition ingest_app_message ::
    "platform \<Rightarrow> (nat \<Rightarrow> byte) \<Rightarrow> i32 \<Rightarrow> u16 \<Rightarrow> 'm::len word client \<Rightarrow> 'm word client run" where
  "ingest_app_message P g SockFd MsgSz s =
     bindR (CFE_SBN_Client_ReadBytes P SockFd (uninit g (CFE_SBN_CLIENT_MAX_MESSAGE_SIZE P))
              (unat MsgSz) s) (\<lambda>(status, msg_buffer, s1).
       if status \<noteq> CFE_SUCCESS P then
         Inr (log_message
           (take 60 (c_format
             (''CFE_SBN_Client_ReadBytes returned a bad status = 0x%08X'' @ [CHR 0x0A])
             [Int_arg status])) [] s1)
       else
         ingest_loop CFE_PLATFORM_SBN_CLIENT_MAX_PIPES msg_buffer MsgSz
           (CFE_SBN_Client_GetMsgId P msg_buffer) False (sync Mutex_lock s1))"

text \<open>\<open>g\<close> and \<open>h\<close> are what the stack holds in \<open>sbn_hdr_buffer\<close> and in the message buffers.\<close>

definition recv_msg ::
    "platform \<Rightarrow> ('m::len word, 'k, 'u) packer \<Rightarrow> (nat \<Rightarrow> byte) \<Rightarrow> (nat \<Rightarrow> byte) \<Rightarrow> i32 \<Rightarrow>
     'm word client \<Rightarrow> (i32 \<times> 'm word client) run" where
  "recv_msg P K g h sockfd s =
     bindR (CFE_SBN_Client_ReadBytes P sockfd (uninit g (SBN_PACKED_HDR_SZ P))
              (SBN_PACKED_HDR_SZ P) s) (\<lambda>(status, hdr, s1).
       if status \<noteq> CFE_SUCCESS P then
         Inr (status, printf
           (''SBN_CLIENT: recv_msg call to CFE_SBN_Client_ReadBytes returned status = %d'' @ [CHR 0x0A])
           [Int_arg status] s1)
       else
         let (MsgSz, MsgType, CpuID) = unpack_header K hdr (SBN_PACKED_HDR_SZ P) in
         if MsgType = SBN_NO_MSG P \<or> MsgType = SBN_SUB_MSG P \<or> MsgType = SBN_UNSUB_MSG P \<or>
            MsgType = SBN_PROTO_MSG P \<or> MsgType = SBN_HEARTBEAT_MSG
         then bindR (CFE_SBN_Client_ReadBytes P sockfd (uninit h (CFE_SBN_CLIENT_MAX_MESSAGE_SIZE P))
                       (unat MsgSz) s1) (\<lambda>(st, msg, s2). Inr (st, s2))
         else if MsgType = SBN_APP_MSG P
         then bindR (ingest_app_message P h sockfd MsgSz s1) (\<lambda>s2. Inr (CFE_SUCCESS P, s2))
         else Inr (CFE_EVS_ERROR P,
                   log_message (''SBN_CLIENT: ERROR - recv_msg unrecognized type %d'' @ [CHR 0x0A])
                     [Int_arg (ucast MsgType)] s1))"

section \<open>Where a message goes\<close>

text \<open>The abstract routing table: the first pipe in use with a slot that equals the id.\<close>

definition wants :: "'m::len word \<Rightarrow> 'm word pipe \<Rightarrow> bool" where
  "wants m p \<longleftrightarrow> InUse p = 1 \<and> m \<in> set (SubscribedMsgIds p)"

definition route :: "'m::len word pipe list \<Rightarrow> 'm word \<Rightarrow> nat option" where
  "route tbl m = scan (wants m) tbl"

definition drop_text :: "bool \<Rightarrow> 'm::len word pipe list \<Rightarrow> string" where
  "drop_text used tbl = (if used \<or> (\<exists>p \<in> set tbl. InUse p = 1)
     then ''SBN_CLIENT: ERROR no subscription for this msgid'' else ''SBN_CLIENT: No pipes are in use'')"

lemma drop_text_Cons [simp]: "drop_text used (p # tbl) = drop_text (used \<or> InUse p = 1) tbl"
  by (simp add: drop_text_def)

definition ingest_rest ::
    "nat option \<Rightarrow> string \<Rightarrow> byte list \<Rightarrow> u16 \<Rightarrow> 'm::len word \<Rightarrow> 'm word client \<Rightarrow> 'm word client run" where
  "ingest_rest found text buf sz m s =
    (case found of Some i \<Rightarrow> ingest_into i buf sz m s
     | None \<Rightarrow> Inr (sync Mutex_unlock (log_message text [] s)))"

lemma scan_eq_mem: "(scan (\<lambda>x. x = m) xs = None) \<longleftrightarrow> m \<notin> set xs"
  by (auto simp: scan_None)

lemma ingest_loop_from:
  assumes "length (PipeTbl s) = 5" and "n \<le> 5"
  shows "ingest_loop n buf sz m used s =
    ingest_rest (scan_from (5 - n) (wants m) (drop (5 - n) (PipeTbl s)))
      (drop_text used (drop (5 - n) (PipeTbl s))) buf sz m s"
  using assms(2)
proof (induction n arbitrary: used)
  case 0
  then show ?case using assms(1) by (simp add: ingest_rest_def drop_text_def)
next
  case (Suc n)
  let ?i = "5 - Suc n" and ?p = "PipeTbl s ! (5 - Suc n)"
  have i: "?i < length (PipeTbl s)" "5 - n = Suc ?i" using assms(1) Suc.prems by simp_all
  then have split: "drop ?i (PipeTbl s) = ?p # drop (Suc ?i) (PipeTbl s)"
    by (simp add: Cons_nth_drop_Suc)
  have IH: "ingest_loop n buf sz m u s =
    ingest_rest (scan_from (Suc ?i) (wants m) (drop (Suc ?i) (PipeTbl s)))
      (drop_text u (drop (Suc ?i) (PipeTbl s))) buf sz m s" for u
    using Suc i(2) by simp
  have body: "ingest_loop (Suc n) buf sz m used s =
    (if wants m ?p then ingest_into ?i buf sz m s else ingest_loop n buf sz m (used \<or> InUse ?p = 1) s)"
    using i(1) scan_eq_mem [of m "SubscribedMsgIds ?p"]
    by (cases "scan (\<lambda>x. x = m) (SubscribedMsgIds ?p)") (simp_all add: Let_def wants_def)
  show ?case
    unfolding body split using IH by (simp add: ingest_rest_def)
qed

lemma ingest_loop_route:
  assumes "length (PipeTbl s) = 5"
  shows "ingest_loop 5 buf sz m False s =
    ingest_rest (route (PipeTbl s) m) (drop_text False (PipeTbl s)) buf sz m s"
  using ingest_loop_from [OF assms, of 5 buf sz m False] by (simp add: route_def scan_def)

text \<open>What the delivery into pipe \<open>i\<close> does, when the message fits a slot.\<close>

lemma ingest_into_full:
  assumes "i < length (PipeTbl s)" and "pipe_full (PipeTbl s ! i)"
  shows "ingest_into i buf sz m s =
    Inr (sync Mutex_unlock (log_message ''SBN_CLIENT: ERROR pipe overflow'' [] s))"
  using assms by (simp add: ingest_into_def)

lemma ingest_into_room:
  assumes inv: "tbl_inv P (PipeTbl s)" and i: "i < 5" and room: "\<not> pipe_full (PipeTbl s ! i)"
    and sz: "unat sz \<le> length buf" "unat sz \<le> CFE_SB_MAX_SB_MSG_SIZE P"
  obtains q slot where "ingest_into i buf sz m s =
      Inr (sync Cond_signal (sync Mutex_unlock (with_entry i q
        (log_message ''App message received: MsgId 0x%08X'' [Int_arg (ucast m)] s))))"
    "entry_inv P i q \<or> InUse (PipeTbl s ! i) \<noteq> 1" "pipe_unread q = pipe_unread (PipeTbl s ! i) @ [slot]"
    "slot_carries slot (take (unat sz) buf)" "pipe_held q = pipe_held (PipeTbl s ! i)"
    "InUse q = InUse (PipeTbl s ! i)" "SubscribedMsgIds q = SubscribedMsgIds (PipeTbl s ! i)"
proof -
  let ?p = "PipeTbl s ! i" and ?bs = "take (unat sz) buf"
  have ent: "entry_inv P i ?p" using inv i by (rule tbl_invD(2))
  then have wf: "pipe_wf P ?p" "ring_ok ?p" using entry_inv_wf by blast+
  have len: "length ?bs \<le> CFE_SB_MAX_SB_MSG_SIZE P" "length ?bs = unat sz" using sz by simp_all
  obtain q slot where q: "pipe_put ?bs ?p = Inr q" "ring_ok q" "pipe_unread q = pipe_unread ?p @ [slot]"
    "take (length ?bs) slot = ?bs" "pipe_held q = pipe_held ?p"
    "InUse q = InUse ?p" "PipeId q = PipeId ?p" "SubscribedMsgIds q = SubscribedMsgIds ?p"
    using pipe_put_effect [OF wf room len(1)] by blast
  have "pipe_wf P q" using pipe_put_wf [OF wf(1) len(1) q(1)] .
  then have "entry_inv P i q \<or> InUse ?p \<noteq> 1"
    using ent q(2,6,7) by (simp add: entry_inv_def pipe_inv_def)
  moreover have "ingest_into i buf sz m s =
      Inr (sync Cond_signal (sync Mutex_unlock (with_entry i q
        (log_message ''App message received: MsgId 0x%08X'' [Int_arg (ucast m)] s))))"
    using q(1) room sz(1) i tbl_invD(1) [OF inv] by (simp add: ingest_into_def with_entry_def)
  ultimately show thesis using that [of q slot] q len by (simp add: slot_carries_def)
qed

lemma route_SomeD:
  assumes "route (PipeTbl s) m = Some i" and "tbl_inv P (PipeTbl s)"
  shows "i < 5" "InUse (PipeTbl s ! i) = 1" "m \<in> set (SubscribedMsgIds (PipeTbl s ! i))"
  using scan_SomeD [of "wants m" "PipeTbl s" i] assms(1) tbl_invD(1) [OF assms(2)]
  by (simp_all add: route_def wants_def)

text \<open>A delivered message: what one delivery may change.\<close>

definition delivers :: "'m::len word \<Rightarrow> byte list \<Rightarrow> 'm word client \<Rightarrow> 'm word client \<Rightarrow> bool" where
  "delivers m bs s s' \<longleftrightarrow>
     (case route (PipeTbl s) m of
        None \<Rightarrow> PipeTbl s' = PipeTbl s \<and> Sync s' = Sync s @ [Mutex_lock, Mutex_unlock]
      | Some i \<Rightarrow>
          (\<forall>j. j \<noteq> i \<longrightarrow> PipeTbl s' ! j = PipeTbl s ! j) \<and>
          (if pipe_full (PipeTbl s ! i)
           then PipeTbl s' = PipeTbl s \<and> Sync s' = Sync s @ [Mutex_lock, Mutex_unlock]
           else (\<exists>slot. pipe_unread (PipeTbl s' ! i) = pipe_unread (PipeTbl s ! i) @ [slot] \<and>
                   slot_carries slot bs) \<and>
             pipe_held (PipeTbl s' ! i) = pipe_held (PipeTbl s ! i) \<and>
             SubscribedMsgIds (PipeTbl s' ! i) = SubscribedMsgIds (PipeTbl s ! i) \<and>
             InUse (PipeTbl s' ! i) = InUse (PipeTbl s ! i) \<and>
             Sync s' = Sync s @ [Mutex_lock, Mutex_unlock, Cond_signal]))"

lemma ingest_rest_delivers:
  assumes inv: "tbl_inv P (PipeTbl t)"
    and sz: "unat sz \<le> length buf" "unat sz \<le> CFE_SB_MAX_SB_MSG_SIZE P"
  shows "\<exists>s'. ingest_rest (route (PipeTbl t) m) text buf sz m (sync Mutex_lock t) = Inr s' \<and>
    tbl_inv P (PipeTbl s') \<and> Sock s' = Sock t \<and> delivers m (take (unat sz) buf) t s'"
proof (cases "route (PipeTbl t) m")
  case None
  then show ?thesis using inv by (simp add: ingest_rest_def delivers_def)
next
  case (Some i)
  note i = route_SomeD [OF Some inv]
  have len: "length (PipeTbl t) = 5" by (rule tbl_invD(1) [OF inv])
  show ?thesis
  proof (cases "pipe_full (PipeTbl t ! i)")
    case True
    then show ?thesis
      using inv Some i(1) len by (simp add: ingest_rest_def delivers_def ingest_into_full)
  next
    case False
    have inv': "tbl_inv P (PipeTbl (sync Mutex_lock t))" using inv by simp
    have room: "\<not> pipe_full (PipeTbl (sync Mutex_lock t) ! i)" using False by simp
    obtain q slot where run: "ingest_into i buf sz m (sync Mutex_lock t) =
        Inr (sync Cond_signal (sync Mutex_unlock (with_entry i q
          (log_message ''App message received: MsgId 0x%08X'' [Int_arg (ucast m)] (sync Mutex_lock t)))))"
      and q: "entry_inv P i q \<or> InUse (PipeTbl t ! i) \<noteq> 1"
        "pipe_unread q = pipe_unread (PipeTbl t ! i) @ [slot]"
        "slot_carries slot (take (unat sz) buf)" "pipe_held q = pipe_held (PipeTbl t ! i)"
        "InUse q = InUse (PipeTbl t ! i)" "SubscribedMsgIds q = SubscribedMsgIds (PipeTbl t ! i)"
      using ingest_into_room [OF inv' i(1) room sz, of m] by auto
    have "tbl_inv P ((PipeTbl t)[i := q])" using q(1) i(2) by (intro tbl_inv_update inv) simp
    then show ?thesis
      using run q(2-) Some False i(1) len by (simp add: ingest_rest_def delivers_def)
  qed
qed

lemma delivers_only_read:
  assumes "only_read fd s t" and "delivers m bs t s'"
  shows "delivers m bs s s'"
  using assms(2) unfolding delivers_def only_read_fields(1,7) [OF assms(1)] .

lemma ingest_enough:
  assumes inv: "tbl_inv P (PipeTbl s)" and sz: "unat sz \<le> CFE_SB_MAX_SB_MSG_SIZE P"
    and data: "unat sz \<le> length (incoming (rd (Sock s fd)))"
    and bs_def: "bs = take (unat sz) (incoming (rd (Sock s fd)))"
    and m_def: "m = CFE_SBN_Client_GetMsgId P (overwrite (uninit g (CFE_SB_MAX_SB_MSG_SIZE P)) 0 bs)"
  shows "\<exists>s'. ingest_app_message P g fd sz s = Inr s' \<and> tbl_inv P (PipeTbl s') \<and>
    incoming (rd (Sock s' fd)) = drop (unat sz) (incoming (rd (Sock s fd))) \<and> delivers m bs s s' \<and>
    ending (rd (Sock s' fd)) = ending (rd (Sock s fd))"
proof -
  let ?u = "uninit g (CFE_SB_MAX_SB_MSG_SIZE P)" and ?buf = "overwrite (uninit g (CFE_SB_MAX_SB_MSG_SIZE P)) 0 bs"
  have "unat sz \<le> length ?u" using sz by simp
  then obtain t where t: "CFE_SBN_Client_ReadBytes P fd ?u (unat sz) s = Inr (CFE_SUCCESS P, ?buf, t)"
    "incoming (rd (Sock t fd)) = drop (unat sz) (incoming (rd (Sock s fd)))"
    "ending (rd (Sock t fd)) = ending (rd (Sock s fd))" "only_read fd s t"
    using ReadBytes_enough [OF sz _ data, of ?u] unfolding bs_def by blast
  have inv': "tbl_inv P (PipeTbl t)" using inv t(4) by (simp add: only_read_def)
  have lb: "length bs = unat sz" using data by (simp add: bs_def)
  have buf: "unat sz \<le> length ?buf" "take (unat sz) ?buf = bs"
    using sz lb take_overwrite_0 [of bs ?u] by simp_all
  have run: "ingest_app_message P g fd sz s =
      ingest_rest (route (PipeTbl t) m) (drop_text False (PipeTbl t)) ?buf sz m (sync Mutex_lock t)"
    using t(1) ingest_loop_route [of "sync Mutex_lock t"] tbl_invD(1) [OF inv']
    by (simp add: ingest_app_message_def m_def)
  show ?thesis
    using ingest_rest_delivers [OF inv' buf(1) sz, of m "drop_text False (PipeTbl t)"]
      delivers_only_read [OF t(4)] t(2,3) unfolding run buf(2) by auto
qed

lemma ingest_failed:
  assumes sz: "CFE_SB_MAX_SB_MSG_SIZE P < unat sz \<or> length (incoming (rd (Sock s fd))) < unat sz"
    and P: "platform_ok P"
  shows "ingest_app_message P g fd sz s = Inl Blocked \<or>
    (\<exists>s'. ingest_app_message P g fd sz s = Inr s' \<and> only_read fd s s')"
proof (cases "CFE_SB_MAX_SB_MSG_SIZE P < unat sz")
  case True
  have "CFE_SB_BAD_ARGUMENT P \<noteq> CFE_SUCCESS P" using platform_okD(1,3) [OF P] by simp
  then show ?thesis
    using ReadBytes_too_big [OF True, of fd "uninit g (CFE_SB_MAX_SB_MSG_SIZE P)" s]
    by (auto simp: ingest_app_message_def)
next
  case False
  then have sz': "unat sz \<le> CFE_SB_MAX_SB_MSG_SIZE P" "length (incoming (rd (Sock s fd))) < unat sz"
    using sz by simp_all
  have "unat sz \<le> length (uninit g (CFE_SB_MAX_SB_MSG_SIZE P))" using sz'(1) by simp
  note short = ReadBytes_short [OF sz'(1) this sz'(2)]
  have "short_read_status k \<noteq> CFE_SUCCESS P" for k
    using platform_okD(1) [OF P] by (simp add: short_read_status_def)
  then show ?thesis using short by (auto simp: ingest_app_message_def split: if_splits)
qed

lemma ingest_inv [sbn_wf]:
  assumes P: "platform_ok P" and inv: "tbl_inv P (PipeTbl s)"
  shows "ingest_app_message P g fd sz s = Inl Blocked \<or>
    (\<exists>s'. ingest_app_message P g fd sz s = Inr s' \<and> tbl_inv P (PipeTbl s'))"
proof (cases "CFE_SB_MAX_SB_MSG_SIZE P < unat sz \<or> length (incoming (rd (Sock s fd))) < unat sz")
  case True
  then show ?thesis using ingest_failed [OF True P, of g] inv by (auto simp: only_read_def)
next
  case False
  then show ?thesis using ingest_enough [OF inv _ _ refl refl, of sz fd g] by auto
qed

lemma ingest_too_big:
  assumes P: "platform_ok P" and "CFE_SB_MAX_SB_MSG_SIZE P < unat sz"
  shows "\<exists>s'. ingest_app_message P g fd sz s = Inr s' \<and> only_read fd s s' \<and> Sock s' = Sock s"
proof -
  have "CFE_SB_BAD_ARGUMENT P \<noteq> CFE_SUCCESS P" using platform_okD(1,3) [OF P] by simp
  then show ?thesis
    using ReadBytes_too_big [OF assms(2), of fd "uninit g (CFE_SB_MAX_SB_MSG_SIZE P)" s]
    by (auto simp: ingest_app_message_def)
qed

section \<open>Reading frames\<close>

definition control_type :: "platform \<Rightarrow> u8 \<Rightarrow> bool" where
  "control_type P ty \<longleftrightarrow> ty \<in> {SBN_NO_MSG P, SBN_SUB_MSG P, SBN_UNSUB_MSG P, SBN_PROTO_MSG P, 0xA0}"

lemma app_type_not_control: "platform_ok P \<Longrightarrow> \<not> control_type P (SBN_APP_MSG P)"
  by (auto simp: platform_ok_def control_type_def)

text \<open>Once the header has been read, the call is a choice on the type.\<close>

lemma recv_msg_header:
  assumes P: "platform_ok P" and K: "packer_ok K enc"
    and stream: "incoming (rd (Sock s fd)) = sbn_header sz ty cpu @ rest"
  obtains t where "only_read fd s t" "incoming (rd (Sock t fd)) = rest"
    "ending (rd (Sock t fd)) = ending (rd (Sock s fd))"
    "recv_msg P K g h fd s =
      (if control_type P ty
       then bindR (CFE_SBN_Client_ReadBytes P fd (uninit h (CFE_SB_MAX_SB_MSG_SIZE P)) (unat sz) t)
              (\<lambda>(st, msg, s2). Inr (st, s2))
       else if ty = SBN_APP_MSG P
       then bindR (ingest_app_message P h fd sz t) (\<lambda>s2. Inr (CFE_SUCCESS P, s2))
       else Inr (CFE_EVS_ERROR P,
                 log_message (''SBN_CLIENT: ERROR - recv_msg unrecognized type %d'' @ [CHR 0x0A])
                   [Int_arg (ucast ty)] t))"
proof -
  have "\<exists>t. CFE_SBN_Client_ReadBytes P fd (uninit g 7) (length (sbn_header sz ty cpu)) s =
      Inr (CFE_SUCCESS P, sbn_header sz ty cpu, t) \<and> incoming (rd (Sock t fd)) = rest \<and>
      only_read fd s t \<and> Out t = Out s \<and> ending (rd (Sock t fd)) = ending (rd (Sock s fd))"
    by (rule rb.read_exact [OF _ _ stream]) (use platform_okD(13) [OF P] in simp_all)
  then obtain t where "CFE_SBN_Client_ReadBytes P fd (uninit g 7) 7 s =
      Inr (CFE_SUCCESS P, sbn_header sz ty cpu, t)" "incoming (rd (Sock t fd)) = rest"
    "only_read fd s t" "ending (rd (Sock t fd)) = ending (rd (Sock s fd))" by auto
  then show thesis
    using that [of t] platform_okD(12) [OF P] unpack_sbn_header [OF K, of sz ty cpu]
    by (simp add: recv_msg_def control_type_def)
qed

definition app_msgid :: "platform \<Rightarrow> (nat \<Rightarrow> byte) \<Rightarrow> byte list \<Rightarrow> 'm::len word" where
  "app_msgid P h bs =
     CFE_SBN_Client_GetMsgId P (overwrite (uninit h (CFE_SB_MAX_SB_MSG_SIZE P)) 0 bs)"

lemma recv_msg_app:
  fixes s :: "'m::len word client"
  assumes P: "platform_ok P" and K: "packer_ok K enc" and inv: "tbl_inv P (PipeTbl s)"
    and stream: "incoming (rd (Sock s fd)) = sbn_header sz (SBN_APP_MSG P) cpu @ bs @ rest"
    and len: "length bs = unat sz" "unat sz \<le> CFE_SB_MAX_SB_MSG_SIZE P"
  shows "\<exists>s'. recv_msg P K g h fd s = Inr (CFE_SUCCESS P, s') \<and> tbl_inv P (PipeTbl s') \<and>
    incoming (rd (Sock s' fd)) = rest \<and> ending (rd (Sock s' fd)) = ending (rd (Sock s fd)) \<and>
    delivers (app_msgid P h bs) bs s s'"
proof -
  obtain t where t: "only_read fd s t" "incoming (rd (Sock t fd)) = bs @ rest"
    "ending (rd (Sock t fd)) = ending (rd (Sock s fd))"
    and run: "recv_msg P K g h fd s =
      bindR (ingest_app_message P h fd sz t) (\<lambda>s2. Inr (CFE_SUCCESS P, s2))"
    using recv_msg_header [OF P K stream, of g h] app_type_not_control [OF P] by auto
  have invt: "tbl_inv P (PipeTbl t)" using inv t(1) by (simp add: only_read_def)
  have "\<exists>s'. ingest_app_message P h fd sz t = Inr s' \<and> tbl_inv P (PipeTbl s') \<and>
      incoming (rd (Sock s' fd)) = drop (unat sz) (incoming (rd (Sock t fd))) \<and>
      delivers (app_msgid P h bs :: 'm word) bs t s' \<and> ending (rd (Sock s' fd)) = ending (rd (Sock t fd))"
    by (rule ingest_enough [OF invt len(2)]) (use t(2) len(1) in \<open>simp_all add: app_msgid_def\<close>)
  then show ?thesis using run t len(1) delivers_only_read [OF t(1)] by auto
qed

lemma recv_msg_control:
  assumes P: "platform_ok P" and K: "packer_ok K enc" and ty: "control_type P ty"
    and stream: "incoming (rd (Sock s fd)) = sbn_header sz ty cpu @ bs @ rest"
    and len: "length bs = unat sz" "unat sz \<le> CFE_SB_MAX_SB_MSG_SIZE P"
  shows "\<exists>s'. recv_msg P K g h fd s = Inr (CFE_SUCCESS P, s') \<and> only_read fd s s' \<and>
    incoming (rd (Sock s' fd)) = rest \<and> ending (rd (Sock s' fd)) = ending (rd (Sock s fd))"
proof -
  obtain t where t: "only_read fd s t" "incoming (rd (Sock t fd)) = bs @ rest"
    "ending (rd (Sock t fd)) = ending (rd (Sock s fd))"
    and run: "recv_msg P K g h fd s =
      bindR (CFE_SBN_Client_ReadBytes P fd (uninit h (CFE_SB_MAX_SB_MSG_SIZE P)) (unat sz) t)
              (\<lambda>(st, msg, s2). Inr (st, s2))"
    using recv_msg_header [OF P K stream, of g h] ty by auto
  obtain u where "CFE_SBN_Client_ReadBytes P fd (uninit h (CFE_SB_MAX_SB_MSG_SIZE P)) (unat sz) t =
      Inr (CFE_SUCCESS P, overwrite (uninit h (CFE_SB_MAX_SB_MSG_SIZE P)) 0 bs, u)"
    "incoming (rd (Sock u fd)) = rest" "only_read fd t u" "ending (rd (Sock u fd)) = ending (rd (Sock t fd))"
    using ReadBytes_enough [OF len(2), of "uninit h (CFE_SB_MAX_SB_MSG_SIZE P)" t fd] t(2) len by auto
  then show ?thesis using run t only_read_trans by fastforce
qed

lemma recv_msg_left:
  assumes P: "platform_ok P" and K: "packer_ok K enc"
    and stream: "incoming (rd (Sock s fd)) = sbn_header sz ty cpu @ rest"
    and bad: "\<not> control_type P ty \<and> ty \<noteq> SBN_APP_MSG P \<or> CFE_SB_MAX_SB_MSG_SIZE P < unat sz"
  shows "\<exists>s'. recv_msg P K g h fd s =
      Inr (if control_type P ty then CFE_SB_BAD_ARGUMENT P
           else if ty = SBN_APP_MSG P then CFE_SUCCESS P else CFE_EVS_ERROR P, s') \<and>
    only_read fd s s' \<and> incoming (rd (Sock s' fd)) = rest"
proof -
  let ?u = "uninit h (CFE_SB_MAX_SB_MSG_SIZE P)"
  obtain t where t: "only_read fd s t" "incoming (rd (Sock t fd)) = rest"
    and run: "recv_msg P K g h fd s =
      (if control_type P ty
       then bindR (CFE_SBN_Client_ReadBytes P fd ?u (unat sz) t) (\<lambda>(st, msg, s2). Inr (st, s2))
       else if ty = SBN_APP_MSG P
       then bindR (ingest_app_message P h fd sz t) (\<lambda>s2. Inr (CFE_SUCCESS P, s2))
       else Inr (CFE_EVS_ERROR P,
                 log_message (''SBN_CLIENT: ERROR - recv_msg unrecognized type %d'' @ [CHR 0x0A])
                   [Int_arg (ucast ty)] t))"
    using recv_msg_header [OF P K stream, of g h] by blast
  consider (unknown) "\<not> control_type P ty" "ty \<noteq> SBN_APP_MSG P"
    | (control) "control_type P ty" "CFE_SB_MAX_SB_MSG_SIZE P < unat sz"
    | (app) "\<not> control_type P ty" "ty = SBN_APP_MSG P" "CFE_SB_MAX_SB_MSG_SIZE P < unat sz"
    using bad by blast
  then show ?thesis
  proof cases
    case unknown
    then show ?thesis using run t by simp
  next
    case control
    then show ?thesis
      using run t ReadBytes_too_big [OF control(2), of fd ?u t] only_read_trans [OF t(1)] by auto
  next
    case app
    then show ?thesis
      using run t ingest_too_big [OF P app(3), of h fd t] only_read_trans [OF t(1)] by auto
  qed
qed

section \<open>A stream of frames\<close>

text \<open>A frame as the peer means it: a type, a processor id and a payload.\<close>

type_synonym frame = "u8 \<times> u32 \<times> byte list"

definition frame_bytes :: "frame \<Rightarrow> byte list" where
  "frame_bytes f = (case f of (ty, cpu, bs) \<Rightarrow> sbn_header (of_nat (length bs)) ty cpu @ bs)"

lemma frame_bytes_triple [simp]:
  "frame_bytes (ty, cpu, bs) = sbn_header (of_nat (length bs)) ty cpu @ bs"
  by (simp add: frame_bytes_def)

definition frame_ok :: "platform \<Rightarrow> frame \<Rightarrow> bool" where
  "frame_ok P f \<longleftrightarrow> (case f of (ty, cpu, bs) \<Rightarrow> (control_type P ty \<or> ty = SBN_APP_MSG P) \<and>
     length bs \<le> CFE_SB_MAX_SB_MSG_SIZE P \<and> length bs < 65536)"

text \<open>The application payloads of a list of frames that are routed to pipe \<open>i\<close>, in order.\<close>

fun routed :: "platform \<Rightarrow> (nat \<Rightarrow> byte) \<Rightarrow> 'm::len word pipe list \<Rightarrow> nat \<Rightarrow> frame list \<Rightarrow> byte list list" where
  "routed P h tbl i [] = []"
| "routed P h tbl i ((ty, cpu, bs) # fs) =
     (if ty = SBN_APP_MSG P \<and> route tbl (app_msgid P h bs) = Some i
      then bs # routed P h tbl i fs else routed P h tbl i fs)"

fun recv_each :: "platform \<Rightarrow> ('m::len word, 'k, 'u) packer \<Rightarrow> (nat \<Rightarrow> byte) \<Rightarrow> (nat \<Rightarrow> byte) \<Rightarrow> i32 \<Rightarrow>
    nat \<Rightarrow> 'm word client \<Rightarrow> (i32 list \<times> 'm word client) run" where
  "recv_each P K g h fd 0 s = Inr ([], s)"
| "recv_each P K g h fd (Suc n) s =
     bindR (recv_msg P K g h fd s) (\<lambda>(st, s1).
     bindR (recv_each P K g h fd n s1) (\<lambda>(sts, s2). Inr (st # sts, s2)))"

lemma scan_cong:
  assumes "length xs = length ys" and "\<And>i. i < length xs \<Longrightarrow> p (xs ! i) = q (ys ! i)"
  shows "scan p xs = scan q ys"
proof (cases "scan q ys")
  case None
  have "\<not> p (xs ! i)" if "i < length xs" for i using None assms that by (simp add: scan_None)
  then have "scan p xs = None" by (auto simp: scan_None in_set_conv_nth)
  then show ?thesis using None by simp
next
  case (Some k)
  then have "scan p xs = Some k" using assms unfolding scan_Some by auto
  then show ?thesis using Some by simp
qed

lemma delivers_route:
  assumes inv: "tbl_inv P (PipeTbl s)" "tbl_inv P (PipeTbl s')" and d: "delivers m bs s s'"
  shows "route (PipeTbl s') m' = route (PipeTbl s) m'"
proof -
  have "InUse (PipeTbl s' ! j) = InUse (PipeTbl s ! j) \<and>
      SubscribedMsgIds (PipeTbl s' ! j) = SubscribedMsgIds (PipeTbl s ! j)" for j
    using d by (cases "route (PipeTbl s) m"; cases "route (PipeTbl s) m = Some j")
      (auto simp: delivers_def split: if_splits)
  then show ?thesis
    unfolding route_def using inv [THEN tbl_invD(1)] by (intro scan_cong) (simp_all add: wants_def)
qed

lemma delivers_unread:
  assumes inv: "tbl_inv P (PipeTbl s)" and d: "delivers m bs s s'" and i: "i < 5"
  shows "\<exists>st. pipe_unread (PipeTbl s' ! i) = pipe_unread (PipeTbl s ! i) @ st \<and>
    list_all2 slot_carries st
      (take (31 - length (pipe_unread (PipeTbl s ! i))) (if route (PipeTbl s) m = Some i then [bs] else []))"
proof -
  have r: "ring_ok (PipeTbl s ! i)" using entry_inv_wf [OF tbl_invD(2) [OF inv i]] by simp
  have full: "pipe_full (PipeTbl s ! i) \<longleftrightarrow> 31 - length (pipe_unread (PipeTbl s ! i)) = 0"
    using pipe_full_iff [OF r] r by (auto simp: ring_ok_def)
  show ?thesis
  proof (cases "route (PipeTbl s) m = Some i \<and> \<not> pipe_full (PipeTbl s ! i)")
    case True
    then obtain slot where "pipe_unread (PipeTbl s' ! i) = pipe_unread (PipeTbl s ! i) @ [slot]"
      "slot_carries slot bs" using d by (auto simp: delivers_def)
    then show ?thesis using True full by (intro exI [of _ "[slot]"]) (auto simp: take_Cons')
  next
    case False
    have "PipeTbl s' ! i = PipeTbl s ! i"
    proof (cases "route (PipeTbl s) m = Some i")
      case True
      then show ?thesis using d False by (simp add: delivers_def)
    next
      case ne: False
      then show ?thesis using d by (cases "route (PipeTbl s) m") (simp_all add: delivers_def)
    qed
    then show ?thesis using False full by (intro exI [of _ "[]"]) auto
  qed
qed

lemma frame_sz:
  "length bs < 65536 \<Longrightarrow> unat (of_nat (length bs) :: u16) = length bs"
  by (simp add: unat_of_nat take_bit_nat_eq_self)

lemma take_accum:
  "take (n - length (take n xs)) ys = take (n - length xs) ys"
  by (simp add: min_def)

lemma recv_each_frames:
  fixes s :: "'m::len word client"
  assumes P: "platform_ok P" and K: "packer_ok K enc"
    and "tbl_inv P (PipeTbl s)" and "\<forall>f \<in> set fs. frame_ok P f"
    and "incoming (rd (Sock s fd)) = concat (map frame_bytes fs) @ rest"
  shows "\<exists>s'. recv_each P K g h fd (length fs) s = Inr (replicate (length fs) (CFE_SUCCESS P), s') \<and>
    tbl_inv P (PipeTbl s') \<and> incoming (rd (Sock s' fd)) = rest \<and>
    ending (rd (Sock s' fd)) = ending (rd (Sock s fd)) \<and>
    (\<forall>i < 5. \<exists>st. pipe_unread (PipeTbl s' ! i) = pipe_unread (PipeTbl s ! i) @ st \<and>
       list_all2 slot_carries st
         (take (31 - length (pipe_unread (PipeTbl s ! i))) (routed P h (PipeTbl s) i fs)))"
  using assms(3-5)
proof (induction fs arbitrary: s)
  case Nil
  then show ?case by simp
next
  case (Cons f fs)
  obtain ty cpu bs where f: "f = (ty, cpu, bs)" by (cases f)
  have ok: "control_type P ty \<or> ty = SBN_APP_MSG P" "length bs \<le> CFE_SB_MAX_SB_MSG_SIZE P"
    "length bs < 65536" using Cons.prems(2) by (simp_all add: f frame_ok_def)
  note sz = frame_sz [OF ok(3)]
  have stream: "incoming (rd (Sock s fd)) =
      sbn_header (of_nat (length bs)) ty cpu @ bs @ concat (map frame_bytes fs) @ rest"
    using Cons.prems(3) by (simp add: f)
  let ?new = "\<lambda>i. if ty = SBN_APP_MSG P \<and> route (PipeTbl s) (app_msgid P h bs) = Some i then [bs] else []"
  have "\<exists>s1. recv_msg P K g h fd s = Inr (CFE_SUCCESS P, s1) \<and> tbl_inv P (PipeTbl s1) \<and>
      incoming (rd (Sock s1 fd)) = concat (map frame_bytes fs) @ rest \<and>
      ending (rd (Sock s1 fd)) = ending (rd (Sock s fd)) \<and>
      (\<forall>m' :: 'm word. route (PipeTbl s1) m' = route (PipeTbl s) m') \<and>
      (\<forall>i < 5. \<exists>st. pipe_unread (PipeTbl s1 ! i) = pipe_unread (PipeTbl s ! i) @ st \<and>
         list_all2 slot_carries st (take (31 - length (pipe_unread (PipeTbl s ! i))) (?new i)))"
  proof (cases "ty = SBN_APP_MSG P")
    case True
    obtain s1 where s1: "recv_msg P K g h fd s = Inr (CFE_SUCCESS P, s1)" "tbl_inv P (PipeTbl s1)"
      "incoming (rd (Sock s1 fd)) = concat (map frame_bytes fs) @ rest"
      "ending (rd (Sock s1 fd)) = ending (rd (Sock s fd))"
      and d: "delivers (app_msgid P h bs) bs s s1"
      using recv_msg_app [OF P K Cons.prems(1) stream [unfolded True], of g h] sz ok(2) by auto
    show ?thesis
      using s1 delivers_route [OF Cons.prems(1) s1(2) d] delivers_unread [OF Cons.prems(1) d] True
      by (intro exI [of _ s1]) auto
  next
    case False
    then have "control_type P ty" using ok(1) by simp
    then obtain s1 where s1: "recv_msg P K g h fd s = Inr (CFE_SUCCESS P, s1)" "only_read fd s s1"
      "incoming (rd (Sock s1 fd)) = concat (map frame_bytes fs) @ rest"
      "ending (rd (Sock s1 fd)) = ending (rd (Sock s fd))"
      using recv_msg_control [OF P K _ stream, of g h] sz ok(2) by auto
    have "PipeTbl s1 = PipeTbl s" using s1(2) by (simp add: only_read_def)
    then show ?thesis using s1 Cons.prems(1) False by simp
  qed
  then obtain s1 where s1: "recv_msg P K g h fd s = Inr (CFE_SUCCESS P, s1)" "tbl_inv P (PipeTbl s1)"
      "incoming (rd (Sock s1 fd)) = concat (map frame_bytes fs) @ rest"
      "\<forall>m' :: 'm word. route (PipeTbl s1) m' = route (PipeTbl s) m'"
      "ending (rd (Sock s1 fd)) = ending (rd (Sock s fd))"
    and one: "\<forall>i < 5. \<exists>st. pipe_unread (PipeTbl s1 ! i) = pipe_unread (PipeTbl s ! i) @ st \<and>
         list_all2 slot_carries st (take (31 - length (pipe_unread (PipeTbl s ! i))) (?new i))"
    by blast
  have same: "routed P h (PipeTbl s1) i fs = routed P h (PipeTbl s) i fs" for i
    by (induction fs) (use s1(4) in auto)
  have oks: "\<forall>f \<in> set fs. frame_ok P f" using Cons.prems(2) by simp
  obtain s' where s': "recv_each P K g h fd (length fs) s1 = Inr (replicate (length fs) (CFE_SUCCESS P), s')"
      "tbl_inv P (PipeTbl s')" "incoming (rd (Sock s' fd)) = rest"
      "ending (rd (Sock s' fd)) = ending (rd (Sock s1 fd))"
    and more: "\<forall>i < 5. \<exists>st. pipe_unread (PipeTbl s' ! i) = pipe_unread (PipeTbl s1 ! i) @ st \<and>
       list_all2 slot_carries st
         (take (31 - length (pipe_unread (PipeTbl s1 ! i))) (routed P h (PipeTbl s) i fs))"
    using Cons.IH [OF s1(2) oks s1(3)] unfolding same by blast
  have "\<exists>st. pipe_unread (PipeTbl s' ! i) = pipe_unread (PipeTbl s ! i) @ st \<and>
       list_all2 slot_carries st
         (take (31 - length (pipe_unread (PipeTbl s ! i))) (routed P h (PipeTbl s) i (f # fs)))"
    if i: "i < 5" for i
  proof -
    let ?n = "31 - length (pipe_unread (PipeTbl s ! i))"
    obtain st1 where st1: "pipe_unread (PipeTbl s1 ! i) = pipe_unread (PipeTbl s ! i) @ st1"
      "list_all2 slot_carries st1 (take ?n (?new i))" using one i by blast
    obtain st2 where st2: "pipe_unread (PipeTbl s' ! i) = pipe_unread (PipeTbl s1 ! i) @ st2"
      "list_all2 slot_carries st2
         (take (31 - length (pipe_unread (PipeTbl s1 ! i))) (routed P h (PipeTbl s) i fs))"
      using more i by blast
    have "31 - length (pipe_unread (PipeTbl s1 ! i)) = ?n - length (take ?n (?new i))"
      using st1 list_all2_lengthD [OF st1(2)] by simp
    then have "list_all2 slot_carries (st1 @ st2)
        (take ?n (?new i) @ take (?n - length (?new i)) (routed P h (PipeTbl s) i fs))"
      using st1(2) st2(2) by (simp only: take_accum list_all2_appendI)
    moreover have "routed P h (PipeTbl s) i (f # fs) = ?new i @ routed P h (PipeTbl s) i fs"
      by (simp add: f)
    ultimately show ?thesis using st1(1) st2(1) by (intro exI [of _ "st1 @ st2"]) simp
  qed
  then show ?case using s1(1,5) s' by auto
qed

end
