(* ===== verification/SBN_Recv.thy ===== *)
theory SBN_Recv
  imports SBN_Ingest
begin

text \<open>
  What the receiving side guarantees: one frame, any stream of frames against the queues of the
  pipes, arbitrary (also malformed) input, the message id, and the round trip from
  \<open>__wrap_CFE_SB_SendMsg\<close> of one client to the pipe of another.
\<close>

section \<open>Any seven bytes are a header\<close>

lemma be16_un16: "be16 (un16 a b) = [a, b]"
proof -
  have "(ucast (drop_bit 8 (un16 a b)) :: byte) = a" "(ucast (un16 a b) :: byte) = b"
    by (rule bit_word_eqI; auto simp: un16_def bit_simps dest: bit_imp_le_length)+
  then show ?thesis by (simp add: be16_def)
qed

lemma be32_un32: "be32 (un32 a b c d) = [a, b, c, d]"
proof -
  have "(ucast (drop_bit 24 (un32 a b c d)) :: byte) = a" "(ucast (drop_bit 16 (un32 a b c d)) :: byte) = b"
    "(ucast (drop_bit 8 (un32 a b c d)) :: byte) = c" "(ucast (un32 a b c d) :: byte) = d"
    by (rule bit_word_eqI; auto simp: un32_def bit_simps dest: bit_imp_le_length)+
  then show ?thesis by (simp add: be32_def)
qed

lemma any_header:
  assumes "7 \<le> length bs"
  obtains sz ty cpu where "bs = sbn_header sz ty cpu @ drop 7 bs"
proof -
  obtain b0 b1 b2 b3 b4 b5 b6 where h: "take 7 bs = [b0, b1, b2, b3, b4, b5, b6]"
    using length_7_conv [of "take 7 bs"] assms by auto
  have "bs = take 7 bs @ drop 7 bs" by simp
  also have "take 7 bs = sbn_header (un16 b0 b1) b2 (un32 b3 b4 b5 b6)"
    by (simp add: h sbn_header_def be16_un16 be32_un32)
  finally show thesis using that by blast
qed

section \<open>Arbitrary input\<close>

lemma ReadBytes_no_fault:
  assumes "n \<le> length buf"
  shows "CFE_SBN_Client_ReadBytes P fd buf n s = Inl Blocked \<or>
    (\<exists>st buf' t. CFE_SBN_Client_ReadBytes P fd buf n s = Inr (st, buf', t) \<and> only_read fd s t)"
proof -
  consider (big) "CFE_SB_MAX_SB_MSG_SIZE P < n"
    | (enough) "n \<le> CFE_SB_MAX_SB_MSG_SIZE P" "n \<le> length (incoming (rd (Sock s fd)))"
    | (short) "n \<le> CFE_SB_MAX_SB_MSG_SIZE P" "length (incoming (rd (Sock s fd))) < n"
    by linarith
  then show ?thesis
  proof cases
    case big
    then show ?thesis using ReadBytes_too_big [OF big, of fd buf s] by auto
  next
    case enough
    then show ?thesis using ReadBytes_enough [OF enough(1) assms enough(2)] by auto
  next
    case short
    then show ?thesis using ReadBytes_short [OF short(1) assms short(2)] by (auto split: if_splits)
  qed
qed

lemma recv_msg_short:
  assumes P: "platform_ok P" and "length (incoming (rd (Sock s fd))) < 7"
  shows "if ending (rd (Sock s fd)) = Ends_blocked then recv_msg P K g h fd s = Inl Blocked
    else \<exists>s'. recv_msg P K g h fd s = Inr (short_read_status (ending (rd (Sock s fd))), s') \<and>
      only_read fd s s'"
proof -
  have hdr: "SBN_PACKED_HDR_SZ P = 7" and fits: "7 \<le> CFE_SB_MAX_SB_MSG_SIZE P"
    using platform_okD(12,13) [OF P] by simp_all
  have st: "short_read_status k \<noteq> CFE_SUCCESS P" for k
    using platform_okD(1) [OF P] by (simp add: short_read_status_def)
  have "7 \<le> length (uninit g 7)" by simp
  note short = ReadBytes_short [OF fits this assms(2)]
  show ?thesis
  proof (cases "ending (rd (Sock s fd)) = Ends_blocked")
    case True
    then show ?thesis using short hdr by (simp add: recv_msg_def)
  next
    case False
    then obtain buf' t where "CFE_SBN_Client_ReadBytes P fd (uninit g 7) 7 s =
        Inr (short_read_status (ending (rd (Sock s fd))), buf', t)" "only_read fd s t"
      using short by auto
    then show ?thesis using False st hdr by (simp add: recv_msg_def)
  qed
qed

lemma recv_msg_no_fault:
  assumes P: "platform_ok P" and K: "packer_ok K enc" and inv: "tbl_inv P (PipeTbl s)"
  shows "recv_msg P K g h fd s = Inl Blocked \<or>
    (\<exists>st s'. recv_msg P K g h fd s = Inr (st, s') \<and> tbl_inv P (PipeTbl s'))"
proof (cases "length (incoming (rd (Sock s fd))) < 7")
  case True
  then show ?thesis
    using recv_msg_short [OF P True, of K g h] inv by (auto simp: only_read_def split: if_splits)
next
  case False
  then obtain sz ty cpu where
    stream: "incoming (rd (Sock s fd)) = sbn_header sz ty cpu @ drop 7 (incoming (rd (Sock s fd)))"
    using any_header by (metis not_less)
  let ?u = "uninit h (CFE_SB_MAX_SB_MSG_SIZE P)"
  obtain t where t: "only_read fd s t"
    and run: "recv_msg P K g h fd s =
      (if control_type P ty
       then bindR (CFE_SBN_Client_ReadBytes P fd ?u (unat sz) t) (\<lambda>(st, msg, s2). Inr (st, s2))
       else if ty = SBN_APP_MSG P
       then bindR (ingest_app_message P h fd sz t) (\<lambda>s2. Inr (CFE_SUCCESS P, s2))
       else Inr (CFE_EVS_ERROR P,
                 log_message (''SBN_CLIENT: ERROR - recv_msg unrecognized type %d'' @ [CHR 0x0A])
                   [Int_arg (ucast ty)] t))"
    using recv_msg_header [OF P K stream, of g h] by blast
  have invt: "tbl_inv P (PipeTbl t)" using inv t by (simp add: only_read_def)
  consider (control) "control_type P ty" | (app) "\<not> control_type P ty" "ty = SBN_APP_MSG P"
    | (other) "\<not> control_type P ty" "ty \<noteq> SBN_APP_MSG P" by blast
  then show ?thesis
  proof cases
    case control
    show ?thesis
    proof (cases "CFE_SB_MAX_SB_MSG_SIZE P < unat sz")
      case True
      then show ?thesis
        using run control invt ReadBytes_too_big [OF True, of fd ?u t] by (auto simp: only_read_def)
    next
      case False
      then have "unat sz \<le> length ?u" by simp
      from ReadBytes_no_fault [OF this, of P fd t] show ?thesis
        using run control invt by (auto simp: only_read_def)
    qed
  next
    case app
    then show ?thesis using run ingest_inv [OF P invt, of h fd sz] by auto
  next
    case other
    then show ?thesis using run invt by simp
  qed
qed

section \<open>The message id of a packet\<close>

lemma nth_overwrite_0: "k < length bs \<Longrightarrow> overwrite m 0 bs ! k = bs ! k"
  by (simp add: overwrite_def nth_append)

lemma app_msgid_v1:
  assumes P: "platform_ok P" and V: "ccsds_v1_ok P"
    and "2 \<le> length bs" "length bs \<le> CFE_SB_MAX_SB_MSG_SIZE P"
  shows "app_msgid P h bs = of_nat (unat (bs ! 0) * 256 + unat (bs ! 1))"
proof -
  let ?m = "overwrite (uninit h (CFE_SB_MAX_SB_MSG_SIZE P)) 0 bs"
  have "6 \<le> length ?m" using assms(4) platform_okD(13) [OF P] by simp
  then have "CCSDS_RD_SID P ?m = unat (?m ! 0) * 256 + unat (?m ! 1)"
    using V by (simp add: ccsds_v1_ok_def)
  also have "\<dots> = unat (bs ! 0) * 256 + unat (bs ! 1)"
  proof -
    have "0 < length bs" "1 < length bs" using assms(3) by linarith+
    then show ?thesis by (simp only: nth_overwrite_0)
  qed
  finally show ?thesis using V by (simp add: app_msgid_def CFE_SBN_Client_GetMsgId_def ccsds_v1_ok_def)
qed

lemma app_msgid_v1_runt:
  assumes P: "platform_ok P" and V: "ccsds_v1_ok P"
  shows "app_msgid P h [] = of_nat (unat (h 0) * 256 + unat (h 1))"
proof -
  let ?m = "uninit h (CFE_SB_MAX_SB_MSG_SIZE P)"
  have len: "7 \<le> CFE_SB_MAX_SB_MSG_SIZE P" by (rule platform_okD(13) [OF P])
  then have "CCSDS_RD_SID P ?m = unat (?m ! 0) * 256 + unat (?m ! 1)"
    using V by (simp add: ccsds_v1_ok_def)
  then show ?thesis
    using V len by (simp add: app_msgid_def CFE_SBN_Client_GetMsgId_def ccsds_v1_ok_def uninit_def)
qed

lemma route_first:
  assumes "tbl_inv P tbl" and "i < 5" and "wants m (tbl ! i)" and "\<forall>j < i. \<not> wants m (tbl ! j)"
  shows "route tbl m = Some i"
  using assms tbl_invD(1) [OF assms(1)] by (simp add: route_def scan_Some)

lemma route_client_subscribed: "route (PipeTbl (client_subscribed P m)) m = Some 0"
  by (rule route_first [OF client_subscribed_inv])
    (simp_all add: wants_def client_subscribed_entry numeral_eq_Suc)

section \<open>Properties\<close>

text \<open>
  C18. Delivery refines the pipes as queues: for every stream that consists of well-formed frames, cut
  into reads in any way, as many calls of \<open>recv_msg\<close> as there are frames all succeed and consume
  exactly these frames. Afterwards each pipe has received, in order and behind what was unread,
  the application payloads routed to it (the first pipe in use with a matching slot), up to its
  capacity, each at the start of a slot; the table invariant holds.
\<close>

theorem stream_to_queues:
  fixes s :: "'m::len word client"
  assumes "platform_ok P" and "packer_ok K enc"
    and "tbl_inv P (PipeTbl s)" and "\<forall>f \<in> set fs. frame_ok P f"
    and "incoming (rd (Sock s fd)) = concat (map frame_bytes fs) @ rest"
  shows "\<exists>s'. recv_each P K g h fd (length fs) s = Inr (replicate (length fs) (CFE_SUCCESS P), s') \<and>
    tbl_inv P (PipeTbl s') \<and> incoming (rd (Sock s' fd)) = rest \<and>
    ending (rd (Sock s' fd)) = ending (rd (Sock s fd)) \<and>
    (\<forall>i < 5. \<exists>st. pipe_unread (PipeTbl s' ! i) = pipe_unread (PipeTbl s ! i) @ st \<and>
       list_all2 slot_carries st
         (take (31 - length (pipe_unread (PipeTbl s ! i))) (routed P h (PipeTbl s) i fs)))"
  using assms by (rule recv_each_frames)

text \<open>
  C19. One frame, every branch. A control frame (the heartbeat, protocol, subscription types) is read
  and discarded; an application frame is delivered under the mutex; in both cases the call
  succeeds and the stream is at the next frame. A frame that announces more than the largest
  message, or whose type is unknown, changes no pipe, and its payload stays in the stream, to be
  read as the next header; only an application frame then reports success.
\<close>

theorem recv_msg_frame:
  fixes s :: "'m::len word client"
  assumes P: "platform_ok P" and K: "packer_ok K enc" and inv: "tbl_inv P (PipeTbl s)"
    and stream: "incoming (rd (Sock s fd)) = sbn_header sz ty cpu @ bs @ rest"
    and len: "length bs = unat sz"
  shows "\<exists>st s'. recv_msg P K g h fd s = Inr (st, s') \<and> tbl_inv P (PipeTbl s') \<and>
    (if control_type P ty
     then PipeTbl s' = PipeTbl s \<and> Sync s' = Sync s \<and>
       (if unat sz \<le> CFE_SB_MAX_SB_MSG_SIZE P
        then st = CFE_SUCCESS P \<and> incoming (rd (Sock s' fd)) = rest
        else st = CFE_SB_BAD_ARGUMENT P \<and> incoming (rd (Sock s' fd)) = bs @ rest)
     else if ty = SBN_APP_MSG P
     then st = CFE_SUCCESS P \<and>
       (if unat sz \<le> CFE_SB_MAX_SB_MSG_SIZE P
        then delivers (app_msgid P h bs) bs s s' \<and> incoming (rd (Sock s' fd)) = rest
        else PipeTbl s' = PipeTbl s \<and> Sync s' = Sync s \<and> incoming (rd (Sock s' fd)) = bs @ rest)
     else st = CFE_EVS_ERROR P \<and> PipeTbl s' = PipeTbl s \<and> Sync s' = Sync s \<and>
       incoming (rd (Sock s' fd)) = bs @ rest)"
proof (cases "\<not> control_type P ty \<and> ty \<noteq> SBN_APP_MSG P \<or> CFE_SB_MAX_SB_MSG_SIZE P < unat sz")
  case True
  obtain s' where s': "recv_msg P K g h fd s =
      Inr (if control_type P ty then CFE_SB_BAD_ARGUMENT P
           else if ty = SBN_APP_MSG P then CFE_SUCCESS P else CFE_EVS_ERROR P, s')"
    "only_read fd s s'" "incoming (rd (Sock s' fd)) = bs @ rest"
    using recv_msg_left [OF P K stream True, of g h] by blast
  show ?thesis
    by (intro exI conjI, rule s'(1)) (use s'(2,3) inv True in \<open>auto simp: only_read_def\<close>)
next
  case False
  then have fits: "unat sz \<le> CFE_SB_MAX_SB_MSG_SIZE P" by simp
  show ?thesis
  proof (cases "control_type P ty")
    case True
    then show ?thesis
      using recv_msg_control [OF P K True stream len fits, of g h] inv fits by (auto simp: only_read_def)
  next
    case no: False
    then have app: "ty = SBN_APP_MSG P" using False by simp
    then show ?thesis
      using recv_msg_app [OF P K inv stream [unfolded app] len fits, of g h] no fits by auto
  qed
qed

text \<open>
  C20. Arbitrary input is safe: whatever bytes the peer sends, in whatever chunks, and whatever the
  uninitialised buffers hold, \<open>recv_msg\<close> makes no access outside its buffers, the table or the
  rings; it waits for more input or returns with the table invariant intact. If the stream ends
  within a header, the status is that of the broken or closed connection and no pipe changes.
\<close>

theorem recv_msg_safe:
  assumes "platform_ok P" and "packer_ok K enc" and "tbl_inv P (PipeTbl s)"
  shows "(recv_msg P K g h fd s = Inl Blocked \<or>
      (\<exists>st s'. recv_msg P K g h fd s = Inr (st, s') \<and> tbl_inv P (PipeTbl s'))) \<and>
    (length (incoming (rd (Sock s fd))) < 7 \<and> ending (rd (Sock s fd)) \<noteq> Ends_blocked \<longrightarrow>
      (\<exists>s'. recv_msg P K g h fd s = Inr (short_read_status (ending (rd (Sock s fd))), s') \<and>
        PipeTbl s' = PipeTbl s))"
  using recv_msg_no_fault [OF assms] recv_msg_short [OF assms(1), of s fd K g h]
  by (auto simp: only_read_def)

text \<open>A client that waits for what \<open>es\<close> brings on socket 0.\<close>

definition listening :: "rd_event list \<Rightarrow> 'i client \<Rightarrow> 'i client" where
  "listening es s = set_rd 0 es s"

lemma listening_fields [simp]:
  "PipeTbl (listening es s) = PipeTbl s" "rd (Sock (listening es s) 0) = es"
  by (simp_all add: listening_def)

theorem stream_to_queues_witness:
  "\<exists>s' :: 16 word client. recv_each cfs_small list_packer (\<lambda>_. 0) (\<lambda>_. 0) 0 2
      (listening [Rd_Data [0, 0, 0xA0, 0], Rd_Data [0, 0, 1, 0, 2, 3, 0, 0, 0, 1, 24, 1]]
        (client_subscribed cfs_small 0x1801)) = Inr ([0, 0], s') \<and>
    (\<exists>slot. pipe_unread (PipeTbl s' ! 0) = [slot] \<and> slot_carries slot [24, 1])"
proof -
  let ?s = "listening [Rd_Data [0, 0, 0xA0, 0], Rd_Data [0, 0, 1, 0, 2, 3, 0, 0, 0, 1, 24, 1]]
        (client_subscribed cfs_small 0x1801) :: 16 word client"
  let ?fs = "[(0xA0, 1, []), (3, 1, [24, 1])] :: frame list"
  have inv: "tbl_inv cfs_small (PipeTbl ?s)" by simp
  have ok: "\<forall>f \<in> set ?fs. frame_ok cfs_small f" by (simp add: frame_ok_def control_type_def)
  have stream: "incoming (rd (Sock ?s 0)) = concat (map frame_bytes ?fs) @ []"
    by (simp add: sbn_header_def be16_def be32_def)
  have id: "app_msgid cfs_small (\<lambda>_. 0) [24, 1] = (0x1801 :: 16 word)"
    by (subst app_msgid_v1) simp_all
  have new: "routed cfs_small (\<lambda>_. 0) (PipeTbl ?s) 0 ?fs = [[24, 1]]"
    by (simp add: id route_client_subscribed)
  have old: "pipe_unread (PipeTbl ?s ! 0) = []" by (simp add: client_subscribed_entry)
  have len: "length ?fs = 2" "replicate 2 (CFE_SUCCESS cfs_small) = [0, 0]"
    by (simp_all add: numeral_2_eq_2)
  obtain s' where run: "recv_each cfs_small list_packer (\<lambda>_. 0) (\<lambda>_. 0) 0 2 ?s = Inr ([0, 0], s')"
    and "\<forall>i < 5. \<exists>st. pipe_unread (PipeTbl s' ! i) = pipe_unread (PipeTbl ?s ! i) @ st \<and>
       list_all2 slot_carries st (take (31 - length (pipe_unread (PipeTbl ?s ! i)))
         (routed cfs_small (\<lambda>_. 0) (PipeTbl ?s) i ?fs))"
    using stream_to_queues [OF platform_ok_cfs(2) packer_ok_list_packer inv ok stream,
        of "\<lambda>_. 0" "\<lambda>_. 0", unfolded len] by blast
  then have "\<exists>st. pipe_unread (PipeTbl s' ! 0) = pipe_unread (PipeTbl ?s ! 0) @ st \<and>
       list_all2 slot_carries st (take (31 - length (pipe_unread (PipeTbl ?s ! 0)))
         (routed cfs_small (\<lambda>_. 0) (PipeTbl ?s) 0 ?fs))" by (meson zero_less_numeral)
  then have "\<exists>st. pipe_unread (PipeTbl s' ! 0) = st \<and> list_all2 slot_carries st [[24, 1]]"
    unfolding old new by simp
  then have "\<exists>slot. pipe_unread (PipeTbl s' ! 0) = [slot] \<and> slot_carries slot [24, 1]"
    by (auto simp: list_all2_Cons2)
  with run show ?thesis by blast
qed

theorem recv_msg_frame_witness:
  "\<exists>s' :: 16 word client. recv_msg cfs_small list_packer (\<lambda>_. 0) (\<lambda>_. 0) 0
      (listening [Rd_Data [0, 2, 9, 0, 0, 0, 1, 5, 6]] (ready_client cfs_small)) = Inr (3, s') \<and>
    incoming (rd (Sock s' 0)) = [5, 6]"
proof -
  let ?s = "listening [Rd_Data [0, 2, 9, 0, 0, 0, 1, 5, 6]] (ready_client cfs_small) :: 16 word client"
  have inv: "tbl_inv cfs_small (PipeTbl ?s)" by simp
  have stream: "incoming (rd (Sock ?s 0)) = sbn_header 2 9 1 @ [5, 6] @ []"
    by (simp add: sbn_header_def be16_def be32_def)
  show ?thesis
    using recv_msg_frame [OF platform_ok_cfs(2) packer_ok_list_packer inv stream, of "\<lambda>_. 0" "\<lambda>_. 0"]
    by (auto simp: control_type_def)
qed

theorem recv_msg_safe_witness:
  "\<exists>s' :: 16 word client. recv_msg cfs_small list_packer (\<lambda>_. 0) (\<lambda>_. 0) 0
      (listening [Rd_Data [0, 2, 9], Rd_Close] (ready_client cfs_small)) = Inr (1011, s') \<and>
    PipeTbl s' = PipeTbl (ready_client cfs_small)"
proof -
  let ?s = "listening [Rd_Data [0, 2, 9], Rd_Close] (ready_client cfs_small) :: 16 word client"
  have inv: "tbl_inv cfs_small (PipeTbl ?s)" by simp
  show ?thesis
    using recv_msg_safe [OF platform_ok_cfs(2) packer_ok_list_packer inv, of "\<lambda>_. 0" "\<lambda>_. 0" 0]
    by (simp add: short_read_status_def)
qed

text \<open>
  C21. Round trip between two clients: a packet that \<open>__wrap_CFE_SB_SendMsg\<close> of one client puts on its
  socket, arriving at another client in any chunks, is read by one \<open>recv_msg\<close> and appended to the
  first pipe subscribed to its id, with exactly the bytes that were sent.
\<close>

theorem send_receive_roundtrip:
  fixes b :: "'m::len word client"
  assumes P: "platform_ok P" and K: "packer_ok K enc"
    and sz: "sz = CFE_SBN_Client_GetTotalMsgLength P msg" "unat sz = length msg"
    and fits: "length msg + 7 \<le> CFE_SB_MAX_SB_MSG_SIZE P"
    and ok: "wr (Sock a (sbn_client_sockfd a)) = []"
    and inv: "tbl_inv P (PipeTbl b)"
    and r: "route (PipeTbl b) (app_msgid P h msg) = Some i" and room: "length (pipe_unread (PipeTbl b ! i)) < 31"
    and stream: "incoming (rd (Sock b fd)) = app_frame P (sbn_client_cpuId a) sz msg @ rest"
  shows "\<exists>a' b' slot. wrap_CFE_SB_SendMsg P K True g' msg a = Inr (CFE_SUCCESS P, a') \<and>
    sent (Sock a' (sbn_client_sockfd a)) =
      sent (Sock a (sbn_client_sockfd a)) @ app_frame P (sbn_client_cpuId a) sz msg \<and>
    recv_msg P K g h fd b = Inr (CFE_SUCCESS P, b') \<and> incoming (rd (Sock b' fd)) = rest \<and>
    pipe_unread (PipeTbl b' ! i) = pipe_unread (PipeTbl b ! i) @ [slot] \<and> take (length msg) slot = msg"
proof -
  let ?fd = "sbn_client_sockfd a" and ?f = "app_frame P (sbn_client_cpuId a) sz msg"
  have le: "unat sz \<le> length msg" "unat sz + 7 \<le> CFE_SB_MAX_SB_MSG_SIZE P" using sz(2) fits by simp_all
  have w: "sock_write ?f (Sock a ?fd) =
      (of_nat (unat sz + 7), (Sock a ?fd)\<lparr>sent := sent (Sock a ?fd) @ ?f\<rparr>)"
    using ok length_app_frame [OF le(1)] by (simp add: sock_write_def add.commute)
  obtain a' where a': "wrap_CFE_SB_SendMsg P K True g' msg a = Inr (CFE_SUCCESS P, a')"
    "sent (Sock a' ?fd) = sent (Sock a ?fd) @ ?f"
    using SendMsg_write [OF P K sz(1) le, of g' a] unfolding w by (simp add: Let_def)
  have stream': "incoming (rd (Sock b fd)) = sbn_header sz (SBN_APP_MSG P) (sbn_client_cpuId a) @ msg @ rest"
    using stream sz(2) by (simp add: app_frame_def)
  have "unat sz \<le> CFE_SB_MAX_SB_MSG_SIZE P" using le(2) by simp
  then obtain b' where b': "recv_msg P K g h fd b = Inr (CFE_SUCCESS P, b')"
    "incoming (rd (Sock b' fd)) = rest" and d: "delivers (app_msgid P h msg) msg b b'"
    using recv_msg_app [OF P K inv stream', of g h] sz(2) by auto
  have "ring_ok (PipeTbl b ! i)"
    using entry_inv_wf [OF tbl_invD(2) [OF inv route_SomeD(1) [OF r inv]]] by simp
  then have "\<not> pipe_full (PipeTbl b ! i)" using room by (simp add: pipe_full_iff)
  then obtain slot where "pipe_unread (PipeTbl b' ! i) = pipe_unread (PipeTbl b ! i) @ [slot]"
    "slot_carries slot msg" using d r by (auto simp: delivers_def)
  then show ?thesis using a' b' by (auto simp: slot_carries_def)
qed

theorem send_receive_roundtrip_witness:
  "\<exists>a' b' slot. wrap_CFE_SB_SendMsg cfs_small list_packer True (\<lambda>_. 0) [24, 1, 192, 0, 0, 1, 7, 9]
      (client_with_pipe cfs_small) = Inr (0, a') \<and>
    recv_msg cfs_small list_packer (\<lambda>_. 0) (\<lambda>_. 0) 0
      (listening [Rd_Data [0, 8, 3], Rd_Data [0, 0, 0, 0, 24, 1, 192], Rd_Data [0, 0, 1, 7, 9]]
        (client_subscribed cfs_small 0x1801)) = Inr (0, b' :: 16 word client) \<and>
    pipe_unread (PipeTbl b' ! 0) = [slot] \<and> take 8 slot = [24, 1, 192, 0, 0, 1, 7, 9]"
proof -
  let ?m = "[24, 1, 192, 0, 0, 1, 7, 9] :: byte list"
  let ?b = "listening [Rd_Data [0, 8, 3], Rd_Data [0, 0, 0, 0, 24, 1, 192], Rd_Data [0, 0, 1, 7, 9]]
        (client_subscribed cfs_small 0x1801) :: 16 word client"
  have sz: "8 = CFE_SBN_Client_GetTotalMsgLength cfs_small ?m"
    by (simp add: CFE_SBN_Client_GetTotalMsgLength_def)
  have len: "unat (8 :: u16) = length ?m" "length ?m + 7 \<le> CFE_SB_MAX_SB_MSG_SIZE cfs_small" by simp_all
  have l8: "length ?m = 8" by simp
  have ok: "wr (Sock (client_with_pipe cfs_small) (sbn_client_sockfd (client_with_pipe cfs_small))) = []"
    by simp
  have inv: "tbl_inv cfs_small (PipeTbl ?b)" by simp
  have id: "app_msgid cfs_small (\<lambda>_. 0) ?m = (0x1801 :: 16 word)" by (subst app_msgid_v1) simp_all
  have r: "route (PipeTbl ?b) (app_msgid cfs_small (\<lambda>_. 0) ?m) = Some 0"
    by (simp add: id route_client_subscribed)
  have room: "length (pipe_unread (PipeTbl ?b ! 0)) < 31" by (simp add: client_subscribed_entry)
  have stream: "incoming (rd (Sock ?b 0)) =
      app_frame cfs_small (sbn_client_cpuId (client_with_pipe cfs_small)) 8 ?m @ []"
    by (simp add: app_frame_def sbn_header_def be16_def be32_def)
  show ?thesis
    using send_receive_roundtrip [OF platform_ok_cfs(2) packer_ok_list_packer sz len ok inv r room stream,
        of "\<lambda>_. 0" "\<lambda>_. 0", unfolded l8]
    by (auto simp: client_subscribed_entry)
qed

text \<open>
  The id a message is routed by: for CCSDS version 1 packets of at least two bytes it is the
  first two bytes, high byte first, whatever the uninitialised part of the buffer holds. A frame
  that announces no payload is delivered all the same, under an id made of the two bytes the
  stack happens to hold, so it can reach any subscription.
\<close>

theorem app_message_id:
  assumes P: "platform_ok P" and V: "ccsds_v1_ok P"
  shows "(2 \<le> length bs \<and> length bs \<le> CFE_SB_MAX_SB_MSG_SIZE P \<longrightarrow>
      app_msgid P h bs = (of_nat (unat (bs ! 0) * 256 + unat (bs ! 1)) :: 'm::len word)) \<and>
    app_msgid P h [] = (of_nat (unat (h 0) * 256 + unat (h 1)) :: 'm word) \<and>
    (\<exists>h'. app_msgid P h' [] = (of_nat (unat (w :: u16)) :: 'm word))"
proof (intro conjI impI)
  show "app_msgid P h bs = (of_nat (unat (bs ! 0) * 256 + unat (bs ! 1)) :: 'm word)"
    if "2 \<le> length bs \<and> length bs \<le> CFE_SB_MAX_SB_MSG_SIZE P"
    using that app_msgid_v1 [OF P V] by blast
  show "app_msgid P h [] = (of_nat (unat (h 0) * 256 + unat (h 1)) :: 'm word)"
    by (rule app_msgid_v1_runt [OF P V])
  let ?h = "\<lambda>k :: nat. if k = 0 then of_nat (unat w div 256) else of_nat (unat w mod 256)"
  have "unat w < 65536" using unsigned_less [of w] by simp
  then have "unat w div 256 < 256" by (simp add: less_mult_imp_div_less)
  then have "unat (of_nat (unat w div 256) :: byte) * 256 + unat (of_nat (unat w mod 256) :: byte) = unat w"
    by (simp add: unat_of_nat take_bit_nat_eq_self)
  then have "app_msgid P ?h [] = (of_nat (unat w) :: 'm word)" by (simp only: app_msgid_v1_runt [OF P V]) simp
  then show "\<exists>h'. app_msgid P h' [] = (of_nat (unat w) :: 'm word)" by blast
qed

theorem app_message_id_witness:
  "app_msgid cfs_small (\<lambda>_. 0) [24, 1] = (0x1801 :: 16 word) \<and>
   (\<exists>h'. app_msgid cfs_small h' [] = (0x1801 :: 16 word))"
  using app_message_id [OF platform_ok_cfs(2) ccsds_v1_ok_cfs(2), where 'm = 16, of "[24, 1]" "\<lambda>_. 0" 6145]
  by simp


text \<open>A client with two pipes subscribed to the same id.\<close>

definition client_two :: "platform \<Rightarrow> 'm::len word \<Rightarrow> 'm word client" where
  "client_two P m =
     with_entry 1 (subscribed_entry 0 m (created_pipe P 1 [0x62] (fresh_pipe P))) (client_subscribed P m)"

lemma client_two_inv: "tbl_inv P (PipeTbl (client_two P (m :: 'm::len word)))"
proof -
  have "entry_inv P 1 (PipeTbl (ready_client P :: 'm word client) ! 1)"
    by (rule tbl_invD(2) [OF tbl_inv_ready]) simp
  then have "entry_inv P 1 (subscribed_entry 0 m (created_pipe P 1 [0x62] (fresh_pipe P)))"
    by (intro subscribed_entry_inv created_pipe_entry_inv) (simp_all add: ready_client_entry)
  then show ?thesis
    unfolding client_two_def with_entry_frame by (intro tbl_inv_update client_subscribed_inv)
qed

lemma client_two_wants: "i < 2 \<Longrightarrow> wants m (PipeTbl (client_two P m) ! i)"
  by (auto simp: client_two_def wants_def client_subscribed_entry numeral_eq_Suc less_Suc_eq
      tbl_invD(1) [OF client_subscribed_inv])


end
