(* ===== verification/SBN_Clock.thy ===== *)
theory SBN_Clock
  imports SBN_Prelude
begin

text \<open>
  The deadline of a timed receive (\<open>sbn_client_wrappers.c\<close>). The code mixes \<open>long\<close> and
  \<open>double\<close>: \<open>pow\<close> returns a \<open>double\<close>, so the nanoseconds and the seconds of the deadline are
  computed in binary floating point and truncated back. All values are non-negative and below
  \<open>2 ^ 53\<close>, where a \<open>double\<close> is a fraction \<open>m / 2 ^ k\<close> with a significand \<open>m\<close> of 53 bits;
  \<open>dbl\<close> rounds to the nearest one, ties to even.
\<close>

section \<open>Time values\<close>

datatype timespec = Timespec (tv_sec: nat) (tv_nsec: nat)

instantiation timespec :: linorder
begin

definition less_eq_timespec :: "timespec \<Rightarrow> timespec \<Rightarrow> bool" where
  "less_eq_timespec a b \<longleftrightarrow> tv_sec a < tv_sec b \<or> tv_sec a = tv_sec b \<and> tv_nsec a \<le> tv_nsec b"

definition less_timespec :: "timespec \<Rightarrow> timespec \<Rightarrow> bool" where
  "less_timespec a b \<longleftrightarrow> tv_sec a < tv_sec b \<or> tv_sec a = tv_sec b \<and> tv_nsec a < tv_nsec b"

instance
  by standard (auto simp: less_eq_timespec_def less_timespec_def intro: timespec.expand)

end

text \<open>A valid time value, and the nanoseconds it stands for.\<close>

definition timespec_ok :: "timespec \<Rightarrow> bool" where
  "timespec_ok t \<longleftrightarrow> tv_nsec t < 10 ^ 9"

definition nanos :: "timespec \<Rightarrow> nat" where
  "nanos t = tv_sec t * 10 ^ 9 + tv_nsec t"

lemma nanos_less:
  assumes "timespec_ok a" and "timespec_ok b"
  shows "a < b \<longleftrightarrow> nanos a < nanos b"
proof -
  have "tv_sec a * 10 ^ 9 + tv_nsec a < tv_sec b * 10 ^ 9 + tv_nsec b" if "tv_sec a < tv_sec b"
  proof -
    have "Suc (tv_sec a) * 10 ^ 9 \<le> tv_sec b * 10 ^ 9" using that by (intro mult_le_mono1) simp
    then show ?thesis using assms by (simp add: timespec_ok_def)
  qed
  moreover have "\<not> tv_sec a * 10 ^ 9 + tv_nsec a < tv_sec b * 10 ^ 9 + tv_nsec b" if "tv_sec b < tv_sec a"
  proof -
    have "Suc (tv_sec b) * 10 ^ 9 \<le> tv_sec a * 10 ^ 9" using that by (intro mult_le_mono1) simp
    then show ?thesis using assms by (simp add: timespec_ok_def)
  qed
  ultimately show ?thesis
    by (cases "tv_sec a" "tv_sec b" rule: linorder_cases) (auto simp: less_timespec_def nanos_def)
qed

section \<open>Rounding to a double\<close>

definition round_half_even :: "nat \<Rightarrow> nat \<Rightarrow> nat" where
  "round_half_even a b =
     (let q = a div b; r = a mod b
      in if 2 * r < b \<or> 2 * r = b \<and> even q then q else q + 1)"

text \<open>The least \<open>k\<close>, from the given one on, for which \<open>a * 2 ^ k / b\<close> has 53 bits.\<close>

function scale :: "nat \<Rightarrow> nat \<Rightarrow> nat \<Rightarrow> nat" where
  "scale a b k = (if a = 0 \<or> 2 ^ 52 * b \<le> a * 2 ^ k then k else scale a b (Suc k))"
  by pat_completeness auto
termination
  by (relation "measure (\<lambda>(a, b, k). 2 ^ 52 * b - a * 2 ^ k)") (auto intro!: diff_less_mono2)

declare scale.simps [simp del]

definition dbl :: "nat \<Rightarrow> nat \<Rightarrow> nat \<times> nat" where
  "dbl a b = (let k = scale a b 0 in (round_half_even (a * 2 ^ k) b, k))"

text \<open>\<open>(long) (tv_sec + tv_nsec / pow (10, 9))\<close>: one rounded division, one rounded sum.\<close>

definition add_seconds :: "nat \<Rightarrow> nat \<Rightarrow> nat" where
  "add_seconds sec nsec =
     (let (m1, k1) = dbl nsec (10 ^ 9);
          (m2, k2) = dbl (sec * 2 ^ k1 + m1) (2 ^ k1)
      in m2 div 2 ^ k2)"

text \<open>The nanoseconds of the sum are exact: \<open>TimeOut * pow (10, 6)\<close> is below \<open>2 ^ 53\<close>.\<close>

definition deadline :: "timespec \<Rightarrow> i32 \<Rightarrow> timespec" where
  "deadline enter_time TimeOut =
     (let sec = tv_sec enter_time;
          nsec = tv_nsec enter_time + unat TimeOut * 10 ^ 6
      in if nsec \<ge> 10 ^ 9 then Timespec (add_seconds sec nsec) (nsec mod 10 ^ 9)
         else Timespec sec nsec)"

section \<open>Error of the rounding\<close>

lemma scale_enough: "a \<noteq> 0 \<Longrightarrow> 2 ^ 52 * b \<le> a * 2 ^ scale a b k"
  by (induction a b k rule: scale.induct) (subst scale.simps, auto)

text \<open>The scale computed without running the search.\<close>

lemma scale_eq:
  assumes "a \<noteq> 0" and "2 ^ 52 * b \<le> a * 2 ^ Suc k" and "\<not> 2 ^ 52 * b \<le> a * 2 ^ k"
  shows "scale a b 0 = Suc k"
proof -
  have "scale a b j = Suc k" if "j \<le> Suc k" for j
    using that
  proof (induction "Suc k - j" arbitrary: j)
    case 0
    then show ?case using assms(2) by (subst scale.simps) simp
  next
    case (Suc d)
    then have "j \<le> k" by simp
    then have "a * 2 ^ j \<le> a * 2 ^ k" by simp
    then have "\<not> 2 ^ 52 * b \<le> a * 2 ^ j" using assms(3) by linarith
    then have "scale a b j = scale a b (Suc j)" using assms(1) by (subst scale.simps) simp
    then show ?case using Suc.hyps(1) [of "Suc j"] Suc.hyps(2) \<open>j \<le> k\<close> by simp
  qed
  then show ?thesis by simp
qed

lemma round_half_even_near:
  assumes "0 < b"
  shows "2 * (round_half_even a b * b) \<le> 2 * a + b" "2 * a \<le> 2 * (round_half_even a b * b) + b"
proof -
  let ?q = "a div b" and ?r = "a mod b" and ?n = "round_half_even a b"
  have a: "2 * a = 2 * (?q * b) + 2 * ?r" by (simp flip: distrib_left)
  have m: "?r < b" using assms by simp
  consider (down) "?n = ?q" "2 * ?r \<le> b" | (up) "?n = ?q + 1" "b \<le> 2 * ?r"
    by (cases "2 * ?r < b \<or> 2 * ?r = b \<and> even ?q") (auto simp: round_half_even_def Let_def)
  then have "2 * (?n * b) \<le> 2 * a + b \<and> 2 * a \<le> 2 * (?n * b) + b"
    using a m by cases (simp_all add: add_mult_distrib)
  then show "2 * (?n * b) \<le> 2 * a + b" "2 * a \<le> 2 * (?n * b) + b" by simp_all
qed

lemma round_half_even_le: "0 < b \<Longrightarrow> a \<le> n * b \<Longrightarrow> round_half_even a b \<le> n"
proof -
  assume b: "0 < b" and a: "a \<le> n * b"
  show ?thesis
  proof (cases "a = n * b")
    case True
    then show ?thesis using b by (simp add: round_half_even_def Let_def)
  next
    case False
    then have "a div b < n" using a b by (simp add: less_mult_imp_div_less)
    then show ?thesis by (simp add: round_half_even_def Let_def)
  qed
qed

lemma round_half_even_ge:
  assumes "0 < b" and "n * b \<le> a"
  shows "n \<le> round_half_even a b"
proof -
  have "n \<le> a div b" using assms by (simp add: less_eq_div_iff_mult_less_eq)
  then show ?thesis by (simp add: round_half_even_def Let_def)
qed

text \<open>The floor of the exact sum is a bound for both roundings, and so is the next integer.\<close>

lemma dbl_between:
  assumes "0 < b" and "n * b \<le> a" and "a \<le> n' * b" and "dbl a b = (m, k)"
  shows "n * 2 ^ k \<le> m" "m \<le> n' * 2 ^ k"
proof -
  have m: "m = round_half_even (a * 2 ^ k) b" "k = scale a b 0"
    using assms(4) by (auto simp: dbl_def Let_def)
  have "n * 2 ^ k * b = n * b * 2 ^ k" "n' * 2 ^ k * b = n' * b * 2 ^ k" by simp_all
  then have "n * 2 ^ k * b \<le> a * 2 ^ k" "a * 2 ^ k \<le> n' * 2 ^ k * b"
    using assms(2,3) by (simp_all del: mult.assoc)
  then show "n * 2 ^ k \<le> m" "m \<le> n' * 2 ^ k"
    using assms(1) unfolding m(1) by (blast intro: round_half_even_ge round_half_even_le)+
qed

lemma next_multiple: "0 < b \<Longrightarrow> n + 1 \<le> (n div b + 1) * (b :: nat)"
  using dividend_less_div_times [of b n] by (simp add: algebra_simps)

lemma add_seconds_steps:
  obtains m1 k1 m2 k2 where "dbl n (10 ^ 9) = (m1, k1)" "dbl (s * 2 ^ k1 + m1) (2 ^ k1) = (m2, k2)"
    "add_seconds s n = m2 div 2 ^ k2" "(n div 10 ^ 9) * 2 ^ k1 \<le> m1" "m1 \<le> (n div 10 ^ 9 + 1) * 2 ^ k1"
    "(s + n div 10 ^ 9) * 2 ^ k2 \<le> m2" "m2 \<le> (s + n div 10 ^ 9 + 1) * 2 ^ k2"
proof -
  let ?F = "n div 10 ^ 9"
  obtain m1 k1 where d1: "dbl n (10 ^ 9) = (m1, k1)" by fastforce
  obtain m2 k2 where d2: "dbl (s * 2 ^ k1 + m1) (2 ^ k1) = (m2, k2)" by fastforce
  have "n + 1 \<le> (?F + 1) * 10 ^ 9" by (rule next_multiple) simp
  then have F: "?F * 10 ^ 9 \<le> n" "n \<le> (?F + 1) * 10 ^ 9" by (simp_all only: div_times_less_eq_dividend)
  have one: "?F * 2 ^ k1 \<le> m1" "m1 \<le> (?F + 1) * 2 ^ k1"
    using dbl_between [OF _ F d1] by simp_all
  have "(s + ?F) * 2 ^ k1 \<le> s * 2 ^ k1 + m1" "s * 2 ^ k1 + m1 \<le> (s + ?F + 1) * 2 ^ k1"
    using one by (simp_all add: algebra_simps)
  note two = dbl_between [OF _ this d2]
  show thesis using that [OF d1 d2 _ one] two d1 d2 by (simp add: add_seconds_def)
qed

lemma add_seconds_bounds:
  "s + n div 10 ^ 9 \<le> add_seconds s n" "add_seconds s n \<le> s + n div 10 ^ 9 + 1"
proof -
  obtain m2 k2 where a: "add_seconds s n = m2 div 2 ^ k2"
    and m: "(s + n div 10 ^ 9) * 2 ^ k2 \<le> m2" "m2 \<le> (s + n div 10 ^ 9 + 1) * 2 ^ k2"
    using add_seconds_steps [of n s] by metis
  have "(0 :: nat) < 2 ^ k2" by simp
  then show "s + n div 10 ^ 9 \<le> add_seconds s n" "add_seconds s n \<le> s + n div 10 ^ 9 + 1"
    using div_le_mono [OF m(1), of "2 ^ k2"] div_le_mono [OF m(2), of "2 ^ k2"] unfolding a by simp_all
qed

lemma pow2_at_least_30:
  assumes "0 < b" and "2 ^ 52 * b \<le> a * p" and "a \<le> 2 ^ 22 * b"
  shows "2 ^ 30 \<le> (p :: nat)"
proof -
  have "2 ^ 52 * b \<le> 2 ^ 22 * b * p" using assms(2) mult_le_mono1 [OF assms(3), of p] by (rule order_trans)
  then have "b * 2 ^ 52 \<le> b * (2 ^ 22 * p)" by (simp only: ac_simps)
  then have "2 ^ 52 \<le> 2 ^ 22 * p" using assms(1) by (simp only: mult_le_cancel1)
  then show ?thesis by simp
qed

text \<open>Small times are exact: both errors together stay below the nanosecond that is missing to the
  next second.\<close>

lemma add_seconds_exact:
  assumes pos: "0 < n" and small: "s + n div 10 ^ 9 + 1 \<le> 2 ^ 22"
  shows "add_seconds s n = s + n div 10 ^ 9"
proof -
  let ?F = "n div 10 ^ 9" and ?b = "10 ^ 9 :: nat"
  obtain m1 k1 m2 k2 where d: "dbl n ?b = (m1, k1)" "dbl (s * 2 ^ k1 + m1) (2 ^ k1) = (m2, k2)"
    and a: "add_seconds s n = m2 div 2 ^ k2" and up: "m1 \<le> (?F + 1) * 2 ^ k1"
    and lo: "?F * 2 ^ k1 \<le> m1" "(s + ?F) * 2 ^ k2 \<le> m2" using add_seconds_steps [of n s] by metis
  define p q where "p = (2 :: nat) ^ k1" and "q = (2 :: nat) ^ k2"
  let ?A = "s * p + m1"
  have m1: "m1 = round_half_even (n * p) ?b" "k1 = scale n ?b 0"
    and m2: "m2 = round_half_even (?A * q) p" "k2 = scale ?A p 0"
    using d by (auto simp: dbl_def Let_def p_def q_def)
  have pq: "0 < p" "0 < q" by (simp_all add: p_def q_def)
  have nb: "n + 1 \<le> (?F + 1) * ?b" by (rule next_multiple) simp
  have "n \<le> (?F + 1) * ?b" using nb by simp
  also have "\<dots> \<le> 2 ^ 22 * ?b" using small by (intro mult_le_mono1) simp
  finally have n22: "n \<le> 2 ^ 22 * ?b" .
  have p30: "2 ^ 30 \<le> p"
    using scale_enough [of n ?b 0] pos n22 unfolding p_def m1(2) by (intro pow2_at_least_30 [of ?b n]) simp_all
  have "?A \<le> (s + ?F + 1) * p" using up by (simp add: p_def algebra_simps)
  also have "\<dots> \<le> 2 ^ 22 * p" using small by (rule mult_le_mono1)
  finally have A22: "?A \<le> 2 ^ 22 * p" .
  have "m1 \<noteq> 0"
  proof
    assume "m1 = 0"
    then have "2 * (n * p) \<le> ?b" using round_half_even_near(2) [of ?b "n * p"] m1(1) by simp
    moreover have "2 * p \<le> 2 * (n * p)" using pos by simp
    ultimately have "2 * p \<le> ?b" by (rule order_trans [rotated])
    then show False using p30 by simp
  qed
  then have q30: "2 ^ 30 \<le> q"
    using scale_enough [of ?A p 0] A22 pq unfolding q_def m2(2)
    by (intro pow2_at_least_30 [of p ?A]) simp_all
  have "m2 < (s + ?F + 1) * q"
  proof (rule ccontr)
    assume "\<not> m2 < (s + ?F + 1) * q"
    then have ge: "(s + ?F + 1) * q * p \<le> m2 * p" by (intro mult_le_mono1) simp
    have E1: "2 * (m1 * ?b) \<le> 2 * (n * p) + ?b" using round_half_even_near(1) [of ?b "n * p"] m1(1) by simp
    have E2: "2 * (m2 * p) \<le> 2 * (?A * q) + p" using round_half_even_near(1) [OF pq(1), of "?A * q"] m2(1) by simp
    have "2 * ((s + ?F + 1) * q * p) \<le> 2 * ((s * p + m1) * q) + p"
      using mult_le_mono2 [OF ge, of 2] E2 by (rule order_trans)
    then have "2 * ((?F + 1) * (p * q)) \<le> 2 * (m1 * q) + p" by (simp add: algebra_simps)
    then have "2 * ((?F + 1) * (p * q)) * ?b \<le> (2 * (m1 * q) + p) * ?b" by (rule mult_le_mono1)
    also have "\<dots> = 2 * (m1 * ?b) * q + p * ?b" by (simp add: algebra_simps)
    also have "\<dots> \<le> (2 * (n * p) + ?b) * q + p * ?b" using E1 by (intro add_right_mono mult_le_mono1)
    finally have "2 * ((?F + 1) * ?b) * (p * q) \<le> 2 * n * (p * q) + ?b * q + ?b * p"
      by (simp add: algebra_simps)
    moreover have "2 * (n + 1) * (p * q) \<le> 2 * ((?F + 1) * ?b) * (p * q)"
      using nb by (intro mult_le_mono1 mult_le_mono2)
    ultimately have "2 * (p * q) \<le> ?b * q + ?b * p" by (simp add: algebra_simps)
    moreover have "?b * q < p * q" using p30 pq by (intro mult_strict_right_mono) simp_all
    moreover have "?b * p < q * p" using q30 pq by (intro mult_strict_right_mono) simp_all
    then have "?b * p < p * q" by (simp only: mult.commute)
    ultimately show False by linarith
  qed
  then have "m2 div 2 ^ k2 < s + ?F + 1" by (simp add: q_def less_mult_imp_div_less)
  then show ?thesis using add_seconds_bounds(1) [of s n] a by simp
qed

section \<open>Properties\<close>

lemma deadline_cases:
  assumes "timespec_ok e"
  shows "timespec_ok (deadline e T)"
    "nanos (deadline e T) = nanos e + unat T * 10 ^ 6 \<or>
     nanos (deadline e T) = nanos e + unat T * 10 ^ 6 + 10 ^ 9"
    "tv_sec e < 2 ^ 20 \<Longrightarrow> unat T < 2 ^ 31 \<Longrightarrow> nanos (deadline e T) = nanos e + unat T * 10 ^ 6"
proof -
  let ?n = "tv_nsec e + unat T * 10 ^ 6" and ?b = "10 ^ 9 :: nat"
  have split: "?n = ?n div ?b * ?b + ?n mod ?b" by (simp only: div_mult_mod_eq)
  have carry: "deadline e T = Timespec (add_seconds (tv_sec e) ?n) (?n mod ?b)" if "?b \<le> ?n"
    using that by (simp add: deadline_def Let_def)
  have plain: "deadline e T = Timespec (tv_sec e) ?n" if "\<not> ?b \<le> ?n"
    using that by (simp add: deadline_def Let_def)
  have exact: "nanos e + unat T * 10 ^ 6 = (tv_sec e + ?n div ?b) * ?b + ?n mod ?b"
    using split by (simp only: nanos_def add_mult_distrib)
  show "timespec_ok (deadline e T)"
    by (cases "?b \<le> ?n") (simp_all add: carry plain timespec_ok_def)
  show "nanos (deadline e T) = nanos e + unat T * 10 ^ 6 \<or>
     nanos (deadline e T) = nanos e + unat T * 10 ^ 6 + 10 ^ 9"
  proof (cases "?b \<le> ?n")
    case True
    consider "add_seconds (tv_sec e) ?n = tv_sec e + ?n div ?b"
      | "add_seconds (tv_sec e) ?n = tv_sec e + ?n div ?b + 1"
      using add_seconds_bounds [where s = "tv_sec e" and n = ?n] by linarith
    then show ?thesis
      unfolding exact carry [OF True] by cases (simp_all add: nanos_def)
  next
    case False
    then show ?thesis by (simp add: plain nanos_def)
  qed
  assume small: "tv_sec e < 2 ^ 20" "unat T < 2 ^ 31"
  show "nanos (deadline e T) = nanos e + unat T * 10 ^ 6"
  proof (cases "?b \<le> ?n")
    case True
    have "?n < 2147485 * ?b" using small(2) assms by (simp add: timespec_ok_def)
    then have "?n div ?b < 2147485" by (simp only: less_mult_imp_div_less)
    then have "tv_sec e + ?n div ?b + 1 \<le> 2 ^ 22" using small(1) by simp
    moreover have "0 < ?n" using True by (metis not_gr_zero le_zero_eq power_not_zero zero_neq_numeral)
    ultimately have "add_seconds (tv_sec e) ?n = tv_sec e + ?n div ?b" by (intro add_seconds_exact)
    then show ?thesis unfolding exact carry [OF True] by (simp add: nanos_def)
  next
    case False
    then show ?thesis by (simp add: plain nanos_def)
  qed
qed

text \<open>
  C37. The deadline of a timed receive is a valid time after the entry of the call, and it is the
  entry time plus the requested milliseconds, or one second more; while the clock shows less than
  \<open>2 ^ 20\<close> seconds (twelve days of uptime) it is exact for every timeout.
\<close>

theorem deadline_accuracy:
  assumes "timespec_ok e" and "0 < sint TimeOut"
  shows "timespec_ok (deadline e TimeOut) \<and> e < deadline e TimeOut \<and>
    (nanos (deadline e TimeOut) = nanos e + nat (sint TimeOut) * 10 ^ 6 \<or>
     nanos (deadline e TimeOut) = nanos e + nat (sint TimeOut) * 10 ^ 6 + 10 ^ 9) \<and>
    (tv_sec e < 2 ^ 20 \<longrightarrow> nanos (deadline e TimeOut) = nanos e + nat (sint TimeOut) * 10 ^ 6)"
proof -
  have pos: "unat TimeOut = nat (sint TimeOut) \<and> unat TimeOut < 2 ^ 31"
    using assms(2) by (rule sint_pos_unat)
  note d = deadline_cases [OF assms(1), of TimeOut]
  have "nanos e < nanos (deadline e TimeOut)" using d(2) pos assms(2) by auto
  then have "e < deadline e TimeOut" using nanos_less [OF assms(1) d(1)] by simp
  then show ?thesis using d pos by simp
qed

theorem deadline_accuracy_witness:
  "nanos (deadline (Timespec 5 900000000) 250) = nanos (Timespec 5 900000000) + 250 * 10 ^ 6"
proof -
  have "sint (250 :: i32) = 250" by simp
  then show ?thesis using deadline_accuracy [of "Timespec 5 900000000" 250] by (simp add: timespec_ok_def)
qed

text \<open>
  The extra second is real: after \<open>2 ^ 24\<close> seconds of uptime (194 days) a timeout of 1000
  milliseconds that starts one nanosecond before a full second gives a deadline 2000 milliseconds away,
  because the sum of seconds is rounded up to the next integer in \<open>double\<close>.
\<close>

theorem deadline_late:
  "nanos (deadline (Timespec (2 ^ 24) 999999999) 1000) =
     nanos (Timespec (2 ^ 24) 999999999) + 1000 * 10 ^ 6 + 10 ^ 9"
proof -
  have "scale 1999999999 (10 ^ 9) 0 = Suc 51" by (rule scale_eq) simp_all
  then have d1: "dbl 1999999999 (10 ^ 9) = (9007199250237392, 52)"
    by (simp add: dbl_def round_half_even_def)
  have "scale (2 ^ 24 * 2 ^ 52 + 9007199250237392) (2 ^ 52) 0 = Suc 27" by (rule scale_eq) simp_all
  then have d2: "dbl (2 ^ 24 * 2 ^ 52 + 9007199250237392) (2 ^ 52) = (16777218 * 2 ^ 28, 28)"
    by (simp add: dbl_def round_half_even_def)
  have "add_seconds (2 ^ 24) 1999999999 = 16777218" unfolding add_seconds_def d1 prod.case Let_def d2 by simp
  then show ?thesis by (simp add: deadline_def nanos_def)
qed

end
