(* ===== verification/SBN_RcvMsg.thy ===== *)
theory SBN_RcvMsg
  imports SBN_Recv SBN_Clock
begin

text \<open>
  \<open>__wrap_CFE_SB_RcvMsg\<close> (\<open>sbn_client_wrappers.c\<close>): the application takes the next message of a
  pipe, waiting for one if it asks to. The system calls are a record: the clock, what locking and
  unlocking return, and what the wait on the condition returns together with the state the other
  threads have made of the client when the mutex is held again.
\<close>

section \<open>The operation\<close>

record 'i rcv_env =
  clock_now :: timespec
  lock_ret :: i32
  wait_ret :: "timespec option \<Rightarrow> 'i client \<Rightarrow> i32 \<times> 'i client"
  unlock_ret :: i32

text \<open>What \<open>*BufPtr\<close> holds afterwards: what it held before, \<open>NULL\<close>, or the address of a slot.\<close>

datatype bufptr = Untouched | Null_ptr | Slot nat nat

text \<open>The checks before the mutex is taken: a status and the pipe index.\<close>

definition rcv_args ::
    "platform \<Rightarrow> bool \<Rightarrow> u8 \<Rightarrow> i32 \<Rightarrow> 'm::len word client \<Rightarrow> (i32 \<times> u8 \<times> 'm word client) run" where
  "rcv_args P ptr pid TimeOut s =
     (if \<not> ptr then
        Inr (CFE_SB_BAD_ARGUMENT P, 0, log_message ''SBN_CLIENT: BUFFER POINTER IS NULL!'' [] s)
      else if sint TimeOut < -1 then
        Inr (CFE_SB_BAD_ARGUMENT P, 0, log_message ''SBN_CLIENT: TIMEOUT IS LESS THAN -1!'' [] s)
      else
        bindR (CFE_SBN_Client_GetPipeIdx s pid) (\<lambda>pipe_idx.
          if pipe_idx = CFE_SBN_CLIENT_INVALID_PIPE then
            Inr (CFE_SB_BAD_ARGUMENT P, pipe_idx,
                 log_message ''SBN_CLIENT: ERROR INVALID PIPE ERROR!'' [] s)
          else Inr (CFE_SUCCESS P, pipe_idx, s)))"

text \<open>The wait when no message is there: status, result of the wait, state.\<close>

definition rcv_wait ::
    "platform \<Rightarrow> 'm::len word rcv_env \<Rightarrow> i32 \<Rightarrow> 'm word client \<Rightarrow> i32 \<times> i32 \<times> 'm word client" where
  "rcv_wait P e TimeOut s =
     (if TimeOut = CFE_SB_POLL P then (CFE_SB_NO_MESSAGE P, 0, s)
      else if TimeOut = CFE_SB_PEND_FOREVER P then
        let (w, s') = wait_ret e None (sync Cond_wait s) in (CFE_SUCCESS P, w, s')
      else
        let future_timeout = deadline (clock_now e) TimeOut;
            (w, s') = wait_ret e (Some future_timeout) (sync Cond_wait s)
        in (CFE_SUCCESS P, w, s'))"

text \<open>The part after the wait, with the mutex held: what the result of the wait means, taking the
  message, unlocking.\<close>

definition rcv_finish ::
    "platform \<Rightarrow> 'm::len word rcv_env \<Rightarrow> nat \<Rightarrow> i32 \<Rightarrow> i32 \<Rightarrow> 'm word client \<Rightarrow>
     (i32 \<times> bufptr \<times> 'm word client) run" where
  "rcv_finish P e i status0 wait_status s =
     (let status = (if wait_status \<noteq> 0
                    then (if wait_status = ETIMEDOUT then CFE_SB_TIME_OUT P else CFE_SB_PIPE_RD_ERR P)
                    else status0)
      in bindR
        (if status = CFE_SUCCESS P
         then bindR (arr_get (PipeTbl s) i) (\<lambda>p.
                Inr (Slot i (unat (pipe_next p)), s\<lparr>PipeTbl := (PipeTbl s)[i := pipe_get p]\<rparr>))
         else Inr (Untouched, s)) (\<lambda>(buf, s1).
          let s2 = sync Mutex_unlock s1;
              status' = (if unlock_ret e \<noteq> 0 then CFE_SB_PIPE_RD_ERR P else status)
          in Inr (status', if status' \<noteq> CFE_SUCCESS P then Null_ptr else buf, s2)))"

definition wrap_CFE_SB_RcvMsg ::
    "platform \<Rightarrow> 'm::len word rcv_env \<Rightarrow> bool \<Rightarrow> u8 \<Rightarrow> i32 \<Rightarrow> 'm word client \<Rightarrow>
     (i32 \<times> bufptr \<times> 'm word client) run" where
  "wrap_CFE_SB_RcvMsg P e ptr pid TimeOut s =
     bindR (rcv_args P ptr pid TimeOut s) (\<lambda>(status, pipe_idx, s1).
       if status \<noteq> CFE_SUCCESS P then Inr (status, Untouched, s1)
       else
         let i = unat pipe_idx; s2 = sync Mutex_lock s1 in
         bindR (arr_get (PipeTbl s2) i) (\<lambda>p.
           if lock_ret e \<noteq> 0 then Inr (CFE_SB_PIPE_RD_ERR P, Null_ptr, s2)
           else
             let (status1, wait_status, s3) =
               (if pipe_empty p then rcv_wait P e TimeOut s2 else (CFE_SUCCESS P, 0, s2))
             in rcv_finish P e i status1 wait_status s3))"

section \<open>Arguments\<close>

lemma RcvMsg_bad_args:
  assumes P: "platform_ok P" and inv: "tbl_inv P (PipeTbl s)"
    and bad: "\<not> ptr \<or> sint TimeOut < -1 \<or> unat pid < 5 \<and> \<not> pipe_live s pid"
  shows "\<exists>s'. wrap_CFE_SB_RcvMsg P e ptr pid TimeOut s = Inr (CFE_SB_BAD_ARGUMENT P, Untouched, s') \<and>
    same_data s s' \<and> Sync s' = Sync s"
proof -
  have ne: "CFE_SB_BAD_ARGUMENT P \<noteq> CFE_SUCCESS P" using platform_okD(1,3) [OF P] by simp
  consider "\<not> ptr" | "ptr" "sint TimeOut < -1"
    | "ptr" "\<not> sint TimeOut < -1" "unat pid < 5" "\<not> pipe_live s pid" using bad by blast
  then show ?thesis
  proof cases
    case 3
    then show ?thesis using ne pl.miss [OF inv 3(3,4)] by (simp add: wrap_CFE_SB_RcvMsg_def rcv_args_def)
  qed (use ne in \<open>simp_all add: wrap_CFE_SB_RcvMsg_def rcv_args_def\<close>)
qed

lemma RcvMsg_wild:
  assumes inv: "tbl_inv P (PipeTbl s)" and "\<not> sint TimeOut < -1" and "\<not> unat pid < 5"
  shows "wrap_CFE_SB_RcvMsg P e True pid TimeOut s = Inl OutOfBounds"
  using pl.wild [OF inv assms(3)] assms(2) by (simp add: wrap_CFE_SB_RcvMsg_def rcv_args_def)

lemma RcvMsg_live:
  assumes inv: "tbl_inv P (PipeTbl s)" and live: "pipe_live s pid" and "\<not> sint TimeOut < -1"
  shows "wrap_CFE_SB_RcvMsg P e True pid TimeOut s =
    (if lock_ret e \<noteq> 0 then Inr (CFE_SB_PIPE_RD_ERR P, Null_ptr, sync Mutex_lock s)
     else
       let (status1, wait_status, s3) =
         (if pipe_empty (PipeTbl s ! unat pid) then rcv_wait P e TimeOut (sync Mutex_lock s)
          else (CFE_SUCCESS P, 0, sync Mutex_lock s))
       in rcv_finish P e (unat pid) status1 wait_status s3)"
proof -
  have pid: "unat pid < length (PipeTbl s)" "pid \<noteq> 0xFF"
    using live tbl_invD(1) [OF inv] pl.live_inside [OF live] by (simp_all add: pipe_live_def)
  then show ?thesis
    using pl.hit [OF inv live] assms(3) by (simp add: wrap_CFE_SB_RcvMsg_def rcv_args_def)
qed

section \<open>Taking a message\<close>

lemma rcv_finish_take:
  assumes "i < length (PipeTbl s)" and "unlock_ret e = 0"
  shows "rcv_finish P e i (CFE_SUCCESS P) 0 s =
    Inr (CFE_SUCCESS P, Slot i (unat (pipe_next (PipeTbl s ! i))),
      sync Mutex_unlock (with_entry i (pipe_get (PipeTbl s ! i)) s))"
  using assms by (simp add: rcv_finish_def with_entry_def)

lemma rcv_finish_error:
  assumes "st \<noteq> CFE_SUCCESS P" and "unlock_ret e = 0"
  shows "rcv_finish P e i st 0 s = Inr (st, Null_ptr, sync Mutex_unlock s)"
  using assms by (simp add: rcv_finish_def)

lemma rcv_finish_wait_error:
  assumes P: "platform_ok P" and "w \<noteq> 0" and "unlock_ret e = 0"
  shows "rcv_finish P e i st w s =
    Inr (if w = 110 then CFE_SB_TIME_OUT P else CFE_SB_PIPE_RD_ERR P, Null_ptr, sync Mutex_unlock s)"
  using assms(2,3) platform_okD(1,4,6) [OF P] by (simp add: rcv_finish_def)

lemma pipe_get_entry_inv [sbn_wf]:
  assumes ent: "entry_inv P i p" and "InUse p = 1" and "pipe_unread p \<noteq> []"
  shows "entry_inv P i (pipe_get p)"
proof -
  have "pipe_inv P (pipe_get p)"
    using pq.get_law [of P p] assms by (simp add: entry_inv_def)
  then show ?thesis using ent assms(2) by (simp add: entry_inv_def)
qed

text \<open>Slot \<open>pipe_next\<close> is the oldest unread message, and becomes the held one.\<close>

lemma pipe_next_slot:
  assumes "ring_ok p" and "pipe_unread p \<noteq> []"
  shows "Messages p ! unat (pipe_next p) = hd (pipe_unread p)"
  using pipe_get_effect(3) [OF assms]
  by (simp add: pipe_held_def pipe_slot_def pipe_get_def pipe_next_unat)

definition takes :: "nat \<Rightarrow> 'i client \<Rightarrow> bufptr \<Rightarrow> 'i client \<Rightarrow> bool" where
  "takes i s buf s' \<longleftrightarrow>
     (\<exists>k. buf = Slot i k \<and> k < 32 \<and> Messages (PipeTbl s' ! i) ! k = hd (pipe_unread (PipeTbl s ! i))) \<and>
     pipe_held (PipeTbl s' ! i) = hd (pipe_unread (PipeTbl s ! i)) \<and>
     pipe_unread (PipeTbl s' ! i) = tl (pipe_unread (PipeTbl s ! i)) \<and>
     (\<forall>j. j \<noteq> i \<longrightarrow> PipeTbl s' ! j = PipeTbl s ! j)"

lemma rcv_finish_takes:
  assumes inv: "tbl_inv P (PipeTbl s)" and live: "pipe_live s pid"
    and un: "pipe_unread (PipeTbl s ! unat pid) \<noteq> []" and "unlock_ret e = 0"
  shows "\<exists>buf s'. rcv_finish P e (unat pid) (CFE_SUCCESS P) 0 s = Inr (CFE_SUCCESS P, buf, s') \<and>
    takes (unat pid) s buf s' \<and> tbl_inv P (PipeTbl s') \<and> Sync s' = Sync s @ [Mutex_unlock]"
proof -
  let ?i = "unat pid" and ?p = "PipeTbl s ! unat pid"
  have i: "?i < 5" "InUse ?p = 1" using live by (simp_all add: pipe_live_def)
  have len: "length (PipeTbl s) = 5" by (rule tbl_invD(1) [OF inv])
  have ent: "entry_inv P ?i ?p" using inv i(1) by (rule tbl_invD(2))
  then have r: "ring_ok ?p" using entry_inv_wf by blast
  let ?s = "sync Mutex_unlock (with_entry ?i (pipe_get ?p) s)"
  have "tbl_inv P (PipeTbl ?s)"
    using tbl_inv_update [OF inv pipe_get_entry_inv [OF ent i(2) un]] by simp
  moreover have "takes ?i s (Slot ?i (unat (pipe_next ?p))) ?s"
    using pipe_get_effect [OF r un] pipe_next_slot [OF r un] i(1) len
    by (simp add: takes_def pipe_next_unat)
  ultimately show ?thesis using rcv_finish_take [of ?i s e P] i(1) len assms(4) by simp
qed

section \<open>Properties\<close>

text \<open>The wait of a call that may wait: its deadline, and the state it starts from.\<close>

definition wait_until :: "'m::len word rcv_env \<Rightarrow> i32 \<Rightarrow> timespec option" where
  "wait_until e TimeOut = (if TimeOut = -1 then None else Some (deadline (clock_now e) TimeOut))"

definition woken :: "'m::len word rcv_env \<Rightarrow> i32 \<Rightarrow> 'm word client \<Rightarrow> i32 \<times> 'm word client" where
  "woken e TimeOut s = wait_ret e (wait_until e TimeOut) (sync Cond_wait (sync Mutex_lock s))"

lemma RcvMsg_drained:
  assumes P: "platform_ok P" and inv: "tbl_inv P (PipeTbl s)" and live: "pipe_live s pid"
    and t: "\<not> sint TimeOut < -1" and "lock_ret e = 0" and dry: "pipe_unread (PipeTbl s ! unat pid) = []"
  shows "wrap_CFE_SB_RcvMsg P e True pid TimeOut s =
    (if TimeOut = 0 then rcv_finish P e (unat pid) (CFE_SB_NO_MESSAGE P) 0 (sync Mutex_lock s)
     else let (w, s') = woken e TimeOut s in rcv_finish P e (unat pid) (CFE_SUCCESS P) w s')"
proof -
  have "unat pid < 5" using live by (simp add: pipe_live_def)
  then have "ring_ok (PipeTbl s ! unat pid)" using entry_inv_wf tbl_invD(2) [OF inv] by blast
  then have empty: "pipe_empty (PipeTbl s ! unat pid)" using dry by (simp add: pipe_empty_iff)
  show ?thesis
    unfolding RcvMsg_live [OF inv live t] woken_def wait_until_def
    using empty assms(5) platform_okD(10,11) [OF P]
    by (auto simp: rcv_wait_def Let_def split: prod.splits)
qed

lemma RcvMsg_waiting:
  assumes P: "platform_ok P" and inv: "tbl_inv P (PipeTbl s)" and live: "pipe_live s pid"
    and t: "\<not> sint TimeOut < -1" "TimeOut \<noteq> 0" and "lock_ret e = 0"
    and dry: "pipe_unread (PipeTbl s ! unat pid) = []" and w: "woken e TimeOut s = (w, s1)"
  shows "wrap_CFE_SB_RcvMsg P e True pid TimeOut s = rcv_finish P e (unat pid) (CFE_SUCCESS P) w s1"
  using RcvMsg_drained [OF P inv live t(1) assms(6) dry] t(2) w by simp

text \<open>
  Receiving, the arguments: a null pointer, a timeout below -1 and an id inside the table that
  names no pipe are bad arguments; nothing is locked, no pipe changes and the caller's pointer is
  not written. With the other arguments in order, an id of 5 or more (0xFF, the id of a pipe that could not be created,
  included) is used as an index outside the table.
\<close>

theorem RcvMsg_arguments:
  assumes "platform_ok P" and "tbl_inv P (PipeTbl s)"
  shows "(\<not> ptr \<or> sint TimeOut < -1 \<or> unat pid < 5 \<and> \<not> pipe_live s pid \<longrightarrow>
      (\<exists>s'. wrap_CFE_SB_RcvMsg P e ptr pid TimeOut s = Inr (CFE_SB_BAD_ARGUMENT P, Untouched, s') \<and>
        PipeTbl s' = PipeTbl s \<and> Sync s' = Sync s)) \<and>
    (ptr \<and> \<not> sint TimeOut < -1 \<and> \<not> unat pid < 5 \<longrightarrow>
      wrap_CFE_SB_RcvMsg P e ptr pid TimeOut s = Inl OutOfBounds)"
  using RcvMsg_bad_args [OF assms, of ptr TimeOut pid e] RcvMsg_wild [OF assms(2), of TimeOut pid e]
  by (auto simp: same_data_def)

lemma RcvMsg_has_message:
  assumes P: "platform_ok P" and inv: "tbl_inv P (PipeTbl s)" and live: "pipe_live s pid"
    and t: "\<not> sint TimeOut < -1" and "lock_ret e = 0" "unlock_ret e = 0"
    and un: "pipe_unread (PipeTbl s ! unat pid) \<noteq> []"
  shows "\<exists>buf s'. wrap_CFE_SB_RcvMsg P e True pid TimeOut s = Inr (CFE_SUCCESS P, buf, s') \<and>
    takes (unat pid) s buf s' \<and> tbl_inv P (PipeTbl s') \<and> Sync s' = Sync s @ [Mutex_lock, Mutex_unlock]"
proof -
  have "unat pid < 5" using live by (simp add: pipe_live_def)
  then have "ring_ok (PipeTbl s ! unat pid)" using entry_inv_wf tbl_invD(2) [OF inv] by blast
  then have "\<not> pipe_empty (PipeTbl s ! unat pid)" using un by (simp add: pipe_empty_iff)
  then have run: "wrap_CFE_SB_RcvMsg P e True pid TimeOut s =
      rcv_finish P e (unat pid) (CFE_SUCCESS P) 0 (sync Mutex_lock s)"
    using RcvMsg_live [OF inv live t, of e] assms(5) by simp
  have "tbl_inv P (PipeTbl (sync Mutex_lock s))" "pipe_live (sync Mutex_lock s) pid"
    "pipe_unread (PipeTbl (sync Mutex_lock s) ! unat pid) \<noteq> []"
    using inv live un by (simp_all add: pipe_live_def)
  from rcv_finish_takes [OF this assms(6)] show ?thesis
    unfolding run by (auto simp: takes_def)
qed


text \<open>
  C23. Receiving when no message is there: polling returns \<open>CFE_SB_NO_MESSAGE\<close> at once. Otherwise the
  call waits once, without limit for -1 and until the deadline for a positive timeout; a wait that times out
  gives \<open>CFE_SB_TIME_OUT\<close>, any other failure \<open>CFE_SB_PIPE_RD_ERR\<close>; in these cases the pointer is set to
  \<open>NULL\<close> and the call takes nothing. A wait that succeeds with a message in the pipe delivers the oldest one.
\<close>

theorem RcvMsg_empty:
  assumes P: "platform_ok P" and inv: "tbl_inv P (PipeTbl s)" and live: "pipe_live s pid"
    and t: "\<not> sint TimeOut < -1" and ok: "lock_ret e = 0" "unlock_ret e = 0"
    and dry: "pipe_unread (PipeTbl s ! unat pid) = []"
  shows "(TimeOut = 0 \<longrightarrow>
      (\<exists>s'. wrap_CFE_SB_RcvMsg P e True pid TimeOut s = Inr (CFE_SB_NO_MESSAGE P, Null_ptr, s') \<and>
        PipeTbl s' = PipeTbl s \<and> Sync s' = Sync s @ [Mutex_lock, Mutex_unlock])) \<and>
    (\<forall>w s1. TimeOut \<noteq> 0 \<and> woken e TimeOut s = (w, s1) \<longrightarrow>
      (w \<noteq> 0 \<longrightarrow> wrap_CFE_SB_RcvMsg P e True pid TimeOut s =
         Inr (if w = ETIMEDOUT then CFE_SB_TIME_OUT P else CFE_SB_PIPE_RD_ERR P, Null_ptr,
              sync Mutex_unlock s1)) \<and>
      (w = 0 \<and> tbl_inv P (PipeTbl s1) \<and> pipe_live s1 pid \<and> pipe_unread (PipeTbl s1 ! unat pid) \<noteq> [] \<longrightarrow>
         (\<exists>buf s'. wrap_CFE_SB_RcvMsg P e True pid TimeOut s = Inr (CFE_SUCCESS P, buf, s') \<and>
           takes (unat pid) s1 buf s' \<and> tbl_inv P (PipeTbl s'))))"
proof (intro conjI allI impI)
  assume "TimeOut = 0"
  then show "\<exists>s'. wrap_CFE_SB_RcvMsg P e True pid TimeOut s = Inr (CFE_SB_NO_MESSAGE P, Null_ptr, s') \<and>
        PipeTbl s' = PipeTbl s \<and> Sync s' = Sync s @ [Mutex_lock, Mutex_unlock]"
    using RcvMsg_drained [OF P inv live t ok(1) dry] rcv_finish_error [of "CFE_SB_NO_MESSAGE P" P e]
      platform_okD(1,5) [OF P] ok(2) by simp
next
  fix w s1
  assume w: "TimeOut \<noteq> 0 \<and> woken e TimeOut s = (w, s1)"
  note run = RcvMsg_waiting [OF P inv live t conjunct1 [OF w] ok(1) dry conjunct2 [OF w]]
  show "wrap_CFE_SB_RcvMsg P e True pid TimeOut s =
         Inr (if w = ETIMEDOUT then CFE_SB_TIME_OUT P else CFE_SB_PIPE_RD_ERR P, Null_ptr,
              sync Mutex_unlock s1)" if "w \<noteq> 0"
    using rcv_finish_wait_error [OF P that ok(2)] unfolding run by simp
  show "\<exists>buf s'. wrap_CFE_SB_RcvMsg P e True pid TimeOut s = Inr (CFE_SUCCESS P, buf, s') \<and>
           takes (unat pid) s1 buf s' \<and> tbl_inv P (PipeTbl s')"
    if a: "w = 0 \<and> tbl_inv P (PipeTbl s1) \<and> pipe_live s1 pid \<and> pipe_unread (PipeTbl s1 ! unat pid) \<noteq> []"
    using rcv_finish_takes [of P s1 pid e] a ok(2) unfolding run by auto
qed

text \<open>
  C24. The wait is not repeated: if it ends without a message in this pipe (a spurious wakeup, or a
  signal meant for another pipe, since all share one condition), the call reports success with a slot
  that was never filled, the counter falls to 0, and the slot handed out is the one the next delivery
  overwrites; one more such call wraps the counter to \<open>2 ^ 32 - 1\<close>.
\<close>

theorem RcvMsg_spurious_wakeup:
  assumes P: "platform_ok P" and inv: "tbl_inv P (PipeTbl s)" and live: "pipe_live s pid"
    and t: "\<not> sint TimeOut < -1" "TimeOut \<noteq> 0" and ok: "lock_ret e = 0" "unlock_ret e = 0"
    and dry: "pipe_unread (PipeTbl s ! unat pid) = []" and w: "woken e TimeOut s = (0, s1)"
    and inv1: "tbl_inv P (PipeTbl s1)" and dry1: "pipe_unread (PipeTbl s1 ! unat pid) = []"
  shows "\<exists>k s'. wrap_CFE_SB_RcvMsg P e True pid TimeOut s = Inr (CFE_SUCCESS P, Slot (unat pid) k, s') \<and>
    NumberOfMessages (PipeTbl s' ! unat pid) = 0 \<and> \<not> tbl_inv P (PipeTbl s') \<and>
    k = unat (message_entry_point (PipeTbl s' ! unat pid)) \<and>
    NumberOfMessages (pipe_get (PipeTbl s' ! unat pid)) = 0xFFFFFFFF"
proof -
  let ?i = "unat pid" and ?p = "PipeTbl s1 ! unat pid"
  have i: "?i < 5" "?i < length (PipeTbl s1)"
    using live tbl_invD(1) [OF inv1] by (simp_all add: pipe_live_def)
  have "ring_ok ?p" using entry_inv_wf [OF tbl_invD(2) [OF inv1 i(1)]] by blast
  moreover have "unat (NumberOfMessages ?p) - 1 = 0" using dry1 length_pipe_unread [of ?p] by simp
  ultimately have "unat (NumberOfMessages ?p) = 1" by (auto simp: ring_ok_def)
  then have one: "NumberOfMessages ?p = 1" by (simp add: word_unat_eq_iff)
  let ?s = "sync Mutex_unlock (with_entry ?i (pipe_get ?p) s1)"
  have run: "wrap_CFE_SB_RcvMsg P e True pid TimeOut s =
      Inr (CFE_SUCCESS P, Slot ?i (unat (pipe_next ?p)), ?s)"
    using RcvMsg_waiting [OF P inv live t ok(1) dry w] rcv_finish_take [OF i(2) ok(2)] by simp
  have new: "PipeTbl ?s ! ?i = pipe_get ?p" using i(2) by simp
  have cnt: "NumberOfMessages (pipe_get ?p) = 0" by (simp add: pipe_get_def one)
  have bad: "\<not> tbl_inv P (PipeTbl ?s)"
  proof
    assume "tbl_inv P (PipeTbl ?s)"
    then have "ring_ok (PipeTbl ?s ! ?i)" using entry_inv_wf [OF tbl_invD(2) [OF _ i(1)]] by blast
    then show False unfolding new ring_ok_def cnt by simp
  qed
  have entry: "unat (message_entry_point (pipe_get ?p)) = unat (pipe_next ?p)"
    by (simp add: message_entry_point_unat cnt) (simp add: pipe_get_def pipe_next_unat)
  have wrap: "NumberOfMessages (pipe_get (pipe_get ?p)) = 0xFFFFFFFF"
    by (simp add: pipe_get_def one)
  show ?thesis
    by (intro exI conjI, rule run) (use bad entry wrap cnt in \<open>simp_all only: new simp_thms\<close>)
qed

text \<open>
  A failing unlock loses a message: when \<open>pthread_mutex_unlock\<close> fails after a message was taken,
  the caller gets an error and a null pointer, but the message has left the queue.
\<close>

theorem RcvMsg_unlock_failure:
  assumes P: "platform_ok P" and inv: "tbl_inv P (PipeTbl s)" and live: "pipe_live s pid"
    and t: "\<not> sint TimeOut < -1" and fail: "lock_ret e = 0" "unlock_ret e \<noteq> 0"
    and un: "pipe_unread (PipeTbl s ! unat pid) = m # ms"
  shows "\<exists>s'. wrap_CFE_SB_RcvMsg P e True pid TimeOut s = Inr (CFE_SB_PIPE_RD_ERR P, Null_ptr, s') \<and>
    pipe_unread (PipeTbl s' ! unat pid) = ms"
proof -
  let ?i = "unat pid" and ?p = "PipeTbl s ! unat pid"
  have i: "?i < 5" "?i < length (PipeTbl s)"
    using live tbl_invD(1) [OF inv] by (simp_all add: pipe_live_def)
  then have r: "ring_ok ?p" using entry_inv_wf [OF tbl_invD(2) [OF inv i(1)]] by blast
  have ne: "pipe_unread ?p \<noteq> []" using un by simp
  then have "\<not> pipe_empty ?p" using r by (simp add: pipe_empty_iff)
  moreover have "CFE_SB_PIPE_RD_ERR P \<noteq> CFE_SUCCESS P" using platform_okD(1,6) [OF P] by simp
  ultimately have "wrap_CFE_SB_RcvMsg P e True pid TimeOut s = Inr (CFE_SB_PIPE_RD_ERR P, Null_ptr,
      sync Mutex_unlock (with_entry ?i (pipe_get ?p) (sync Mutex_lock s)))"
    using RcvMsg_live [OF inv live t, of e] fail i(2) by (simp add: rcv_finish_def with_entry_def)
  then show ?thesis using pipe_get_effect(2) [OF r ne] un i(2) by simp
qed

section \<open>Concrete calls\<close>

definition calm :: "'m::len word rcv_env" where
  "calm = \<lparr>clock_now = Timespec 5 0, lock_ret = 0, wait_ret = (\<lambda>_ s. (0, s)), unlock_ret = 0\<rparr>"

lemma calm_fields [simp]:
  "clock_now calm = Timespec 5 0" "lock_ret calm = 0" "wait_ret calm q s = (0, s)" "unlock_ret calm = 0"
  by (simp_all add: calm_def)

text \<open>A client whose first pipe holds one unread message.\<close>

definition loaded_pipe :: "platform \<Rightarrow> 'm::len word pipe" where
  "loaded_pipe P = (created_pipe P 0 [0x61] (fresh_pipe P))\<lparr>NumberOfMessages := 2\<rparr>"

definition client_loaded :: "platform \<Rightarrow> 'm::len word client" where
  "client_loaded P = with_entry 0 (loaded_pipe P) (client_with_pipe P)"

lemma client_loaded_inv [simp]: "tbl_inv P (PipeTbl (client_loaded P :: 'm::len word client))"
proof -
  have "entry_inv P 0 (PipeTbl (client_with_pipe P :: 'm word client) ! 0)"
    by (rule tbl_invD(2) [OF client_with_pipe_inv]) simp
  then have "entry_inv P 0 (loaded_pipe P :: 'm word pipe)"
    by (simp add: client_with_pipe_entry entry_inv_def pipe_inv_def pipe_wf_def ring_ok_def
        loaded_pipe_def)
  then show ?thesis
    unfolding client_loaded_def with_entry_frame by (intro tbl_inv_update client_with_pipe_inv)
qed

lemma client_loaded_entry: "PipeTbl (client_loaded P) ! 0 = loaded_pipe P"
  by (simp add: client_loaded_def tbl_invD(1) [OF client_with_pipe_inv])

lemma client_loaded_live [simp]: "pipe_live (client_loaded P) 0"
  by (simp add: pipe_live_def client_loaded_entry loaded_pipe_def)

lemma loaded_pipe_unread:
  "pipe_unread (loaded_pipe P :: 'm::len word pipe) =
     [pipe_slot (loaded_pipe P :: 'm word pipe) (Suc 0)]"
proof -
  have "unat (NumberOfMessages (loaded_pipe P :: 'm word pipe)) = 2" by (simp add: loaded_pipe_def)
  moreover have "[1..<2] = [Suc 0]" by (simp add: upt_conv_Cons)
  ultimately show ?thesis by (simp add: pipe_unread_def)
qed

theorem RcvMsg_arguments_witness:
  "wrap_CFE_SB_RcvMsg cfs_small calm True 0xFF 0 (ready_client cfs_small :: 16 word client) = Inl OutOfBounds"
proof -
  have inv: "tbl_inv cfs_small (PipeTbl (ready_client cfs_small :: 16 word client))" by simp
  show ?thesis using RcvMsg_arguments [OF platform_ok_cfs(2) inv, of True 0 255 calm] by simp
qed


theorem RcvMsg_empty_witness:
  "\<exists>s'. wrap_CFE_SB_RcvMsg cfs_small calm True 0 0 (client_with_pipe cfs_small :: 16 word client) =
     Inr (0xCA000002, Null_ptr, s')"
proof -
  let ?s = "client_with_pipe cfs_small :: 16 word client"
  have "tbl_inv cfs_small (PipeTbl ?s)" "pipe_live ?s 0" "\<not> sint (0 :: i32) < -1"
    "pipe_unread (PipeTbl ?s ! unat (0 :: u8)) = []"
    by (simp_all add: client_with_pipe_entry)
  from RcvMsg_empty [OF platform_ok_cfs(2) this(1-3) _ _ this(4), of calm] show ?thesis by auto
qed

theorem RcvMsg_spurious_wakeup_witness:
  "\<exists>k s'. wrap_CFE_SB_RcvMsg cfs_small calm True 0 (-1) (client_with_pipe cfs_small :: 16 word client) =
     Inr (0, Slot 0 k, s') \<and> NumberOfMessages (PipeTbl s' ! 0) = 0"
proof -
  let ?s = "client_with_pipe cfs_small :: 16 word client"
  let ?s1 = "sync Cond_wait (sync Mutex_lock ?s)"
  have a: "tbl_inv cfs_small (PipeTbl ?s)" "pipe_live ?s 0" "\<not> sint (-1 :: i32) < -1" "(-1 :: i32) \<noteq> 0"
    "pipe_unread (PipeTbl ?s ! unat (0 :: u8)) = []" "woken calm (-1) ?s = (0, ?s1)"
    "tbl_inv cfs_small (PipeTbl ?s1)" "pipe_unread (PipeTbl ?s1 ! unat (0 :: u8)) = []"
    by (simp_all add: client_with_pipe_entry woken_def)
  from RcvMsg_spurious_wakeup [OF platform_ok_cfs(2) a(1-4) _ _ a(5-8)] show ?thesis by auto
qed

theorem RcvMsg_unlock_failure_witness:
  "\<exists>s'. wrap_CFE_SB_RcvMsg cfs_small (calm\<lparr>unlock_ret := 1\<rparr>) True 0 0
      (client_loaded cfs_small :: 16 word client) = Inr (0xCA000006, Null_ptr, s') \<and>
    pipe_unread (PipeTbl s' ! 0) = []"
proof -
  let ?s = "client_loaded cfs_small :: 16 word client"
  have "tbl_inv cfs_small (PipeTbl ?s)" "pipe_live ?s 0" "\<not> sint (0 :: i32) < -1"
    "pipe_unread (PipeTbl ?s ! unat (0 :: u8)) =
      [pipe_slot (loaded_pipe cfs_small :: 16 word pipe) (Suc 0)]"
    by (simp_all add: client_loaded_entry loaded_pipe_unread)
  from RcvMsg_unlock_failure [OF platform_ok_cfs(2) this(1-3) _ _ this(4), of "calm\<lparr>unlock_ret := 1\<rparr>"]
  show ?thesis by simp
qed

end
