(* ===== verification/SBN_Minders.thy ===== *)
theory SBN_Minders
  imports SBN_RcvMsg
begin

text \<open>
  The two threads of \<open>sbn_client_minders.c\<close>. Both are \<open>while\<close> loops on a flag and need not
  return, so they are \<open>partial_function (option)\<close> and a result \<open>Some\<close> is a theorem. What the other threads do
  to the client while the heartbeat thread sleeps is an argument, and so is what the stack of the
  receive thread holds in each round.
\<close>

section \<open>The heartbeat thread\<close>

definition SECONDS_BETWEEN_HEARTBEATS :: nat where
  [simp]: "SECONDS_BETWEEN_HEARTBEATS = 3"

definition heartbeat_round :: "platform \<Rightarrow> ('i, 'k, 'u) packer \<Rightarrow> 'i client \<Rightarrow> 'i client" where
  "heartbeat_round P K s =
     (let s1 = (if sbn_client_sockfd s \<noteq> 0 then snd (send_heartbeat P K (sbn_client_sockfd s) s) else s)
      in s1\<lparr>Slept := Slept s1 + SECONDS_BETWEEN_HEARTBEATS\<rparr>)"

partial_function (option) SBN_Client_HeartbeatMinder ::
    "platform \<Rightarrow> ('i, 'k, 'u) packer \<Rightarrow> (nat \<Rightarrow> 'i client \<Rightarrow> 'i client) \<Rightarrow> nat \<Rightarrow> 'i client \<Rightarrow> 'i client option" where
  "SBN_Client_HeartbeatMinder P K others k s =
     (if continue_heartbeat s
      then SBN_Client_HeartbeatMinder P K others (Suc k) (others k (heartbeat_round P K s))
      else Some s)"

section \<open>The receive thread\<close>

text \<open>One round: the new count of consecutive errors and the new state.\<close>

definition receive_round ::
    "platform \<Rightarrow> ('m::len word, 'k, 'u) packer \<Rightarrow> (nat \<Rightarrow> byte) \<Rightarrow> (nat \<Rightarrow> byte) \<Rightarrow> i32 \<Rightarrow> 'm word client \<Rightarrow>
     (i32 \<times> 'm word client) run" where
  "receive_round P K g h consec_error_count s =
     bindR (recv_msg P K g h (sbn_client_sockfd s) s) (\<lambda>(status, s1).
       let (count, s2) =
         (if status \<noteq> CFE_SUCCESS P
          then (consec_error_count + 1,
                log_message (''Receive message returned error 0x%08X'' @ [CHR 0x0A]) [Int_arg status] s1)
          else (0, s1))
       in Inr (count,
         if count = 5 then s2\<lparr>continue_heartbeat := False, continue_receive_check := False\<rparr> else s2))"

partial_function (option) receive_loop ::
    "platform \<Rightarrow> ('m::len word, 'k, 'u) packer \<Rightarrow> (nat \<Rightarrow> nat \<Rightarrow> byte) \<Rightarrow> (nat \<Rightarrow> nat \<Rightarrow> byte) \<Rightarrow> nat \<Rightarrow>
     i32 \<Rightarrow> 'm word client \<Rightarrow> 'm word client run option" where
  "receive_loop P K g h k consec_error_count s =
     (if continue_receive_check s
      then (case receive_round P K (g k) (h k) consec_error_count s of
              Inl f \<Rightarrow> Some (Inl f)
            | Inr r \<Rightarrow> receive_loop P K g h (Suc k) (fst r) (snd r))
      else Some (Inr s))"

definition SBN_Client_ReceiveMinder ::
    "platform \<Rightarrow> ('m::len word, 'k, 'u) packer \<Rightarrow> (nat \<Rightarrow> nat \<Rightarrow> byte) \<Rightarrow> (nat \<Rightarrow> nat \<Rightarrow> byte) \<Rightarrow>
     'm word client \<Rightarrow> 'm word client run option" where
  "SBN_Client_ReceiveMinder P K g h s = receive_loop P K g h 0 0 s"

section \<open>What a call leaves alone\<close>

text \<open>The globals that neither reading nor delivering touches.\<close>

definition same_control :: "'i client \<Rightarrow> 'i client \<Rightarrow> bool" where
  "same_control s t \<longleftrightarrow> sbn_client_sockfd t = sbn_client_sockfd s \<and> sbn_client_cpuId t = sbn_client_cpuId s \<and>
     continue_heartbeat t = continue_heartbeat s \<and> continue_receive_check t = continue_receive_check s \<and>
     HeapBlocks t = HeapBlocks s \<and> Threads t = Threads s \<and> OpenFds t = OpenFds s"

lemma same_control_refl [simp]: "same_control s s"
  by (simp add: same_control_def)

lemma same_control_trans: "same_control s t \<Longrightarrow> same_control t u \<Longrightarrow> same_control s u"
  by (simp add: same_control_def)

lemma same_control_only_read [sbn_frame]: "only_read fd s t \<Longrightarrow> same_control s t"
  by (simp add: same_control_def only_read_def)

lemma same_control_output [simp]:
  "same_control s (log_message f a t) = same_control s t" "same_control s (printf f a t) = same_control s t"
  "same_control s (sync e t) = same_control s t"
  "same_control s (t\<lparr>PipeTbl := tbl\<rparr>) = same_control s t"
  by (simp_all add: same_control_def)

lemma ingest_into_control [sbn_frame]:
  "ingest_into i buf sz m s = Inr s' \<Longrightarrow> same_control s s'"
  by (auto simp: ingest_into_def bindR_Inr_iff Let_def split: if_splits)

lemma ingest_loop_control [sbn_frame]:
  "ingest_loop n buf sz m used s = Inr s' \<Longrightarrow> same_control s s'"
proof (induction n arbitrary: used)
  case 0
  then show ?case by auto
next
  case (Suc n)
  then show ?case
    by (auto simp: bindR_Inr_iff Let_def intro: ingest_into_control split: if_splits option.splits)
qed

lemma ingest_control [sbn_frame]:
  assumes "ingest_app_message P g fd sz s = Inr s'"
  shows "same_control s s'"
proof -
  obtain st buf t where rd: "CFE_SBN_Client_ReadBytes P fd (uninit g (CFE_SB_MAX_SB_MSG_SIZE P)) (unat sz) s = Inr (st, buf, t)"
    using assms by (auto simp: ingest_app_message_def bindR_Inr_iff)
  have "same_control s t"
  proof (cases "CFE_SB_MAX_SB_MSG_SIZE P < unat sz")
    case True
    then show ?thesis
      using ReadBytes_too_big [OF True, of fd "uninit g (CFE_SB_MAX_SB_MSG_SIZE P)" s] rd
      by (auto intro: same_control_only_read)
  next
    case False
    then show ?thesis using ReadBytes_returns(1) [OF _ rd] by (simp add: same_control_only_read)
  qed
  moreover have "same_control t s'"
    using assms(1) ingest_loop_control [of 5 buf sz "CFE_SBN_Client_GetMsgId P buf" False "sync Mutex_lock t" s']
    by (auto simp: ingest_app_message_def rd same_control_def split: if_splits)
  ultimately show ?thesis by (rule same_control_trans)
qed

lemma recv_msg_control_frame [sbn_frame]:
  assumes P: "platform_ok P" and run: "recv_msg P K g h fd s = Inr (st, s')"
  shows "same_control s s'"
proof -
  let ?u = "uninit h (CFE_SB_MAX_SB_MSG_SIZE P)"
  obtain st1 hdr t where rd: "CFE_SBN_Client_ReadBytes P fd (uninit g (SBN_PACKED_HDR_SZ P)) (SBN_PACKED_HDR_SZ P) s
      = Inr (st1, hdr, t)" using run by (auto simp: recv_msg_def bindR_Inr_iff)
  have t: "same_control s t" using ReadBytes_returns(1) [OF _ rd] by (simp add: same_control_only_read)
  obtain sz ty cpu where h: "unpack_header K hdr (SBN_PACKED_HDR_SZ P) = (sz, ty, cpu)"
    by (cases "unpack_header K hdr (SBN_PACKED_HDR_SZ P)")
  have payload: "same_control t v" if "CFE_SBN_Client_ReadBytes P fd ?u (unat sz) t = Inr (st2, b, v)" for st2 b v
  proof (cases "CFE_SB_MAX_SB_MSG_SIZE P < unat sz")
    case True
    then show ?thesis using ReadBytes_too_big [OF True, of fd ?u t] that
      by (auto intro: same_control_only_read)
  next
    case False
    then show ?thesis using ReadBytes_returns(1) [OF _ that] by (simp add: same_control_only_read)
  qed
  have "same_control t s'"
    using run payload ingest_control
    by (auto simp: recv_msg_def rd h bindR_Inr_iff split: if_splits)
  with t show ?thesis by (rule same_control_trans)
qed

section \<open>A stream that has ended\<close>

definition at_end :: "rd_event list \<Rightarrow> bool" where
  "at_end es \<longleftrightarrow> incoming es = [] \<and> ending es = Ends_closed"

lemma sock_read_at_end:
  "at_end es \<Longrightarrow> \<exists>es'. sock_read n es = Inr (R_Eof, es') \<and> at_end es'"
  by (induction n es rule: sock_read.induct) (auto simp: at_end_def)

lemma recv_msg_at_end:
  assumes P: "platform_ok P" and "at_end (rd (Sock s fd))"
  shows "\<exists>s'. recv_msg P K g h fd s = Inr (CFE_SBN_CLIENT_PIPE_CLOSED_ERR, s') \<and>
    at_end (rd (Sock s' fd)) \<and> PipeTbl s' = PipeTbl s"
proof -
  obtain es' where es': "sock_read 7 (rd (Sock s fd)) = Inr (R_Eof, es')" "at_end es'"
    using sock_read_at_end [OF assms(2)] by blast
  have sz: "SBN_PACKED_HDR_SZ P = 7" "\<not> CFE_SB_MAX_SB_MSG_SIZE P < 7" "CFE_SUCCESS P = 0"
    using platform_okD [OF P] by simp_all
  then show ?thesis
    using es' by (simp add: recv_msg_def CFE_SBN_Client_ReadBytes_def ReadBytes_loop.simps [of P fd 7])
qed

lemma receive_round_at_end:
  assumes P: "platform_ok P" and "at_end (rd (Sock s (sbn_client_sockfd s)))"
  shows "\<exists>s'. receive_round P K g h c s = Inr (c + 1, s') \<and>
    at_end (rd (Sock s' (sbn_client_sockfd s'))) \<and> PipeTbl s' = PipeTbl s \<and>
    (if c + 1 = 5 then \<not> continue_heartbeat s' \<and> \<not> continue_receive_check s'
     else continue_heartbeat s' = continue_heartbeat s \<and>
       continue_receive_check s' = continue_receive_check s)"
proof -
  obtain t where t: "recv_msg P K g h (sbn_client_sockfd s) s = Inr (CFE_SBN_CLIENT_PIPE_CLOSED_ERR, t)"
    "at_end (rd (Sock t (sbn_client_sockfd s)))" "PipeTbl t = PipeTbl s"
    using recv_msg_at_end [OF assms, of K g h] by blast
  have "same_control s t" using recv_msg_control_frame [OF P t(1)] .
  then show ?thesis
    using t platform_okD(1) [OF P] by (simp add: receive_round_def same_control_def)
qed

text \<open>From a count of \<open>5 - n\<close> errors the loop ends after \<open>n\<close> more rounds.\<close>

lemma receive_loop_at_end:
  assumes P: "platform_ok P" and "at_end (rd (Sock s (sbn_client_sockfd s)))" and "0 < n" "n \<le> 5"
    and "continue_receive_check s"
  shows "\<exists>t. receive_loop P K g h k (5 - of_nat n) s = Some (Inr t) \<and> \<not> continue_heartbeat t \<and>
    \<not> continue_receive_check t \<and> PipeTbl t = PipeTbl s"
  using assms(2-5)
proof (induction n arbitrary: s k)
  case 0
  then show ?case by simp
next
  case (Suc n)
  let ?c = "5 - of_nat (Suc n) :: i32"
  have c: "?c + 1 = 5 - of_nat n" by simp
  have five: "(5 - of_nat n :: i32) = 5 \<longleftrightarrow> n = 0"
    using Suc.prems(3) by (auto simp: word_of_nat_eq_0_iff dest: dvd_imp_le)
  obtain s1 where s1: "receive_round P K (g k) (h k) ?c s = Inr (?c + 1, s1)"
    "at_end (rd (Sock s1 (sbn_client_sockfd s1)))" "PipeTbl s1 = PipeTbl s"
    and flags: "if ?c + 1 = 5 then \<not> continue_heartbeat s1 \<and> \<not> continue_receive_check s1
     else continue_heartbeat s1 = continue_heartbeat s \<and> continue_receive_check s1 = continue_receive_check s"
    using receive_round_at_end [OF P Suc.prems(1), of K "g k" "h k" ?c] by blast
  have step: "receive_loop P K g h k ?c s = receive_loop P K g h (Suc k) (?c + 1) s1"
    using Suc.prems(4) s1(1) by (subst receive_loop.simps) simp
  show ?case
  proof (cases "n = 0")
    case True
    then have "\<not> continue_heartbeat s1" "\<not> continue_receive_check s1" using flags by simp_all
    then show ?thesis unfolding step by (subst receive_loop.simps) (simp add: s1(3))
  next
    case False
    then have "continue_receive_check s1" using flags Suc.prems(4) unfolding c five by simp
    then show ?thesis
      using Suc.IH [OF s1(2) _ _ \<open>continue_receive_check s1\<close>, of "Suc k"] False Suc.prems(3)
      unfolding step c by (simp add: s1(3))
  qed
qed

text \<open>Rounds that all succeed: the loop goes on with a count of 0.\<close>

lemma receive_loop_good:
  assumes P: "platform_ok P" and "continue_receive_check s"
    and "recv_each P K g h (sbn_client_sockfd s) n s = Inr (replicate n (CFE_SUCCESS P), s')"
  shows "receive_loop P K (\<lambda>_. g) (\<lambda>_. h) k c s =
      receive_loop P K (\<lambda>_. g) (\<lambda>_. h) (k + n) (if n = 0 then c else 0) s' \<and> same_control s s'"
  using assms(2,3)
proof (induction n arbitrary: s k c)
  case 0
  then show ?case by simp
next
  case (Suc n)
  obtain s1 where one: "recv_msg P K g h (sbn_client_sockfd s) s = Inr (CFE_SUCCESS P, s1)"
    and rest: "recv_each P K g h (sbn_client_sockfd s) n s1 = Inr (replicate n (CFE_SUCCESS P), s')"
    using Suc.prems(2) by (auto simp: bindR_Inr_iff)
  have sc: "same_control s s1" using recv_msg_control_frame [OF P one] .
  then have fd: "sbn_client_sockfd s1 = sbn_client_sockfd s" "continue_receive_check s1"
    using Suc.prems(1) by (simp_all add: same_control_def)
  have "receive_loop P K (\<lambda>_. g) (\<lambda>_. h) k c s = receive_loop P K (\<lambda>_. g) (\<lambda>_. h) (Suc k) 0 s1"
    using Suc.prems(1) one by (subst receive_loop.simps) (simp add: receive_round_def)
  then show ?case
    using Suc.IH [OF fd(2), of "Suc k" 0] rest fd(1) same_control_trans [OF sc] by auto
qed

lemma receive_loop_stream:
  fixes s :: "'m::len word client"
  assumes P: "platform_ok P" and K: "packer_ok K enc" and inv: "tbl_inv P (PipeTbl s)"
    and fs: "\<forall>f \<in> set fs. frame_ok P f" and go: "continue_receive_check s"
    and stream: "incoming (rd (Sock s (sbn_client_sockfd s))) = concat (map frame_bytes fs)"
    and closed: "ending (rd (Sock s (sbn_client_sockfd s))) = Ends_closed"
  shows "\<exists>t. SBN_Client_ReceiveMinder P K (\<lambda>_. g) (\<lambda>_. h) s = Some (Inr t) \<and>
    \<not> continue_heartbeat t \<and> \<not> continue_receive_check t \<and> tbl_inv P (PipeTbl t) \<and>
    (\<forall>i < 5. \<exists>st. pipe_unread (PipeTbl t ! i) = pipe_unread (PipeTbl s ! i) @ st \<and>
       list_all2 slot_carries st
         (take (31 - length (pipe_unread (PipeTbl s ! i))) (routed P h (PipeTbl s) i fs)))"
proof -
  let ?fd = "sbn_client_sockfd s"
  have stream': "incoming (rd (Sock s ?fd)) = concat (map frame_bytes fs) @ []" using stream by simp
  obtain s' where s': "recv_each P K g h ?fd (length fs) s = Inr (replicate (length fs) (CFE_SUCCESS P), s')"
      "tbl_inv P (PipeTbl s')" "incoming (rd (Sock s' ?fd)) = []" "ending (rd (Sock s' ?fd)) = Ends_closed"
    and q: "\<forall>i < 5. \<exists>st. pipe_unread (PipeTbl s' ! i) = pipe_unread (PipeTbl s ! i) @ st \<and>
       list_all2 slot_carries st
         (take (31 - length (pipe_unread (PipeTbl s ! i))) (routed P h (PipeTbl s) i fs))"
    using recv_each_frames [OF P K inv fs stream', of g h] closed by auto
  note good = receive_loop_good [OF P go s'(1), of 0 0]
  have sc: "same_control s s'" using good by blast
  then have fd: "sbn_client_sockfd s' = ?fd" "continue_receive_check s'" using go by (simp_all add: same_control_def)
  have end': "at_end (rd (Sock s' (sbn_client_sockfd s')))" using s'(3,4) by (simp add: at_end_def fd)
  obtain t where t: "receive_loop P K (\<lambda>_. g) (\<lambda>_. h) (length fs) (5 - of_nat 5) s' = Some (Inr t)"
    "\<not> continue_heartbeat t" "\<not> continue_receive_check t" "PipeTbl t = PipeTbl s'"
    using receive_loop_at_end [OF P end' _ _ fd(2), of 5 K "\<lambda>_. g" "\<lambda>_. h" "length fs"] by auto
  have "SBN_Client_ReceiveMinder P K (\<lambda>_. g) (\<lambda>_. h) s = Some (Inr t)"
    using good t(1) by (simp add: SBN_Client_ReceiveMinder_def)
  then show ?thesis using t q s'(2) by auto
qed

section \<open>The heartbeat loop\<close>

text \<open>\<open>n\<close> rounds of the loop, each followed by what the other threads do.\<close>

fun heartbeat_rounds :: "platform \<Rightarrow> ('i, 'k, 'u) packer \<Rightarrow> (nat \<Rightarrow> 'i client \<Rightarrow> 'i client) \<Rightarrow> nat \<Rightarrow> nat \<Rightarrow>
    'i client \<Rightarrow> 'i client" where
  "heartbeat_rounds P K others k 0 s = s"
| "heartbeat_rounds P K others k (Suc n) s =
     heartbeat_rounds P K others (Suc k) n (others k (heartbeat_round P K s))"

lemma HeartbeatMinder_rounds:
  assumes "\<forall>m < n. continue_heartbeat (heartbeat_rounds P K others k m s)"
    and "\<not> continue_heartbeat (heartbeat_rounds P K others k n s)"
  shows "SBN_Client_HeartbeatMinder P K others k s = Some (heartbeat_rounds P K others k n s)"
  using assms
proof (induction n arbitrary: k s)
  case 0
  then show ?case by (subst SBN_Client_HeartbeatMinder.simps) simp
next
  case (Suc n)
  have "continue_heartbeat s" using Suc.prems(1) by (metis heartbeat_rounds.simps(1) zero_less_Suc)
  moreover have "\<forall>m < n. continue_heartbeat (heartbeat_rounds P K others (Suc k) m (others k (heartbeat_round P K s)))"
    using Suc.prems(1) by (metis Suc_mono heartbeat_rounds.simps(2))
  ultimately show ?case
    using Suc.IH Suc.prems(2) by (subst SBN_Client_HeartbeatMinder.simps) simp
qed

definition stops_after :: "platform \<Rightarrow> ('i, 'k, 'u) packer \<Rightarrow> (nat \<Rightarrow> 'i client \<Rightarrow> 'i client) \<Rightarrow> nat \<Rightarrow>
    'i client \<Rightarrow> 'i client \<Rightarrow> nat \<Rightarrow> bool" where
  "stops_after P K others k s t n \<longleftrightarrow> t = heartbeat_rounds P K others k n s \<and> \<not> continue_heartbeat t \<and>
     (\<forall>m < n. continue_heartbeat (heartbeat_rounds P K others k m s))"

lemma stops_after_Suc:
  assumes "continue_heartbeat s" and "stops_after P K others (Suc k) (others k (heartbeat_round P K s)) t n"
  shows "stops_after P K others k s t (Suc n)"
  unfolding stops_after_def
proof (intro conjI allI impI)
  fix m assume "m < Suc n"
  then show "continue_heartbeat (heartbeat_rounds P K others k m s)"
    using assms by (cases m) (auto simp: stops_after_def)
qed (use assms(2) in \<open>auto simp: stops_after_def\<close>)

lemma HeartbeatMinder_returns:
  assumes "SBN_Client_HeartbeatMinder P K others k s = Some t"
  shows "\<exists>n. stops_after P K others k s t n"
proof -
  have "case ((((P, K), others), k), s) of ((((P, K), others), k), s) \<Rightarrow> \<exists>n. stops_after P K others k s t n"
    using assms
  proof (induction rule: SBN_Client_HeartbeatMinder.raw_induct [rotated, consumes 1, case_names step])
    case (step minder P K others k s t)
    show ?case
    proof (cases "continue_heartbeat s")
      case True
      then obtain n where "stops_after P K others (Suc k) (others k (heartbeat_round P K s)) t n"
        using step(1) [of P K others "Suc k" "others k (heartbeat_round P K s)" t] step(2) by auto
      then show ?thesis using stops_after_Suc [OF True] by blast
    next
      case False
      then have "stops_after P K others k s t 0" using step(2) by (simp add: stops_after_def)
      then show ?thesis by auto
    qed
  qed
  then show ?thesis by simp
qed

section \<open>Properties\<close>

text \<open>
  C29. The receive thread ends when the peer closes: on every stream of well-formed frames followed by
  a close, whatever the chunks, the thread returns after delivering all frames as queues, and five
  failing rounds later both loop flags are cleared, so the heartbeat thread stops as well; the table
  invariant holds at the end.
\<close>

theorem ReceiveMinder_shutdown:
  fixes s :: "'m::len word client"
  assumes "platform_ok P" and "packer_ok K enc" and "tbl_inv P (PipeTbl s)"
    and "\<forall>f \<in> set fs. frame_ok P f" and "continue_receive_check s"
    and "incoming (rd (Sock s (sbn_client_sockfd s))) = concat (map frame_bytes fs)"
    and "ending (rd (Sock s (sbn_client_sockfd s))) = Ends_closed"
  shows "\<exists>t. SBN_Client_ReceiveMinder P K (\<lambda>_. g) (\<lambda>_. h) s = Some (Inr t) \<and>
    \<not> continue_heartbeat t \<and> \<not> continue_receive_check t \<and> tbl_inv P (PipeTbl t) \<and>
    (\<forall>i < 5. \<exists>st. pipe_unread (PipeTbl t ! i) = pipe_unread (PipeTbl s ! i) @ st \<and>
       list_all2 slot_carries st
         (take (31 - length (pipe_unread (PipeTbl s ! i))) (routed P h (PipeTbl s) i fs)))"
  using assms by (rule receive_loop_stream)

lemma client_subscribed_flags [simp]:
  "sbn_client_sockfd (client_subscribed P m) = 0" "continue_receive_check (client_subscribed P m)"
  by (simp_all add: client_subscribed_def client_with_pipe_def ready_client_def
      CFE_SBN_Client_InitPipeTbl_def client_start_def)

lemma listening_flags [simp]:
  "sbn_client_sockfd (listening es s) = sbn_client_sockfd s"
  "continue_receive_check (listening es s) = continue_receive_check s"
  by (simp_all add: listening_def)

theorem ReceiveMinder_shutdown_witness:
  "\<exists>t :: 16 word client. SBN_Client_ReceiveMinder cfs_small list_packer (\<lambda>_ _. 0) (\<lambda>_ _. 0)
      (listening [Rd_Data [0, 0, 0xA0, 0], Rd_Data [0, 0, 1], Rd_Close] (client_subscribed cfs_small 0x1801)) =
      Some (Inr t) \<and> \<not> continue_heartbeat t \<and> \<not> continue_receive_check t"
proof -
  let ?s = "listening [Rd_Data [0, 0, 0xA0, 0], Rd_Data [0, 0, 1], Rd_Close]
      (client_subscribed cfs_small 0x1801) :: 16 word client"
  let ?fs = "[(0xA0, 1, [])] :: frame list"
  have a: "tbl_inv cfs_small (PipeTbl ?s)" "\<forall>f \<in> set ?fs. frame_ok cfs_small f" "continue_receive_check ?s"
    "incoming (rd (Sock ?s (sbn_client_sockfd ?s))) = concat (map frame_bytes ?fs)"
    "ending (rd (Sock ?s (sbn_client_sockfd ?s))) = Ends_closed"
    by (simp_all add: frame_ok_def control_type_def sbn_header_def be16_def be32_def)
  show ?thesis
    using ReceiveMinder_shutdown [OF platform_ok_cfs(2) packer_ok_list_packer a, of "\<lambda>_. 0" "\<lambda>_. 0"] by blast
qed


lemma heartbeat_round_ok:
  assumes P: "platform_ok P" and K: "packer_ok K enc" and fd: "sbn_client_sockfd s \<noteq> 0"
    and ok: "wr (Sock s (sbn_client_sockfd s)) = []"
  shows "heartbeat_round P K s =
    (set_chan (sbn_client_sockfd s) ((Sock s (sbn_client_sockfd s))
       \<lparr>sent := sent (Sock s (sbn_client_sockfd s)) @ sbn_header 0 0xA0 2\<rparr>) s)\<lparr>Slept := Slept s + 3\<rparr>"
  using send_heartbeat_frame [OF P K, of "sbn_client_sockfd s" s] fd ok
  by (simp add: heartbeat_round_def sock_write_def)

text \<open>An environment that only decides, after each round, whether the flag stays set.\<close>

definition flag_only :: "(nat \<Rightarrow> bool) \<Rightarrow> nat \<Rightarrow> 'i client \<Rightarrow> 'i client" where
  "flag_only stay k s = s\<lparr>continue_heartbeat := stay k\<rparr>"

lemma heartbeat_rounds_sent:
  assumes P: "platform_ok P" and K: "packer_ok K enc" and "sbn_client_sockfd s = fd" "fd \<noteq> 0"
    and "wr (Sock s fd) = []"
  shows "let t = heartbeat_rounds P K (flag_only stay) k n s in
    sbn_client_sockfd t = fd \<and> wr (Sock t fd) = [] \<and>
    sent (Sock t fd) = sent (Sock s fd) @ concat (replicate n (sbn_header 0 0xA0 2)) \<and>
    Slept t = Slept s + 3 * n \<and> continue_heartbeat t = (if n = 0 then continue_heartbeat s else stay (k + n - 1))"
  using assms(3-5)
proof (induction n arbitrary: k s)
  case 0
  then show ?case by simp
next
  case (Suc n)
  let ?s = "flag_only stay k (heartbeat_round P K s)"
  have eq: "heartbeat_round P K s = (set_chan fd ((Sock s fd)
       \<lparr>sent := sent (Sock s fd) @ sbn_header 0 0xA0 2\<rparr>) s)\<lparr>Slept := Slept s + 3\<rparr>"
    using heartbeat_round_ok [OF P K] Suc.prems by simp
  have a: "sbn_client_sockfd ?s = fd" "wr (Sock ?s fd) = []"
    "sent (Sock ?s fd) = sent (Sock s fd) @ sbn_header 0 0xA0 2" "Slept ?s = Slept s + 3"
    "continue_heartbeat ?s = stay k"
    using Suc.prems by (simp_all add: eq flag_only_def)
  show ?case using Suc.IH [OF a(1) Suc.prems(2) a(2), of "Suc k"] a by (simp add: Let_def)
qed

text \<open>
  The heartbeat rate: on a connected socket that takes all bytes, if the flag is cleared during the
  \<open>n\<close>-th sleep, the thread has written exactly \<open>n\<close> heartbeat frames (an empty payload, type 0xA0,
  processor 2), slept three seconds after each, and returns.
\<close>

theorem HeartbeatMinder_rate:
  assumes P: "platform_ok P" and K: "packer_ok K enc" and s: "sbn_client_sockfd s = fd" "fd \<noteq> 0"
    "wr (Sock s fd) = []" "continue_heartbeat s"
    and n: "0 < n" "\<forall>j < n - 1. stay j" "\<not> stay (n - 1)"
  shows "\<exists>t. SBN_Client_HeartbeatMinder P K (flag_only stay) 0 s = Some t \<and>
    sent (Sock t fd) = sent (Sock s fd) @ concat (replicate n (sbn_header 0 0xA0 2)) \<and>
    Slept t = Slept s + 3 * n"
proof -
  note r = heartbeat_rounds_sent [OF P K s(1-3), of stay 0, unfolded Let_def]
  have "\<forall>m < n. continue_heartbeat (heartbeat_rounds P K (flag_only stay) 0 m s)"
    using r s(4) n(2) by auto
  moreover have "\<not> continue_heartbeat (heartbeat_rounds P K (flag_only stay) 0 n s)"
    using r n by simp
  ultimately show ?thesis using HeartbeatMinder_rounds [of n P K "flag_only stay" 0 s] r [of n] by blast
qed

theorem HeartbeatMinder_rate_witness:
  "\<exists>t :: 16 word client. SBN_Client_HeartbeatMinder cfs_small list_packer (flag_only (\<lambda>j. j < 1)) 0
      ((client_start cfs_small)\<lparr>sbn_client_sockfd := 4\<rparr>) = Some t \<and>
    sent (Sock t 4) = [0, 0, 0xA0, 0, 0, 0, 2, 0, 0, 0xA0, 0, 0, 0, 2] \<and> Slept t = 6"
proof -
  let ?s = "(client_start cfs_small)\<lparr>sbn_client_sockfd := 4\<rparr> :: 16 word client"
  have a: "sbn_client_sockfd ?s = 4" "(4 :: i32) \<noteq> 0" "wr (Sock ?s 4) = []" "continue_heartbeat ?s"
    "sent (Sock ?s 4) = []" "Slept ?s = 0"
    by (simp_all add: client_start_def)
  have "concat (replicate 2 (sbn_header 0 0xA0 2)) = [0, 0, 0xA0, 0, 0, 0, 2, 0, 0, 0xA0, 0, 0, 0, 2]"
    by (simp only: numeral_2_eq_2 replicate.simps concat.simps)
      (simp add: sbn_header_def be16_def be32_def)
  then show ?thesis
    using HeartbeatMinder_rate [OF platform_ok_cfs(2) packer_ok_list_packer a(1-4), of 2 "\<lambda>j. j < 1"] a(5,6)
    by auto
qed

end
