(* ===== verification/SBN_Init.thy ===== *)
theory SBN_Init
  imports SBN_Minders
begin

text \<open>
  \<open>SBN_Client_Init\<close> (\<open>sbn_client_init.c\<close>): connect to the SBN application, initialise the pipe
  table, start the two threads. What the system calls return is a record.
\<close>

section \<open>The operation\<close>

record init_env =
  conn :: connect_env
  heart_ret :: i32
  receive_ret :: i32

text \<open>\<open>pthread_create\<close>: a thread more when it returns 0.\<close>

definition pthread_create :: "i32 \<Rightarrow> thread_fn \<Rightarrow> 'i client \<Rightarrow> 'i client" where
  "pthread_create ret fn s = (if ret = 0 then s\<lparr>Threads := Threads s @ [fn]\<rparr> else s)"

definition SBN_Client_Init :: "platform \<Rightarrow> init_env \<Rightarrow> 'm::len word client \<Rightarrow> i32 \<times> 'm word client" where
  "SBN_Client_Init P e s0 =
     (let s1 = log_message (''SBN_Client Connecting to %s, %d'' @ [CHR 0x0A])
                 [Str_arg SBN_CLIENT_IP_ADDR, Int_arg (ucast SBN_CLIENT_PORT)] s0;
          (fd, s2) = connect_to_server P (conn e) SBN_CLIENT_IP_ADDR SBN_CLIENT_PORT s1;
          s3 = s2\<lparr>sbn_client_sockfd := fd, sbn_client_cpuId := 2\<rparr>;
          (status, s4) =
            (if sint (sbn_client_sockfd s3) < 0 then
               (SBN_CLIENT_BAD_SOCK_FD_EID,
                log_message ''SBN_CLIENT: ERROR Failed to get sbn_client_sockfd, cannot continue.'' [] s3)
             else
               let s5 = pthread_create (heart_ret e) SBN_Client_HeartbeatMinder_fn
                          (CFE_SBN_Client_InitPipeTbl P s3);
                   (st, s6) = check_pthread_create_status P (heart_ret e)
                                SBN_CLIENT_HEART_THREAD_CREATE_EID s5
               in if st = SBN_CLIENT_SUCCESS P then
                    check_pthread_create_status P (receive_ret e) SBN_CLIENT_RECEIVE_THREAD_CREATE_EID
                      (pthread_create (receive_ret e) SBN_Client_ReceiveMinder_fn s6)
                  else (st, s6))
      in if status \<noteq> SBN_CLIENT_SUCCESS P
         then (status, log_message (''SBN_Client_Init error %d'' @ [CHR 0x0A]) [Int_arg status] s4)
         else (status, s4))"

section \<open>Connecting\<close>

text \<open>The stage at which connecting ends, from what the system calls return.\<close>

datatype conn_stage = No_socket | Bad_address | Bad_family | Not_connected | Connected

definition conn_stage :: "connect_env \<Rightarrow> conn_stage" where
  "conn_stage e =
     (if sint (socket_ret e) < 0 then No_socket
      else if inet_pton_ret e = 0 then Bad_address
      else if inet_pton_ret e = -1 then Bad_family
      else if sint (connect_ret e) < 0 then Not_connected else Connected)"

fun conn_result :: "connect_env \<Rightarrow> conn_stage \<Rightarrow> i32" where
  "conn_result e No_socket = -1"
| "conn_result e Bad_address = -2"
| "conn_result e Bad_family = -3"
| "conn_result e Not_connected = -4"
| "conn_result e Connected = socket_ret e"

lemma connect_result:
  "fst (connect_to_server P e ip port s) = conn_result e (conn_stage e)"
  by (simp add: connect_to_server_def conn_stage_def Let_def)

lemma connect_frame [simp]:
  "PipeTbl (snd (connect_to_server P e ip port s)) = PipeTbl s"
  "continue_heartbeat (snd (connect_to_server P e ip port s)) = continue_heartbeat s"
  "continue_receive_check (snd (connect_to_server P e ip port s)) = continue_receive_check s"
  "Sock (snd (connect_to_server P e ip port s)) = Sock s"
  "HeapBlocks (snd (connect_to_server P e ip port s)) = HeapBlocks s"
  "Threads (snd (connect_to_server P e ip port s)) = Threads s"
  "Sync (snd (connect_to_server P e ip port s)) = Sync s"
  by (simp_all add: connect_to_server_def Let_def)

lemma connect_fds:
  "OpenFds (snd (connect_to_server P e ip port s)) =
     (if conn_stage e = No_socket then OpenFds s else OpenFds s @ [socket_ret e])"
  by (simp add: connect_to_server_def conn_stage_def Let_def)

lemma conn_result_sign: "sint (conn_result e (conn_stage e)) < 0 \<longleftrightarrow> conn_stage e \<noteq> Connected"
proof (cases "conn_stage e")
  case Connected
  then have "\<not> sint (socket_ret e) < 0" by (auto simp: conn_stage_def split: if_splits)
  then show ?thesis using Connected by simp
qed simp_all

section \<open>Properties\<close>

text \<open>
  Connecting, every branch: the call sleeps five seconds, then returns a distinct negative code for
  each stage that fails (socket, address text, address family, connection) and the descriptor
  otherwise. Every failure after the socket exists leaves its descriptor open, and nobody keeps
  it. Once there is a socket, the address holds the family, the port in network byte order and the parsed
  IP address if there is one; every other byte of it is the character '0', not 0.
\<close>

theorem connect_branches:
  "fst (connect_to_server P e ip port s) = conn_result e (conn_stage e) \<and>
   (sint (fst (connect_to_server P e ip port s)) < 0 \<longleftrightarrow> conn_stage e \<noteq> Connected) \<and>
   OpenFds (snd (connect_to_server P e ip port s)) =
     (if conn_stage e = No_socket then OpenFds s else OpenFds s @ [socket_ret e]) \<and>
   PipeTbl (snd (connect_to_server P e ip port s)) = PipeTbl s \<and>
   Slept (snd (connect_to_server P e ip port s)) = Slept s + 5 \<and>
   server_address (snd (connect_to_server P e ip port s)) =
     (if conn_stage e = No_socket then server_address s
      else \<lparr>sin_family = AF_INET, sin_port = htons port,
             sin_addr = (if inet_pton_ret e = 1 then inet_pton_addr e else replicate 4 0x30),
             sin_zero = replicate 8 0x30\<rparr>)"
proof (intro conjI)
  show "Slept (snd (connect_to_server P e ip port s)) = Slept s + 5"
    by (simp add: connect_to_server_def Let_def log_message_def log_message_ret_def perror_def)
  show "server_address (snd (connect_to_server P e ip port s)) =
     (if conn_stage e = No_socket then server_address s
      else \<lparr>sin_family = AF_INET, sin_port = htons port,
             sin_addr = (if inet_pton_ret e = 1 then inet_pton_addr e else replicate 4 0x30),
             sin_zero = replicate 8 0x30\<rparr>)"
    by (simp add: connect_to_server_def Let_def conn_stage_def zero_char_address_def
        log_message_def log_message_ret_def perror_def)
qed (simp_all add: connect_result connect_fds conn_result_sign)

lemma Init_cases:
  assumes P: "platform_ok P" and wf: "tbl_wf P (PipeTbl s)"
  shows "let (st, s') = SBN_Client_Init P e s in
    (conn_stage (conn e) \<noteq> Connected \<longrightarrow>
       st = SBN_CLIENT_BAD_SOCK_FD_EID \<and> PipeTbl s' = PipeTbl s \<and> Threads s' = Threads s) \<and>
    (conn_stage (conn e) = Connected \<longrightarrow>
       sbn_client_sockfd s' = socket_ret (conn e) \<and> sbn_client_cpuId s' = 2 \<and>
       tbl_inv P (PipeTbl s') \<and> (\<forall>pid. \<not> pipe_live s' pid) \<and>
       (st, Threads s') =
         (if heart_ret e \<noteq> 0 then (SBN_CLIENT_HEART_THREAD_CREATE_EID, Threads s)
          else if receive_ret e \<noteq> 0
          then (SBN_CLIENT_RECEIVE_THREAD_CREATE_EID, Threads s @ [SBN_Client_HeartbeatMinder_fn])
          else (0, Threads s @ [SBN_Client_HeartbeatMinder_fn, SBN_Client_ReceiveMinder_fn])))"
proof -
  let ?s1 = "log_message (''SBN_Client Connecting to %s, %d'' @ [CHR 0x0A])
                 [Str_arg SBN_CLIENT_IP_ADDR, Int_arg (ucast SBN_CLIENT_PORT)] s"
  obtain fd s2 where c: "connect_to_server P (conn e) SBN_CLIENT_IP_ADDR SBN_CLIENT_PORT ?s1 = (fd, s2)"
    by fastforce
  have fd: "fd = conn_result (conn e) (conn_stage (conn e))"
    using connect_result [of P "conn e" SBN_CLIENT_IP_ADDR SBN_CLIENT_PORT ?s1]
    unfolding c by simp
  have keep: "PipeTbl s2 = PipeTbl s" "Threads s2 = Threads s"
    using connect_frame(1,6) [of P "conn e" SBN_CLIENT_IP_ADDR SBN_CLIENT_PORT ?s1]
    unfolding c by simp_all
  have ok: "OS_SUCCESS P = 0" by (rule platform_okD(2) [OF P])
  show ?thesis
  proof (cases "conn_stage (conn e) = Connected")
    case True
    have nn: "\<not> sint fd < 0" using conn_result_sign [of "conn e"] True fd by simp
    have "tbl_wf P (PipeTbl (s2\<lparr>sbn_client_sockfd := fd, sbn_client_cpuId := 2\<rparr>))" using wf keep by simp
    note inv = InitPipeTbl_inv [OF this] and ent = InitPipeTbl_entry(1) [OF this]
    have dead: "\<not> pipe_live (CFE_SBN_Client_InitPipeTbl P (s2\<lparr>sbn_client_sockfd := fd, sbn_client_cpuId := 2\<rparr>)) pid"
      for pid using ent by (simp add: pipe_live_def)
    show ?thesis
      using True nn ok inv dead keep fd
      by (simp add: SBN_Client_Init_def c [simplified] Let_def check_pthread_create_status_def pthread_create_def
          CFE_SBN_Client_InitPipeTbl_def pipe_live_def)
  next
    case False
    have neg: "sint fd < 0" using conn_result_sign [of "conn e"] False fd by simp
    then show ?thesis
      using False ok keep by (simp add: SBN_Client_Init_def c [simplified] Let_def)
  qed
qed

lemma Init_Sync: "Sync (snd (SBN_Client_Init P e (s :: 'a::len word client))) = Sync s"
proof -
  have "Sync (snd (check_pthread_create_status P r i t)) = Sync t" for r i and t :: "'a word client"
    by (simp add: check_pthread_create_status_def Let_def)
  moreover have "Sync (pthread_create r f t) = Sync t" for r f and t :: "'a word client"
    by (simp add: pthread_create_def)
  moreover have "Sync (CFE_SBN_Client_InitPipeTbl P t) = Sync t" for t :: "'a word client"
    by (simp add: CFE_SBN_Client_InitPipeTbl_def)
  ultimately show ?thesis
    by (simp add: SBN_Client_Init_def Let_def case_prod_beta)
qed

text \<open>
  C32. Initialisation, every branch: it succeeds exactly when the connection and both threads come up,
  and then the descriptor and the processor id 2 are set, the table invariant holds, no id names a pipe
  and both threads run, the heartbeat first. A failed connection starts nothing and leaves the table
  alone; a failed second thread is reported although the heartbeat thread is already running.
\<close>

theorem Init_branches:
  assumes P: "platform_ok P" and wf: "tbl_wf P (PipeTbl s)"
  shows "let (st, s') = SBN_Client_Init P e s in
    (conn_stage (conn e) \<noteq> Connected \<longrightarrow>
       st = SBN_CLIENT_BAD_SOCK_FD_EID \<and> PipeTbl s' = PipeTbl s \<and> Threads s' = Threads s) \<and>
    (conn_stage (conn e) = Connected \<longrightarrow>
       sbn_client_sockfd s' = socket_ret (conn e) \<and> sbn_client_cpuId s' = 2 \<and>
       tbl_inv P (PipeTbl s') \<and> (\<forall>pid. \<not> pipe_live s' pid) \<and>
       (st, Threads s') =
         (if heart_ret e \<noteq> 0 then (SBN_CLIENT_HEART_THREAD_CREATE_EID, Threads s)
          else if receive_ret e \<noteq> 0
          then (SBN_CLIENT_RECEIVE_THREAD_CREATE_EID, Threads s @ [SBN_Client_HeartbeatMinder_fn])
          else (0, Threads s @ [SBN_Client_HeartbeatMinder_fn, SBN_Client_ReceiveMinder_fn])))"
  using assms by (rule Init_cases)

theorem Init_branches_witness:
  "let (st, s') = SBN_Client_Init cfs_small \<lparr>conn = \<lparr>socket_ret = 4, socket_errno = 0,
      inet_pton_ret = 1, inet_pton_addr = [127, 0, 0, 1], connect_ret = 0, connect_errno = 0\<rparr>,
      heart_ret = 0, receive_ret = 0\<rparr> (client_start cfs_small :: 16 word client)
   in st = 0 \<and> sbn_client_sockfd s' = 4 \<and> tbl_inv cfs_small (PipeTbl s') \<and>
     Threads s' = [SBN_Client_HeartbeatMinder_fn, SBN_Client_ReceiveMinder_fn]"
proof -
  let ?e = "\<lparr>conn = \<lparr>socket_ret = 4, socket_errno = 0, inet_pton_ret = 1,
      inet_pton_addr = [127, 0, 0, 1], connect_ret = 0, connect_errno = 0\<rparr>, heart_ret = 0, receive_ret = 0\<rparr>"
  let ?s = "client_start cfs_small :: 16 word client"
  have c: "conn_stage (conn ?e) = Connected" "Threads ?s = []"
    by (simp_all add: conn_stage_def client_start_def)
  have wf: "tbl_wf cfs_small (PipeTbl ?s)" by (rule tbl_wf_client_start)
  obtain st s' where run: "SBN_Client_Init cfs_small ?e ?s = (st, s')" by fastforce
  show ?thesis
    using Init_branches [OF platform_ok_cfs(2) wf, of ?e, unfolded run Let_def prod.case]
      c unfolding run by simp
qed

end
