(* ===== verification/SBN_System.thy ===== *)
theory SBN_System
  imports SBN_Init
begin

text \<open>
  The running client: the receive thread, the heartbeat thread and one application thread over
  the shared state, as a step relation. A step is one call, cut at the point where it gives up the mutex: a
  receive call that waits is two steps, with steps of the other threads in between. The locale
  \<open>transition_system\<close> is the induction over runs, interpreted on this relation.
\<close>

section \<open>Runs and invariants\<close>

inductive steps :: "('s \<Rightarrow> 's \<Rightarrow> bool) \<Rightarrow> 's \<Rightarrow> 's \<Rightarrow> bool" for step where
  steps_refl: "steps step s s"
| steps_trans: "steps step s t \<Longrightarrow> step t u \<Longrightarrow> steps step s u"

locale transition_system =
  fixes step :: "'s \<Rightarrow> 's \<Rightarrow> bool"
    and inv :: "'s \<Rightarrow> bool"
  assumes preserved: "inv s \<Longrightarrow> step s t \<Longrightarrow> inv t"
begin

lemma run_inv: "steps step s t \<Longrightarrow> inv s \<Longrightarrow> inv t"
  by (induction rule: steps.induct) (auto intro: preserved)

end

section \<open>The mutex\<close>

text \<open>The trace of lock operations, with the mutex free (\<open>False\<close>) or held: none when an operation is
  applied in the wrong state. Waiting gives the mutex up.\<close>

fun mutex_run :: "bool \<Rightarrow> sync_event list \<Rightarrow> bool option" where
  "mutex_run held [] = Some held"
| "mutex_run held (Mutex_lock # es) = (if held then None else mutex_run True es)"
| "mutex_run held (Mutex_unlock # es) = (if held then mutex_run False es else None)"
| "mutex_run held (Cond_wait # es) = (if held then mutex_run False es else None)"
| "mutex_run held (Cond_signal # es) = mutex_run held es"

lemma mutex_run_append:
  "mutex_run h (xs @ ys) = (case mutex_run h xs of None \<Rightarrow> None | Some h' \<Rightarrow> mutex_run h' ys)"
  by (induction h xs rule: mutex_run.induct) simp_all

definition mutex_free :: "'i client \<Rightarrow> bool" where
  "mutex_free c \<longleftrightarrow> mutex_run False (Sync c) = Some False"

lemma mutex_free_append:
  "mutex_free c \<Longrightarrow> Sync c' = Sync c @ es \<Longrightarrow> mutex_run False es = Some False \<Longrightarrow> mutex_free c'"
  by (simp add: mutex_free_def mutex_run_append)

section \<open>The step relation\<close>

datatype app = Running | Waiting u8

type_synonym 'i system = "'i client \<times> app"

definition waits :: "'m::len word client \<Rightarrow> u8 \<Rightarrow> i32 \<Rightarrow> bool" where
  "waits c pid TimeOut \<longleftrightarrow> pipe_live c pid \<and> pipe_empty (PipeTbl c ! unat pid) \<and>
     \<not> sint TimeOut < -1 \<and> TimeOut \<noteq> 0"

text \<open>
  \<open>sp\<close> says whether a wait may end without a message in the pipe. POSIX allows it for every wait,
  and a signal for another pipe is one more cause. \<open>e\<close> ranges over environments whose lock and unlock
  succeed.
\<close>

inductive sys_step :: "bool \<Rightarrow> platform \<Rightarrow> ('m::len word, 'k, 'u) packer \<Rightarrow>
    'm word system \<Rightarrow> 'm word system \<Rightarrow> bool" for sp P K where
  Receive: "recv_msg P K g h (sbn_client_sockfd c) c = Inr (st, c') \<Longrightarrow>
    sys_step sp P K (c, a) (c', a)"
| Heartbeat: "sys_step sp P K (c, a) (heartbeat_round P K c, a)"
| Create: "wrap_CFE_SB_CreatePipe P ptr depth name c = Inr (st, idp, c') \<Longrightarrow>
    sys_step sp P K (c, Running) (c', Running)"
| Delete: "wrap_CFE_SB_DeletePipe P pid c = (st, c') \<Longrightarrow> sys_step sp P K (c, Running) (c', Running)"
| Subscribe: "wrap_CFE_SB_Subscribe P K m pid c = Inr (st, c') \<Longrightarrow>
    sys_step sp P K (c, Running) (c', Running)"
| Send: "wrap_CFE_SB_SendMsg P K got g msg c = Inr (st, c') \<Longrightarrow>
    sys_step sp P K (c, Running) (c', Running)"
| Rcv_now: "lock_ret e = 0 \<Longrightarrow> unlock_ret e = 0 \<Longrightarrow> \<not> (ptr \<and> waits c pid TimeOut) \<Longrightarrow>
    wrap_CFE_SB_RcvMsg P e ptr pid TimeOut c = Inr (st, b, c') \<Longrightarrow>
    sys_step sp P K (c, Running) (c', Running)"
| Rcv_wait: "waits c pid TimeOut \<Longrightarrow>
    sys_step sp P K (c, Running) (sync Cond_wait (sync Mutex_lock c), Waiting pid)"
| Rcv_wake: "unlock_ret e = 0 \<Longrightarrow> w = 0 \<longrightarrow> sp \<or> pipe_unread (PipeTbl c ! unat pid) \<noteq> [] \<Longrightarrow>
    rcv_finish P e (unat pid) (CFE_SUCCESS P) w (sync Mutex_lock c) = Inr (st, b, c') \<Longrightarrow>
    sys_step sp P K (c, Waiting pid) (c', Running)"

inductive_cases sys_step_cases: "sys_step sp P K s t"

text \<open>The invariant: the table, a free mutex between the steps, and a pipe to wait on.\<close>

definition sys_inv :: "platform \<Rightarrow> 'm::len word system \<Rightarrow> bool" where
  "sys_inv P s \<longleftrightarrow> tbl_inv P (PipeTbl (fst s)) \<and> mutex_free (fst s) \<and>
     (case snd s of Running \<Rightarrow> True | Waiting pid \<Rightarrow> pipe_live (fst s) pid)"

section \<open>Each step keeps it\<close>

text \<open>Receiving a frame: what it may do to the trace, and that pipes stay in use.\<close>

definition recv_trace :: "'i client \<Rightarrow> 'i client \<Rightarrow> bool" where
  "recv_trace c c' \<longleftrightarrow> (Sync c' = Sync c \<or> Sync c' = Sync c @ [Mutex_lock, Mutex_unlock] \<or>
     Sync c' = Sync c @ [Mutex_lock, Mutex_unlock, Cond_signal]) \<and>
     (\<forall>pid. pipe_live c pid \<longrightarrow> pipe_live c' pid)"

lemma recv_trace_only_read: "only_read fd c c' \<Longrightarrow> recv_trace c c'"
  by (simp add: recv_trace_def only_read_def pipe_live_def)

lemma delivers_trace:
  assumes "delivers m bs c c'"
  shows "recv_trace c c'"
proof -
  have use: "InUse (PipeTbl c' ! j) = InUse (PipeTbl c ! j)" for j
    using assms by (cases "route (PipeTbl c) m"; cases "route (PipeTbl c) m = Some j")
      (auto simp: delivers_def split: if_splits)
  then have "\<forall>pid. pipe_live c pid \<longrightarrow> pipe_live c' pid" by (simp add: pipe_live_def)
  then show ?thesis
    using assms by (cases "route (PipeTbl c) m") (auto simp: delivers_def recv_trace_def split: if_splits)
qed

lemma recv_trace_trans_read:
  "only_read fd c t \<Longrightarrow> recv_trace t c' \<Longrightarrow> recv_trace c c'"
  by (simp add: recv_trace_def only_read_def pipe_live_def)

lemma ingest_trace:
  assumes P: "platform_ok P" and inv: "tbl_inv P (PipeTbl s)" and run: "ingest_app_message P g fd sz s = Inr s'"
  shows "recv_trace s s'"
proof (cases "CFE_SB_MAX_SB_MSG_SIZE P < unat sz \<or> length (incoming (rd (Sock s fd))) < unat sz")
  case True
  then show ?thesis using ingest_failed [OF True P, of g] run by (auto intro: recv_trace_only_read)
next
  case False
  then show ?thesis
    using ingest_enough [OF inv _ _ refl refl, of sz fd g] run by (auto intro: delivers_trace)
qed

lemma ReadBytes_only_read:
  assumes "CFE_SBN_Client_ReadBytes P fd buf n s = Inr (st, buf', t)"
    and "n \<le> length buf \<or> CFE_SB_MAX_SB_MSG_SIZE P < n"
  shows "only_read fd s t"
proof (cases "CFE_SB_MAX_SB_MSG_SIZE P < n")
  case True
  then show ?thesis using ReadBytes_too_big [OF True, of fd buf s] assms(1) by auto
next
  case False
  then show ?thesis using ReadBytes_returns(1) [OF _ assms(1)] assms(2) by simp
qed

lemma recv_msg_trace:
  assumes P: "platform_ok P" and inv: "tbl_inv P (PipeTbl s)" and run: "recv_msg P K g h fd s = Inr (st, s')"
  shows "recv_trace s s'"
proof -
  obtain st1 hdr t where hd: "CFE_SBN_Client_ReadBytes P fd (uninit g (SBN_PACKED_HDR_SZ P)) (SBN_PACKED_HDR_SZ P) s
      = Inr (st1, hdr, t)" using run by (auto simp: recv_msg_def bindR_Inr_iff)
  have t: "only_read fd s t" using ReadBytes_only_read [OF hd] by simp
  then have invt: "tbl_inv P (PipeTbl t)" using inv by (simp add: only_read_def)
  obtain sz ty cpu where h: "unpack_header K hdr (SBN_PACKED_HDR_SZ P) = (sz, ty, cpu)"
    by (cases "unpack_header K hdr (SBN_PACKED_HDR_SZ P)")
  have payload: "recv_trace t v"
    if "CFE_SBN_Client_ReadBytes P fd (uninit h (CFE_SB_MAX_SB_MSG_SIZE P)) (unat sz) t = Inr (st2, b, v)"
    for st2 b v
    using ReadBytes_only_read [OF that] by (intro recv_trace_only_read) (simp add: not_less [symmetric])
  have other: "recv_trace t (log_message f a t)" "recv_trace t (printf f a t)" for f a
    by (simp_all add: recv_trace_def pipe_live_def)
  have "recv_trace t s'"
    using run payload ingest_trace [OF P invt] other
    by (auto simp: recv_msg_def hd h bindR_Inr_iff split: if_splits)
  with t show ?thesis by (rule recv_trace_trans_read)
qed

lemma recv_msg_keeps:
  assumes P: "platform_ok P" and K: "packer_ok K enc" and inv: "sys_inv P (s, a)"
    and run: "recv_msg P K g h fd s = Inr (st, s')"
  shows "sys_inv P (s', a)"
proof -
  have tbl: "tbl_inv P (PipeTbl s)" using inv by (simp add: sys_inv_def)
  have tbl': "tbl_inv P (PipeTbl s')" using recv_msg_no_fault [OF P K tbl, of g h fd] run by auto
  have tr: "recv_trace s s'" using P tbl run by (rule recv_msg_trace)
  then have "mutex_free s'"
    using inv by (auto simp: sys_inv_def recv_trace_def mutex_free_def mutex_run_append)
  then show ?thesis using inv tbl' tr by (auto simp: sys_inv_def recv_trace_def split: app.splits)
qed

lemma heartbeat_round_keeps:
  "sys_inv P (s, a) \<Longrightarrow> sys_inv P (heartbeat_round Q K s, a)"
  by (simp add: sys_inv_def heartbeat_round_def send_heartbeat_def Let_def mutex_free_def pipe_live_def
      case_prod_beta split: app.splits)

lemma SendMsg_keeps:
  "wrap_CFE_SB_SendMsg Q K got g msg s = Inr (st, s') \<Longrightarrow> PipeTbl s' = PipeTbl s \<and> Sync s' = Sync s"
  by (auto simp: wrap_CFE_SB_SendMsg_def Let_def bindR_Inr_iff write_message_def case_prod_beta
      split: if_splits)

lemma CreatePipe_Sync:
  "wrap_CFE_SB_CreatePipe P ptr depth name s = Inr (st, idp, s') \<Longrightarrow> Sync s' = Sync s"
  by (drule CreatePipe_state) auto

lemma DeletePipe_Sync: "wrap_CFE_SB_DeletePipe P pid s = (st, s') \<Longrightarrow> Sync s' = Sync s"
  by (auto simp: wrap_CFE_SB_DeletePipe_def split: if_splits option.splits)

lemma Subscribe_Sync: "wrap_CFE_SB_Subscribe P K m pid s = Inr (st, s') \<Longrightarrow> Sync s' = Sync s"
  by (auto simp: wrap_CFE_SB_Subscribe_def set_subscription_def bindR_Inr_iff split: if_splits)

lemma RcvMsg_now_keeps:
  assumes P: "platform_ok P" and inv: "tbl_inv P (PipeTbl s)" and free: "mutex_free s"
    and ok: "lock_ret e = 0" "unlock_ret e = 0" and now: "\<not> (ptr \<and> waits s pid TimeOut)"
    and run: "wrap_CFE_SB_RcvMsg P e ptr pid TimeOut s = Inr (st, b, s')"
  shows "tbl_inv P (PipeTbl s') \<and> mutex_free s'"
proof (cases "\<not> ptr \<or> sint TimeOut < -1 \<or> unat pid < 5 \<and> \<not> pipe_live s pid")
  case True
  then have "PipeTbl s' = PipeTbl s" "Sync s' = Sync s"
    using RcvMsg_bad_args [OF P inv True, of e] run by (auto simp: same_data_def)
  then show ?thesis using inv free by (simp add: mutex_free_def)
next
  case False
  then have t: "ptr = True" "\<not> sint TimeOut < -1" by simp_all
  have live: "pipe_live s pid"
    using False RcvMsg_wild [OF inv t(2), of pid e] run t(1) by (cases "unat pid < 5") auto
  show ?thesis
  proof (cases "pipe_unread (PipeTbl s ! unat pid) = []")
    case True
    have "ring_ok (PipeTbl s ! unat pid)"
      using entry_inv_wf [OF tbl_invD(2) [OF inv]] live by (simp add: pipe_live_def)
    then have "TimeOut = 0" using now True t live by (simp add: waits_def pipe_empty_iff)
    then have "s' = sync Mutex_unlock (sync Mutex_lock s)"
      using RcvMsg_drained [OF P inv live t(2) ok(1) True] rcv_finish_error [of "CFE_SB_NO_MESSAGE P" P e]
        platform_okD(1,5) [OF P] ok(2) run t(1) by simp
    then show ?thesis using inv free by (simp add: mutex_free_def mutex_run_append)
  next
    case ne: False
    obtain buf s2 where "wrap_CFE_SB_RcvMsg P e True pid TimeOut s = Inr (CFE_SUCCESS P, buf, s2)"
      "tbl_inv P (PipeTbl s2)" "Sync s2 = Sync s @ [Mutex_lock, Mutex_unlock]"
      using RcvMsg_has_message [OF P inv live t(2) ok ne] by blast
    then show ?thesis using run t(1) mutex_free_append [OF free, of s2] by auto
  qed
qed

lemma rcv_wake_keeps:
  assumes P: "platform_ok P" and inv: "sys_inv P (s, Waiting pid)" and ok: "unlock_ret e = 0"
    and msg: "w = 0 \<longrightarrow> pipe_unread (PipeTbl s ! unat pid) \<noteq> []"
    and run: "rcv_finish P e (unat pid) (CFE_SUCCESS P) w (sync Mutex_lock s) = Inr (st, b, s')"
  shows "sys_inv P (s', Running)"
proof -
  have a: "tbl_inv P (PipeTbl (sync Mutex_lock s))" "pipe_live (sync Mutex_lock s) pid" "mutex_free s"
    using inv by (simp_all add: sys_inv_def pipe_live_def)
  show ?thesis
  proof (cases "w = 0")
    case True
    then have ne: "pipe_unread (PipeTbl (sync Mutex_lock s) ! unat pid) \<noteq> []" using msg by simp
    have "tbl_inv P (PipeTbl s') \<and> Sync s' = Sync (sync Mutex_lock s) @ [Mutex_unlock]"
      using rcv_finish_takes [OF a(1,2) ne ok] run True by auto
    then show ?thesis using a(3) by (simp add: sys_inv_def mutex_free_def mutex_run_append)
  next
    case False
    then have "s' = sync Mutex_unlock (sync Mutex_lock s)"
      using rcv_finish_wait_error [OF P False ok] run by simp
    then show ?thesis using a by (simp add: sys_inv_def mutex_free_def mutex_run_append)
  qed
qed

lemma sys_step_keeps:
  assumes P: "platform_ok P" and K: "packer_ok K enc" and inv: "sys_inv P s" and step: "sys_step False P K s t"
  shows "sys_inv P t"
  using step
proof cases
  case (Receive g h c st c' a)
  then show ?thesis using recv_msg_keeps [OF P K, of c a] inv by simp
next
  case (Heartbeat c a)
  then show ?thesis using heartbeat_round_keeps inv by simp
next
  case (Create ptr depth name c st idp c')
  then show ?thesis
    using CreatePipe_inv [of P c] CreatePipe_Sync [of P ptr depth name c] inv
    by (simp add: sys_inv_def mutex_free_def)
next
  case (Delete pid c st c')
  then show ?thesis
    using DeletePipe_inv [of P c pid] DeletePipe_Sync [of P pid c] inv
    by (simp add: sys_inv_def mutex_free_def)
next
  case (Subscribe m pid c st c')
  then show ?thesis
    using Subscribe_inv [of P c K m pid] Subscribe_Sync [of P K m pid c] inv
    by (simp add: sys_inv_def mutex_free_def)
next
  case (Send got g msg c st c')
  then show ?thesis using SendMsg_keeps [of P K got g msg c] inv by (simp add: sys_inv_def mutex_free_def)
next
  case (Rcv_now e ptr c pid TimeOut st b c')
  then show ?thesis using RcvMsg_now_keeps [OF P, of c e ptr pid TimeOut] inv by (simp add: sys_inv_def)
next
  case (Rcv_wait c pid TimeOut)
  then show ?thesis using inv by (simp add: sys_inv_def mutex_free_def mutex_run_append waits_def pipe_live_def)
next
  case (Rcv_wake e w c pid st b c')
  then show ?thesis using rcv_wake_keeps [OF P, of c pid e w] inv by simp
qed

text \<open>The documented behaviour of platform and serializer is part of the invariant, so that the
  contract holds for every instance.\<close>

definition env_ok :: "platform \<Rightarrow> ('i, 'k, 'u) packer \<Rightarrow> bool" where
  "env_ok P K \<longleftrightarrow> platform_ok P \<and> (\<exists>enc. packer_ok K enc)"

interpretation ts: transition_system "sys_step False P K" "\<lambda>s. env_ok P K \<and> sys_inv P s"
  for P K
proof unfold_locales
  fix s t
  assume "env_ok P K \<and> sys_inv P s" and step: "sys_step False P K s t"
  then obtain enc where a: "platform_ok P" "packer_ok K enc" "sys_inv P s" by (auto simp: env_ok_def)
  from a step have "sys_inv P t" by (rule sys_step_keeps)
  with a show "env_ok P K \<and> sys_inv P t" by (auto simp: env_ok_def)
qed

lemma Init_sys_inv:
  assumes P: "platform_ok P" and wf: "tbl_wf P (PipeTbl s0)" and "Sync s0 = []"
    and conn: "conn_stage (conn e) = Connected" and run: "SBN_Client_Init P e s0 = (st, c0)"
  shows "sys_inv P (c0, Running)"
proof -
  have "tbl_inv P (PipeTbl c0)" using Init_cases [OF P wf, of e] conn by (simp add: run)
  moreover have "Sync c0 = []" using Init_Sync [of P e s0] assms(3) by (simp add: run)
  ultimately show ?thesis by (simp add: sys_inv_def mutex_free_def)
qed

section \<open>Properties\<close>

text \<open>
  C2. The running client is safe: in every state the three threads can reach after a successful
  connection, with any interleaving, input, arguments and results of the system calls, as long as
  no wait ends without a message: the table invariant holds (so every ring is well formed), the mutex was
  always locked and unlocked in turn and is free between the steps, a waiting call waits on a pipe in use,
  and reading the next frame cannot go outside any array.
\<close>

theorem system_safe:
  fixes c :: "'m::len word client"
  assumes P: "platform_ok P" and K: "packer_ok K enc" and wf: "tbl_wf P (PipeTbl s0)" "Sync s0 = []"
    and conn: "conn_stage (conn e) = Connected" and init: "SBN_Client_Init P e s0 = (st, c0)"
    and run: "steps (sys_step False P K) (c0, Running) (c, a)"
  shows "tbl_inv P (PipeTbl c) \<and> mutex_run False (Sync c) = Some False \<and>
    (\<forall>pid. a = Waiting pid \<longrightarrow> pipe_live c pid) \<and>
    (recv_msg P K g h fd c = Inl Blocked \<or> (\<exists>r. recv_msg P K g h fd c = Inr r))"
proof -
  have "env_ok P K \<and> sys_inv P (c0, Running)"
    using P K Init_sys_inv [OF P wf conn init] by (auto simp: env_ok_def)
  then have inv: "sys_inv P (c, a)" using ts.run_inv [OF run] by blast
  then have "tbl_inv P (PipeTbl c)" by (simp add: sys_inv_def)
  from recv_msg_no_fault [OF P K this, of g h fd] show ?thesis
    using inv by (auto simp: sys_inv_def mutex_free_def)
qed

theorem system_safe_witness:
  "let (st, c0) = SBN_Client_Init cfs_small \<lparr>conn = \<lparr>socket_ret = 4, socket_errno = 0,
      inet_pton_ret = 1, inet_pton_addr = [127, 0, 0, 1], connect_ret = 0, connect_errno = 0\<rparr>,
      heart_ret = 0, receive_ret = 0\<rparr> (client_start cfs_small :: 16 word client)
   in tbl_inv cfs_small (PipeTbl (heartbeat_round cfs_small list_packer c0))"
proof -
  let ?e = "\<lparr>conn = \<lparr>socket_ret = 4, socket_errno = 0, inet_pton_ret = 1,
      inet_pton_addr = [127, 0, 0, 1], connect_ret = 0, connect_errno = 0\<rparr>, heart_ret = 0, receive_ret = 0\<rparr>"
  let ?s = "client_start cfs_small :: 16 word client"
  have a: "tbl_wf cfs_small (PipeTbl ?s)" "Sync ?s = []" "conn_stage (conn ?e) = Connected"
    by (rule tbl_wf_client_start) (simp_all add: conn_stage_def client_start_def)
  obtain st c0 where run: "SBN_Client_Init cfs_small ?e ?s = (st, c0)" by fastforce
  have "steps (sys_step False cfs_small list_packer) (c0, Running)
      (heartbeat_round cfs_small list_packer c0, Running)"
    by (rule steps_trans [OF steps_refl]) (rule Heartbeat)
  then show ?thesis
    using system_safe [OF platform_ok_cfs(2) packer_ok_list_packer a run] unfolding run by simp
qed

text \<open>Two pipes, only the second subscribed.\<close>

definition client_cross :: "platform \<Rightarrow> 'm::len word \<Rightarrow> 'm word client" where
  "client_cross P m =
     with_entry 1 (subscribed_entry 0 m (created_pipe P 1 [0x62] (fresh_pipe P))) (client_with_pipe P)"

lemma client_cross_inv: "tbl_inv P (PipeTbl (client_cross P (m :: 'm::len word)))"
proof -
  have "entry_inv P 1 (PipeTbl (ready_client P :: 'm word client) ! 1)"
    by (rule tbl_invD(2) [OF tbl_inv_ready]) simp
  then have "entry_inv P 1 (subscribed_entry 0 m (created_pipe P 1 [0x62] (fresh_pipe P)))"
    by (intro subscribed_entry_inv created_pipe_entry_inv) (simp_all add: ready_client_entry)
  then show ?thesis
    unfolding client_cross_def with_entry_frame by (intro tbl_inv_update client_with_pipe_inv)
qed

lemma client_cross_entries:
  "PipeTbl (client_cross P m) ! 0 = created_pipe P 0 [0x61] (fresh_pipe P)"
  "PipeTbl (client_cross P m) ! Suc 0 = subscribed_entry 0 m (created_pipe P 1 [0x62] (fresh_pipe P))"
  by (simp_all add: client_cross_def client_with_pipe_entry tbl_invD(1) [OF client_with_pipe_inv])

lemma client_cross_fields [simp]:
  "sbn_client_sockfd (client_cross P m) = 0" "Sync (client_cross P m) = []"
  by (simp_all add: client_cross_def)

lemma route_client_cross: "m \<noteq> 0 \<Longrightarrow> route (PipeTbl (client_cross P m)) m = Some 1"
  by (rule route_first [OF client_cross_inv])
    (simp_all add: wants_def client_cross_entries numeral_eq_Suc)

text \<open>
  One condition for all pipes breaks this: an application waits on pipe 0, a message for pipe 1 arrives
  and signals the shared condition, and the waiting call, woken, takes a message from the empty pipe 0;
  the counter of the ring is 0 and the table invariant is lost.
\<close>

theorem cross_pipe_signal:
  "\<exists>c1 c2 c3. sys_step True cfs_small list_packer
      (listening [Rd_Data [0, 2, 3, 0, 0, 0, 1, 24, 1]] (client_cross cfs_small (0x1801 :: 16 word)), Running)
      (c1, Waiting 0) \<and>
    sys_step True cfs_small list_packer (c1, Waiting 0) (c2, Waiting 0) \<and> last (Sync c2) = Cond_signal \<and>
    sys_step True cfs_small list_packer (c2, Waiting 0) (c3, Running) \<and>
    NumberOfMessages (PipeTbl c3 ! 0) = 0 \<and> \<not> tbl_inv cfs_small (PipeTbl c3)"
proof -
  let ?c = "listening [Rd_Data [0, 2, 3, 0, 0, 0, 1, 24, 1]] (client_cross cfs_small (0x1801 :: 16 word))"
  let ?c1 = "sync Cond_wait (sync Mutex_lock ?c)"
  have live: "pipe_live ?c 0" by (simp add: pipe_live_def client_cross_entries)
  have "waits ?c 0 (-1)"
    using live by (simp add: waits_def pipe_empty_def client_cross_entries fresh_pipe_def)
  then have s1: "sys_step True cfs_small list_packer (?c, Running) (?c1, Waiting 0)" by (rule Rcv_wait)
  have inv: "tbl_inv cfs_small (PipeTbl ?c1)" by (simp add: client_cross_inv)
  have stream: "incoming (rd (Sock ?c1 0)) = sbn_header 2 (SBN_APP_MSG cfs_small) 1 @ [24, 1] @ []"
    by (simp add: sbn_header_def be16_def be32_def)
  have id: "app_msgid cfs_small (\<lambda>_. 0) [24, 1] = (0x1801 :: 16 word)" by (subst app_msgid_v1) simp_all
  have r: "route (PipeTbl ?c1) (0x1801 :: 16 word) = Some 1" by (simp add: route_client_cross)
  obtain c2 where c2: "recv_msg cfs_small list_packer (\<lambda>_. 0) (\<lambda>_. 0) 0 ?c1 = Inr (0, c2)"
    "tbl_inv cfs_small (PipeTbl c2)" and d: "delivers (0x1801 :: 16 word) [24, 1] ?c1 c2"
    using recv_msg_app [OF platform_ok_cfs(2) packer_ok_list_packer inv stream, of "\<lambda>_. 0" "\<lambda>_. 0"]
    by (auto simp: id)
  have fd: "sbn_client_sockfd ?c1 = 0" by simp
  have s2: "sys_step True cfs_small list_packer (?c1, Waiting 0) (c2, Waiting 0)"
    by (rule Receive) (unfold fd, rule c2(1))
  have "\<not> pipe_full (PipeTbl ?c1 ! 1)"
    by (simp add: pipe_full_def client_cross_entries fresh_pipe_def)
  then have eff: "Sync c2 = Sync ?c1 @ [Mutex_lock, Mutex_unlock, Cond_signal]"
    "PipeTbl c2 ! 0 = PipeTbl ?c1 ! 0" using d r by (auto simp: delivers_def)
  have len: "0 < length (PipeTbl c2)" using tbl_invD(1) [OF c2(2)] by simp
  let ?p = "PipeTbl c2 ! 0"
  let ?c3 = "sync Mutex_unlock (with_entry 0 (pipe_get ?p) (sync Mutex_lock c2))"
  have "rcv_finish cfs_small calm (unat (0 :: u8)) (CFE_SUCCESS cfs_small) 0 (sync Mutex_lock c2) =
      Inr (CFE_SUCCESS cfs_small, Slot 0 (unat (pipe_next ?p)), ?c3)"
    using rcv_finish_take [of 0 "sync Mutex_lock c2" calm cfs_small] len by simp
  then have s3: "sys_step True cfs_small list_packer (c2, Waiting 0) (?c3, Running)"
    by (intro Rcv_wake [of calm 0]) simp_all
  have zero: "NumberOfMessages (PipeTbl ?c3 ! 0) = 0"
    using len by (simp add: eff(2) client_cross_entries pipe_get_def fresh_pipe_def)
  have "\<not> tbl_inv cfs_small (PipeTbl ?c3)"
  proof
    assume "tbl_inv cfs_small (PipeTbl ?c3)"
    then have "entry_inv cfs_small 0 (PipeTbl ?c3 ! 0)" by (rule tbl_invD(2)) simp
    then have "ring_ok (PipeTbl ?c3 ! 0)" using entry_inv_wf by blast
    then show False using zero by (simp add: ring_ok_def)
  qed
  moreover have "last (Sync c2) = Cond_signal" by (simp add: eff(1))
  ultimately show ?thesis using s1 s2 s3 zero by blast
qed

end
