(* ===== verification/SBN_Session.thy ===== *)
theory SBN_Session
  imports SBN_System
begin

text \<open>
  A whole session of an application, through the public calls only: initialise, create a pipe,
  subscribe, let the receive thread read frames, take the messages by polling. The lemmas follow the
  socket and the table through each call.
\<close>

section \<open>Polling\<close>

text \<open>\<open>n\<close> polling receives, with the bytes behind the pointer each of them hands out.\<close>

definition pointed :: "bufptr \<Rightarrow> 'i client \<Rightarrow> byte list list" where
  "pointed b s = (case b of Slot i k \<Rightarrow> [Messages (PipeTbl s ! i) ! k] | _ \<Rightarrow> [])"

fun poll_each :: "platform \<Rightarrow> 'm::len word rcv_env \<Rightarrow> u8 \<Rightarrow> nat \<Rightarrow> 'm word client \<Rightarrow>
    (i32 list \<times> byte list list \<times> 'm word client) run" where
  "poll_each P e pid 0 s = Inr ([], [], s)"
| "poll_each P e pid (Suc n) s =
     bindR (wrap_CFE_SB_RcvMsg P e True pid 0 s) (\<lambda>(st, b, s1).
     bindR (poll_each P e pid n s1) (\<lambda>(sts, ms, s2). Inr (st # sts, pointed b s1 @ ms, s2)))"

lemma poll_drained:
  assumes P: "platform_ok P" and inv: "tbl_inv P (PipeTbl s)" and live: "pipe_live s pid"
    and ok: "lock_ret e = 0" "unlock_ret e = 0" and dry: "pipe_unread (PipeTbl s ! unat pid) = []"
  shows "wrap_CFE_SB_RcvMsg P e True pid 0 s =
    Inr (CFE_SB_NO_MESSAGE P, Null_ptr, sync Mutex_unlock (sync Mutex_lock s))"
proof -
  have "\<not> sint (0 :: i32) < -1" by simp
  from RcvMsg_drained [OF P inv live this ok(1) dry] show ?thesis
    using rcv_finish_error [of "CFE_SB_NO_MESSAGE P" P e] platform_okD(1,5) [OF P] ok(2) by simp
qed

lemma takes_pointed: "takes i s b s' \<Longrightarrow> pointed b s' = [hd (pipe_unread (PipeTbl s ! i))]"
  by (auto simp: takes_def pointed_def)

text \<open>Taking a message by polling: the oldest one, and the pipe stays in use.\<close>

lemma poll_message:
  assumes P: "platform_ok P" and inv: "tbl_inv P (PipeTbl s)" and live: "pipe_live s pid"
    and ok: "lock_ret e = 0" "unlock_ret e = 0" and un: "pipe_unread (PipeTbl s ! unat pid) = m # ms"
  obtains b s' where "wrap_CFE_SB_RcvMsg P e True pid 0 s = Inr (CFE_SUCCESS P, b, s')"
    "pointed b s' = [m]" "pipe_unread (PipeTbl s' ! unat pid) = ms" "tbl_inv P (PipeTbl s')"
    "pipe_live s' pid"
proof -
  have ne: "pipe_unread (PipeTbl s ! unat pid) \<noteq> []" using un by simp
  have t: "\<not> sint (0 :: i32) < -1" by simp
  have pid: "unat pid < 5" "unat pid < length (PipeTbl s)" "InUse (PipeTbl s ! unat pid) = 1"
    using live tbl_invD(1) [OF inv] by (simp_all add: pipe_live_def)
  have "ring_ok (PipeTbl s ! unat pid)" using entry_inv_wf [OF tbl_invD(2) [OF inv pid(1)]] by blast
  then have "\<not> pipe_empty (PipeTbl s ! unat pid)" using ne by (simp add: pipe_empty_iff)
  then have run: "wrap_CFE_SB_RcvMsg P e True pid 0 s =
      rcv_finish P e (unat pid) (CFE_SUCCESS P) 0 (sync Mutex_lock s)"
    using RcvMsg_live [OF inv live t, of e] ok(1) by simp
  obtain b s' where s': "wrap_CFE_SB_RcvMsg P e True pid 0 s = Inr (CFE_SUCCESS P, b, s')"
    "takes (unat pid) s b s'" "tbl_inv P (PipeTbl s')"
    using RcvMsg_has_message [OF P inv live t ok ne] by blast
  have "s' = sync Mutex_unlock (with_entry (unat pid) (pipe_get (PipeTbl s ! unat pid)) (sync Mutex_lock s))"
    using s'(1) run rcv_finish_take [of "unat pid" "sync Mutex_lock s" e P] pid(2) ok(2) by simp
  then have "pipe_live s' pid" using pid by (simp add: pipe_live_def pipe_get_def)
  then show thesis using that [OF s'(1) _ _ s'(3)] s'(2) un takes_pointed [OF s'(2)] by (simp add: takes_def)
qed

lemma poll_each_drains:
  fixes s :: "'m::len word client"
  assumes P: "platform_ok P" and ok: "lock_ret e = 0" "unlock_ret e = 0"
    and "tbl_inv P (PipeTbl s)" and "pipe_live s pid" and "pipe_unread (PipeTbl s ! unat pid) = ms"
  shows "\<exists>s'. poll_each P e pid n s =
      Inr (replicate (min n (length ms)) (CFE_SUCCESS P) @
           replicate (n - length ms) (CFE_SB_NO_MESSAGE P), take n ms, s') \<and>
    pipe_unread (PipeTbl s' ! unat pid) = drop n ms \<and> tbl_inv P (PipeTbl s')"
  using assms(4-6)
proof (induction n arbitrary: s ms)
  case 0
  then show ?case by simp
next
  case (Suc n)
  show ?case
  proof (cases ms)
    case Nil
    let ?t = "sync Mutex_unlock (sync Mutex_lock s)"
    have "tbl_inv P (PipeTbl ?t)" "pipe_live ?t pid" "pipe_unread (PipeTbl ?t ! unat pid) = []"
      using Suc.prems Nil by (simp_all add: pipe_live_def)
    from Suc.IH [OF this] show ?thesis
      using poll_drained [OF P Suc.prems(1,2) ok] Suc.prems(3) Nil
      by (auto simp: pointed_def)
  next
    case (Cons m ms')
    obtain b s1 where "wrap_CFE_SB_RcvMsg P e True pid 0 s = Inr (CFE_SUCCESS P, b, s1)"
      "pointed b s1 = [m]" "pipe_unread (PipeTbl s1 ! unat pid) = ms'" "tbl_inv P (PipeTbl s1)"
      "pipe_live s1 pid"
      using poll_message [OF P Suc.prems(1,2) ok, of m ms'] Suc.prems(3) Cons by blast
    then show ?thesis using Suc.IH [of s1 ms'] Cons by auto
  qed
qed

section \<open>The sockets and the table through the calls\<close>

lemma check_pthread_Sock [simp]: "Sock (snd (check_pthread_create_status P r i s)) = Sock s"
  by (simp add: check_pthread_create_status_def Let_def)

lemma Init_Sock: "Sock (snd (SBN_Client_Init P e s)) = Sock s"
  by (simp add: SBN_Client_Init_def Let_def case_prod_beta pthread_create_def CFE_SBN_Client_InitPipeTbl_def)

lemma sock_write_rd: "rd (snd (sock_write bs c)) = rd c"
  by (simp add: sock_write_def split: list.split wr_event.split)

lemma write_message_rd: "rd (Sock (snd (write_message fd bs s)) fd') = rd (Sock s fd')"
  by (simp add: write_message_def case_prod_beta sock_write_rd)

lemma SendSubToSbn_rd: "rd (Sock (SendSubToSbn P K ty m q s) fd) = rd (Sock s fd)"
  by (simp add: SendSubToSbn_def Let_def case_prod_beta write_message_rd)

text \<open>Receiving frames takes no pipe out of use.\<close>

lemma recv_each_live:
  assumes P: "platform_ok P" and K: "packer_ok K enc"
  shows "recv_each P K g h fd n s = Inr (sts, s') \<Longrightarrow> tbl_inv P (PipeTbl s) \<Longrightarrow> pipe_live s pid \<Longrightarrow>
    pipe_live s' pid"
proof (induction n arbitrary: s sts)
  case (Suc n)
  then obtain st s1 sts1 where one: "recv_msg P K g h fd s = Inr (st, s1)"
    and more: "recv_each P K g h fd n s1 = Inr (sts1, s')" by (auto simp: bindR_Inr_iff)
  have "pipe_live s1 pid"
    using recv_msg_trace [OF P Suc.prems(2) one] Suc.prems(3) by (simp add: recv_trace_def)
  moreover have "tbl_inv P (PipeTbl s1)" using recv_msg_no_fault [OF P K Suc.prems(2), of g h fd] one by auto
  ultimately show ?case using Suc.IH [OF more] by simp
qed simp

text \<open>What a successful initialisation leaves: an empty table and the descriptor of the connection.\<close>

lemma Init_success:
  assumes P: "platform_ok P" and wf: "tbl_wf P (PipeTbl s0)" and run: "SBN_Client_Init P e s0 = (0, s1)"
  shows "tbl_inv P (PipeTbl s1)" "\<And>pid. \<not> pipe_live s1 pid" "Sock s1 = Sock s0"
    "sbn_client_sockfd s1 = socket_ret (conn e)"
proof -
  note c = Init_cases [OF P wf, of e, unfolded run Let_def prod.case]
  have "conn_stage (conn e) = Connected"
    using c by (cases "conn_stage (conn e) = Connected") simp_all
  then show "tbl_inv P (PipeTbl s1)" "\<And>pid. \<not> pipe_live s1 pid"
    "sbn_client_sockfd s1 = socket_ret (conn e)" using c by simp_all
  show "Sock s1 = Sock s0" using Init_Sock [of P e s0] by (simp add: run)
qed

text \<open>The table after the first pipe was created on an empty table and subscribed to \<open>m\<close>.\<close>

lemma first_pipe:
  fixes s :: "'m::len word client"
  assumes inv: "tbl_inv P (PipeTbl s)" and dead: "\<And>pid. \<not> pipe_live s pid"
    and depth: "depth \<noteq> 0" "unat depth \<le> 32"
  obtains s2 where "wrap_CFE_SB_CreatePipe P True depth (Some nm) s = Inr (OS_SUCCESS P, Some 0, s2)"
    "tbl_inv P (PipeTbl s2)" "pipe_live s2 0" "pipe_unread (PipeTbl s2 ! 0) = []"
    "SubscribedMsgIds (PipeTbl s2 ! 0) = replicate 4 0" "\<forall>i < 5. 0 < i \<longrightarrow> InUse (PipeTbl s2 ! i) \<noteq> 1"
    "Sock s2 = Sock s" "sbn_client_sockfd s2 = sbn_client_sockfd s"
proof -
  have free: "InUse (PipeTbl s ! i) \<noteq> 1" if "i < 5" for i
    using dead [of "of_nat i"] pipe_live_of_nat [OF that, of s] by simp
  have len: "length (PipeTbl s) = 5" using inv by (rule tbl_invD(1))
  let ?q = "created_pipe P 0 nm (PipeTbl s ! 0)"
  let ?s = "s\<lparr>PipeTbl := (PipeTbl s)[0 := ?q]\<rparr>"
  have "scan (\<lambda>p. InUse p \<noteq> 1) (PipeTbl s) = Some 0" using inv free by (intro scan_free(1)) simp_all
  from CreatePipe_ok [OF this depth, of P nm]
  have run: "wrap_CFE_SB_CreatePipe P True depth (Some nm) s = Inr (OS_SUCCESS P, Some 0, ?s)" by simp
  have ent: "entry_inv P 0 (PipeTbl s ! 0)" using inv by (rule tbl_invD(2)) simp
  show thesis
    using entry_inv_unused [OF ent free [of 0]] free len
    by (intro that [OF run CreatePipe_inv [OF inv run]]) (simp_all add: pipe_live_def)
qed

lemma first_subscription:
  fixes s :: "'m::len word client"
  assumes inv: "tbl_inv P (PipeTbl s)" and live: "pipe_live s 0"
    and free: "SubscribedMsgIds (PipeTbl s ! 0) = replicate 4 0"
    and one: "\<forall>i < 5. 0 < i \<longrightarrow> InUse (PipeTbl s ! i) \<noteq> 1"
  obtains s3 where "wrap_CFE_SB_Subscribe P K m 0 s = Inr (CFE_SUCCESS P, s3)" "tbl_inv P (PipeTbl s3)"
    "pipe_live s3 0" "pipe_unread (PipeTbl s3 ! 0) = pipe_unread (PipeTbl s ! 0)"
    "\<And>m'. route (PipeTbl s3) m' = (if m' = m \<or> m' = 0 then Some 0 else None)"
    "\<And>fd. rd (Sock s3 fd) = rd (Sock s fd)" "sbn_client_sockfd s3 = sbn_client_sockfd s"
proof -
  have len: "length (PipeTbl s) = 5" using inv by (rule tbl_invD(1))
  have j: "scan (\<lambda>m. m = 0) (SubscribedMsgIds (PipeTbl s ! unat (0 :: u8))) = Some 0"
    using free by (simp add: scan_Some)
  let ?q = "subscribed_entry 0 m (PipeTbl s ! 0)"
  obtain s3 where run: "wrap_CFE_SB_Subscribe P K m 0 s = Inr (CFE_SUCCESS P, s3)"
    and s3: "s3 = SendSubToSbn P K (SBN_SUB_MSG P) m \<lparr>Priority = 0, Reliability = 0\<rparr> (with_entry 0 ?q s)"
    using Subscribe_live_free [OF inv live j, of K m] by simp
  have tbl: "PipeTbl s3 = (PipeTbl s)[0 := ?q]" by (simp add: s3)
  have inv3: "tbl_inv P (PipeTbl s3)" using inv run by (rule Subscribe_inv)
  have used: "InUse (PipeTbl s ! 0) = 1" using live by (simp add: pipe_live_def)
  have ids: "set (SubscribedMsgIds ?q) = {m, 0}"
    by (auto simp: free numeral_eq_Suc)
  have w0: "wants m' (PipeTbl s3 ! 0) \<longleftrightarrow> m' = m \<or> m' = 0" for m'
    using used len ids by (simp add: tbl wants_def)
  have wi: "\<not> wants m' (PipeTbl s3 ! i)" if "i < 5" "0 < i" for m' i
    using one that by (simp add: tbl wants_def)
  have route: "route (PipeTbl s3) m' = (if m' = m \<or> m' = 0 then Some 0 else None)" for m'
  proof (cases "m' = m \<or> m' = 0")
    case True
    then show ?thesis using route_first [OF inv3, of 0 m'] w0 by simp
  next
    case False
    have "\<not> wants m' (PipeTbl s3 ! i)" if "i < 5" for i
      using w0 wi [OF that] False by (cases "i = 0") simp_all
    then have "scan (wants m') (PipeTbl s3) = None"
      using tbl_invD(1) [OF inv3] by (auto simp: scan_None in_set_conv_nth)
    then show ?thesis using False by (simp add: route_def)
  qed
  show thesis
    using used len
    by (intro that [OF run inv3 _ _ route])
      (simp_all add: s3 pipe_live_def SendSubToSbn_rd pipe_unread_def pipe_slot_def [abs_def])
qed

section \<open>Properties\<close>

text \<open>The payloads of the application frames whose message id is \<open>m\<close> or 0.\<close>

definition wanted :: "platform \<Rightarrow> (nat \<Rightarrow> byte) \<Rightarrow> 'm::len word \<Rightarrow> frame list \<Rightarrow> byte list list" where
  "wanted P h m fs = map (\<lambda>(ty, cpu, bs). bs)
     (filter (\<lambda>(ty, cpu, bs). ty = SBN_APP_MSG P \<and> app_msgid P h bs \<in> {m, 0}) fs)"

lemma routed_wanted:
  assumes "\<And>m'. route tbl m' = (if m' = m \<or> m' = 0 then Some 0 else None)"
  shows "routed P h tbl 0 fs = wanted P h m fs"
  by (induction fs) (auto simp: wanted_def assms split: if_splits)

text \<open>The frames that a client with this one subscription reads, and the receives that follow.\<close>

lemma subscribed_session:
  fixes s :: "'m::len word client"
  assumes P: "platform_ok P" and K: "packer_ok K enc"
    and inv: "tbl_inv P (PipeTbl s)" and live: "pipe_live s 0" and dry: "pipe_unread (PipeTbl s ! 0) = []"
    and route: "\<And>m'. route (PipeTbl s) m' = (if m' = m \<or> m' = 0 then Some 0 else None)"
    and ok: "lock_ret c = 0" "unlock_ret c = 0"
    and frames: "\<forall>f \<in> set fs. frame_ok P f"
    and stream: "incoming (rd (Sock s fd)) = concat (map frame_bytes fs) @ rest"
  shows "\<exists>s4 s5 msgs. let due = take 31 (wanted P h m fs) in
    recv_each P K g h fd (length fs) s = Inr (replicate (length fs) (CFE_SUCCESS P), s4) \<and>
    poll_each P c 0 n s4 =
      Inr (replicate (min n (length due)) (CFE_SUCCESS P) @
           replicate (n - length due) (CFE_SB_NO_MESSAGE P), msgs, s5) \<and>
    list_all2 slot_carries msgs (take n due)"
proof -
  let ?due = "take 31 (wanted P h m fs)"
  obtain s4 where s4: "recv_each P K g h fd (length fs) s = Inr (replicate (length fs) (CFE_SUCCESS P), s4)"
    and inv4: "tbl_inv P (PipeTbl s4)"
    and all: "\<forall>i < 5. \<exists>st. pipe_unread (PipeTbl s4 ! i) = pipe_unread (PipeTbl s ! i) @ st \<and>
       list_all2 slot_carries st (take (31 - length (pipe_unread (PipeTbl s ! i))) (routed P h (PipeTbl s) i fs))"
    using recv_each_frames [OF P K inv frames stream, of g h] by blast
  obtain st where st: "pipe_unread (PipeTbl s4 ! 0) = st" "list_all2 slot_carries st ?due"
    using all [rule_format, of 0] dry routed_wanted [OF route, of P h fs] by auto
  have "pipe_live s4 0" by (rule recv_each_live [OF P K s4 inv live])
  moreover have "pipe_unread (PipeTbl s4 ! unat (0 :: u8)) = st" using st(1) by simp
  ultimately obtain s5 where "poll_each P c 0 n s4 =
      Inr (replicate (min n (length st)) (CFE_SUCCESS P) @
           replicate (n - length st) (CFE_SB_NO_MESSAGE P), take n st, s5)"
    using poll_each_drains [OF P ok inv4] by blast
  moreover have "length st = length ?due" using st(2) by (rule list_all2_lengthD)
  moreover have "list_all2 slot_carries (take n st) (take n ?due)" using st(2) by (rule list_all2_takeI)
  ultimately show ?thesis using s4 by (auto simp: Let_def)
qed

end
