(* ===== verification/SBN_Resume.thy ===== *)
theory SBN_Resume
  imports SBN_Prelude
begin

text \<open>
  Calls as sequences of atomic steps, so that calls of several threads can be interleaved. A
  \<open>prog\<close> has returned or is a step: a function of the shared state that gives the rest of the
  program and the new state, a fault, or \<open>Blocked\<close> when the step has to wait. The second part is a small
  rely-guarantee calculus for threads of such programs.
\<close>

section \<open>Programs\<close>

datatype ('s, 'r) prog =
  Done 'r
| Step "'s \<Rightarrow> (('s, 'r) prog \<times> 's) run"

lemma prog_induct [case_names Done Step]:
  assumes "\<And>r. Q (Done r)" and "\<And>k. (\<And>s p s'. k s = Inr (p, s') \<Longrightarrow> Q p) \<Longrightarrow> Q (Step k)"
  shows "Q p"
proof (induction p)
  case (Step k)
  show ?case
  proof (rule assms(2))
    fix s p s' assume "k s = Inr (p, s')"
    then have "Inr (p, s') \<in> range k" by (metis rangeI)
    then show "Q p"
      using Step.IH [of "Inr (p, s')" "(p, s')" p]
      by (simp add: Basic_BNFs.setr.simps Basic_BNFs.fsts.simps)
  qed
qed (rule assms(1))

primrec bindP :: "('s, 'a) prog \<Rightarrow> ('a \<Rightarrow> ('s, 'b) prog) \<Rightarrow> ('s, 'b) prog" where
  "bindP (Done r) f = f r"
| "bindP (Step k) f = Step (\<lambda>s. map_sum id (map_prod (\<lambda>p. bindP p f) id) (k s))"

text \<open>A program that no other thread disturbs: its result and final state.\<close>

primrec alone :: "('s, 'r) prog \<Rightarrow> 's \<Rightarrow> ('r \<times> 's) run" where
  "alone (Done r) = (\<lambda>s. Inr (r, s))"
| "alone (Step k) = (\<lambda>s. case map_sum id (map_prod alone id) (k s) of
      Inl f \<Rightarrow> Inl f | Inr (g, s') \<Rightarrow> g s')"

lemma alone_Step [simp]: "alone (Step k) s = bindR (k s) (\<lambda>(p, s'). alone p s')"
  by (cases "k s") (auto simp: bindR_def)

declare alone.simps(2) [simp del]

lemma alone_bind [simp]: "alone (bindP p f) s = bindR (alone p s) (\<lambda>(r, s'). alone (f r) s')"
proof (induction p arbitrary: s rule: prog_induct)
  case (Step k)
  show ?case
  proof (cases "k s")
    case (Inr b)
    obtain p s' where "b = (p, s')" by (cases b)
    then show ?thesis using Step.IH [of s p s'] Inr by simp
  qed simp
qed simp

text \<open>A step that computes a value and a new state, and one that may fault.\<close>

definition stmt :: "('s \<Rightarrow> ('a \<times> 's) run) \<Rightarrow> ('s, 'a) prog" where
  "stmt h = Step (\<lambda>s. bindR (h s) (\<lambda>(a, s'). Inr (Done a, s')))"

lemma alone_stmt [simp]: "alone (stmt h) s = h s"
  by (cases "h s") (auto simp: stmt_def)

text \<open>A \<open>for\<close> loop over \<open>len\<close> indices that is left at the first hit; \<open>n\<close> indices are still to be tried.\<close>

fun search :: "(nat \<Rightarrow> ('s, bool) prog) \<Rightarrow> (nat \<Rightarrow> ('s, 'r) prog) \<Rightarrow> ('s, 'r) prog \<Rightarrow> nat \<Rightarrow> nat \<Rightarrow> ('s, 'r) prog" where
  "search test hit miss len 0 = miss"
| "search test hit miss len (Suc n) =
     bindP (test (len - Suc n)) (\<lambda>b. if b then hit (len - Suc n) else search test hit miss len n)"

lemma find_upt_scan_from: "find (\<lambda>i. P (xs ! i)) [k..<length xs] = scan_from k P (drop k xs)"
proof (induction "length xs - k" arbitrary: k)
  case (Suc d)
  then have k: "k < length xs" by simp
  then have "drop k xs = xs ! k # drop (Suc k) xs" by (simp add: Cons_nth_drop_Suc)
  then show ?case using Suc.hyps(1) [of "Suc k"] Suc.hyps(2) k by (simp add: upt_conv_Cons)
qed simp

lemma find_upt_scan: "find (\<lambda>i. P (xs ! i)) [0..<length xs] = scan P xs"
  using find_upt_scan_from [of P xs 0] by (simp add: scan_def)

lemma find_cong_set: "(\<And>i. i \<in> set xs \<Longrightarrow> p i = q i) \<Longrightarrow> find p xs = find q xs"
  by (induction xs) simp_all

text \<open>Undisturbed, with tests that only read, it finds the first hit.\<close>

lemma alone_search:
  assumes "\<And>j. j < len \<Longrightarrow> alone (test j) s = Inr (q j, s)" and "n \<le> len"
  shows "alone (search test hit miss len n) s =
    (case find q [len - n..<len] of Some j \<Rightarrow> alone (hit j) s | None \<Rightarrow> alone miss s)"
  using assms(2)
proof (induction n)
  case (Suc n)
  have "[len - Suc n..<len] = (len - Suc n) # [len - n..<len]"
    using Suc.prems by (simp add: upt_conv_Cons Suc_diff_Suc)
  then show ?case using Suc assms(1) [of "len - Suc n"] by simp
qed simp

section \<open>Interleaving\<close>

text \<open>Any number of threads over one state: one of them makes its next step.\<close>

inductive istep :: "('s, 'r) prog list \<times> 's \<Rightarrow> ('s, 'r) prog list \<times> 's \<Rightarrow> bool" where
  istep: "i < length ps \<Longrightarrow> ps ! i = Step k \<Longrightarrow> k s = Inr (p, s') \<Longrightarrow> istep (ps, s) (ps[i := p], s')"

inductive_cases istep_cases: "istep (ps, s) t"

inductive isteps :: "('s, 'r) prog list \<times> 's \<Rightarrow> ('s, 'r) prog list \<times> 's \<Rightarrow> bool" where
  isteps_refl: "isteps c c"
| isteps_trans: "isteps c d \<Longrightarrow> istep d e \<Longrightarrow> isteps c e"

text \<open>The run of a schedule, the list of the threads that move: for concrete interleavings.\<close>

fun follow :: "nat list \<Rightarrow> ('s, 'r) prog list \<times> 's \<Rightarrow> (('s, 'r) prog list \<times> 's) option" where
  "follow [] c = Some c"
| "follow (i # is) (ps, s) =
     (if i < length ps then
        (case ps ! i of
           Done r \<Rightarrow> None
         | Step k \<Rightarrow> (case k s of Inl f \<Rightarrow> None | Inr (p, s') \<Rightarrow> follow is (ps[i := p], s')))
      else None)"

text \<open>One move at a time, without unfolding what comes after it.\<close>

primrec move :: "('s, 'r) prog \<Rightarrow> 's \<Rightarrow> (('s, 'r) prog \<times> 's) run" where
  "move (Done r) = (\<lambda>s. Inl Blocked)"
| "move (Step k) = k"

lemma bindP_assoc [simp]: "bindP (bindP p f) g = bindP p (\<lambda>x. bindP (f x) g)"
proof (induction p rule: prog_induct)
  case (Step k)
  have "map_sum id (map_prod (\<lambda>p. bindP p g) id) (map_sum id (map_prod (\<lambda>p. bindP p f) id) (k s)) =
      map_sum id (map_prod (\<lambda>p. bindP p (\<lambda>x. bindP (f x) g)) id) (k s)" for s
    using Step.IH by (cases "k s") auto
  then show ?case by simp
qed simp

lemma bindP_weak_cong: "p = p' \<Longrightarrow> bindP p f = bindP p' f"
  by (rule arg_cong)

lemma move_stmt: "move (bindP (stmt h) f) s = bindR (h s) (\<lambda>(a, s'). Inr (f a, s'))"
  by (cases "h s") (auto simp: stmt_def)

lemma search_start:
  "0 < n \<Longrightarrow> search test hit miss len n =
     bindP (test (len - n)) (\<lambda>b. if b then hit (len - n) else search test hit miss len (n - 1))"
  by (cases n) (simp_all cong: if_cong)

lemma follow_move:
  "follow (i # is) (ps, s) =
     (if i < length ps then
        (case move (ps ! i) s of Inl f \<Rightarrow> None | Inr (p, s') \<Rightarrow> follow is (ps[i := p], s'))
      else None)"
  by (cases "ps ! i") simp_all

lemma isteps_step_first: "istep c d \<Longrightarrow> isteps d e \<Longrightarrow> isteps c e"
proof (rotate_tac, induction rule: isteps.induct)
  case (isteps_refl d)
  then show ?case by (blast intro: isteps.intros)
next
  case (isteps_trans c d e)
  then show ?case by (blast intro: isteps.isteps_trans)
qed

lemma follow_isteps: "follow is c = Some d \<Longrightarrow> isteps c d"
proof (induction "is" c rule: follow.induct)
  case (2 i "is" ps s)
  then obtain k p s' where k: "i < length ps" "ps ! i = Step k" "k s = Inr (p, s')"
    "follow is (ps[i := p], s') = Some d"
    by (auto split: if_splits prog.splits sum.splits)
  then have "isteps (ps[i := p], s') d" using 2(1) by simp
  then show ?case using istep [OF k(1-3)] by (rule isteps_step_first [rotated])
qed (auto intro: isteps_refl)

section \<open>Interleavings end\<close>

text \<open>A program is a well-founded tree: each step leaves a smaller one, whatever the state it is made in.\<close>

definition later :: "(('s, 'r) prog \<times> ('s, 'r) prog) set" where
  "later = {(p, q). \<exists>k s s'. q = Step k \<and> k s = Inr (p, s')}"

lemma wf_later: "wf later"
  unfolding wf_def
proof (intro allI impI)
  fix Q p assume h: "\<forall>x. (\<forall>y. (y, x) \<in> later \<longrightarrow> Q y) \<longrightarrow> Q x"
  show "Q p"
  proof (induction p rule: prog_induct)
    case (Done r)
    show ?case by (rule h [rule_format]) (simp add: later_def)
  next
    case (Step k)
    show ?case by (rule h [rule_format]) (use Step in \<open>auto simp: later_def\<close>)
  qed
qed

lemma istep_later: "istep (ps, s) (qs, t) \<Longrightarrow> (qs, ps) \<in> listrel1 later"
proof (erule istep_cases)
  fix i k p s' assume a: "(qs, t) = (ps[i := p], s')" "i < length ps" "ps ! i = Step k" "k s = Inr (p, s')"
  have "ps = take i ps @ (ps ! i) # drop (Suc i) ps" using a(2) by (rule id_take_nth_drop)
  moreover have "qs = take i ps @ p # drop (Suc i) ps" using a by (simp add: upd_conv_take_nth_drop)
  moreover have "(p, ps ! i) \<in> later" using a by (auto simp: later_def)
  ultimately show ?thesis by (metis listrel1I)
qed

lemma wf_istep: "wf {(d, c). istep c d}"
proof (rule wf_subset)
  show "wf (inv_image (listrel1 later) fst)" by (rule wf_inv_image) (simp add: wf_listrel1_iff wf_later)
  show "{(d, c). istep c d} \<subseteq> inv_image (listrel1 later) fst"
    by (auto simp: in_inv_image dest: istep_later)
qed

lemma maximal_run: "\<exists>d. isteps c d \<and> (\<forall>e. \<not> istep d e)"
proof (induction c rule: wf_induct_rule [OF wf_istep])
  case (1 c)
  show ?case
  proof (cases "\<exists>d. istep c d")
    case True
    then obtain d where "istep c d" by blast
    then show ?thesis using 1 [of d] by (auto intro: isteps_step_first)
  next
    case False
    then show ?thesis using isteps_refl [of c] by blast
  qed
qed

lemma no_endless_run: "\<not> (\<forall>n. istep (f n) (f (Suc n)))"
  using wf_istep by (auto simp: wf_iff_no_infinite_down_chain)

lemma stuckD:
  "\<forall>e. \<not> istep (ps, s) e \<Longrightarrow> i < length ps \<Longrightarrow> ps ! i = Step k \<Longrightarrow> \<exists>f. k s = Inl f"
  by (cases "k s") (auto intro: istep)

lemma isteps_length: "isteps c d \<Longrightarrow> length (fst d) = length (fst c)"
  by (induction rule: isteps.induct) (auto elim: istep.cases)

section \<open>Rely and guarantee\<close>

text \<open>
  \<open>safe R G W Q p u\<close>: from \<open>u\<close>, while the other threads change the state by \<open>R\<close>, every step of \<open>p\<close> that is
  enabled is in \<open>G\<close>, none faults, one that has to wait does so in a state \<open>W\<close> allows, and the result
  satisfies \<open>Q\<close>. The relations see the state and an auxiliary value, which no program can read: a step that
  changes the state may come with any change of it that \<open>G\<close> allows.
\<close>

primrec safe :: "('s \<times> 'g \<Rightarrow> 's \<times> 'g \<Rightarrow> bool) \<Rightarrow> ('s \<times> 'g \<Rightarrow> 's \<times> 'g \<Rightarrow> bool) \<Rightarrow> ('s \<Rightarrow> bool) \<Rightarrow>
    ('r \<Rightarrow> 's \<times> 'g \<Rightarrow> bool) \<Rightarrow> ('s, 'r) prog \<Rightarrow> 's \<times> 'g \<Rightarrow> bool" where
  "safe R G W Q (Done r) = (\<lambda>u. \<forall>v. R u v \<longrightarrow> Q r v)"
| "safe R G W Q (Step k) = (\<lambda>u. \<forall>v. R u v \<longrightarrow>
     (case map_sum id (map_prod (safe R G W Q) id) (k (fst v)) of
        Inl f \<Rightarrow> f = Blocked \<and> W (fst v)
      | Inr (h, t) \<Rightarrow> \<exists>g. G v (t, g) \<and> h (t, g)))"

lemma safe_Step [simp]:
  "safe R G W Q (Step k) u \<longleftrightarrow> (\<forall>v. R u v \<longrightarrow>
     (case k (fst v) of Inl f \<Rightarrow> f = Blocked \<and> W (fst v)
      | Inr (p, t) \<Rightarrow> \<exists>g. G v (t, g) \<and> safe R G W Q p (t, g)))"
proof -
  have "(case map_sum id (map_prod (safe R G W Q) id) x of
      Inl f \<Rightarrow> f = Blocked \<and> W (fst v) | Inr (h, t) \<Rightarrow> \<exists>g. G v (t, g) \<and> h (t, g))
    = (case x of Inl f \<Rightarrow> f = Blocked \<and> W (fst v) | Inr (p, t) \<Rightarrow> \<exists>g. G v (t, g) \<and> safe R G W Q p (t, g))" for x v
    by (cases x) auto
  then show ?thesis by simp
qed

declare safe.simps(2) [simp del]

lemma step_mono:
  assumes "case x of Inl f \<Rightarrow> A f | Inr (p, t) \<Rightarrow> \<exists>g. B p t g"
    and "\<And>p t g. x = Inr (p, t) \<Longrightarrow> B p t g \<Longrightarrow> B' (c p) t g"
  shows "case map_sum id (map_prod c id) x of Inl f \<Rightarrow> A f | Inr (p, t) \<Rightarrow> \<exists>g. B' p t g"
  using assms by (cases x) (auto, blast)

lemma step_mono_id:
  assumes "case x of Inl f \<Rightarrow> A f | Inr (p, t) \<Rightarrow> \<exists>g. B p t g"
    and "\<And>p t g. x = Inr (p, t) \<Longrightarrow> B p t g \<Longrightarrow> B' p t g"
  shows "case x of Inl f \<Rightarrow> A f | Inr (p, t) \<Rightarrow> \<exists>g. B' p t g"
  using assms by (cases x) auto

lemma safe_StepD:
  "safe R G W Q (Step k) u \<Longrightarrow> R u v \<Longrightarrow> case k (fst v) of Inl f \<Rightarrow> f = Blocked \<and> W (fst v)
    | Inr (p, t) \<Rightarrow> \<exists>g. G v (t, g) \<and> safe R G W Q p (t, g)"
  unfolding safe_Step by (erule allE, erule mp)

lemma safe_DoneD: "safe R G W Q (Done r) u \<Longrightarrow> R u v \<Longrightarrow> Q r v"
  unfolding safe.simps by (erule allE, erule mp)

lemma safe_if:
  "(b \<Longrightarrow> safe R G W Q p1 u) \<Longrightarrow> (\<not> b \<Longrightarrow> safe R G W Q p2 u) \<Longrightarrow> safe R G W Q (if b then p1 else p2) u"
  by simp

text \<open>A smaller guarantee is enough, and a fact that the rely and the guarantee keep is kept.\<close>

lemma safe_frame:
  assumes "\<And>u v. G' u v \<Longrightarrow> G u v" and "\<And>u v. R u v \<Longrightarrow> F u \<Longrightarrow> F v" and "\<And>u v. G' u v \<Longrightarrow> F u \<Longrightarrow> F v"
  shows "safe R G' W Q p u \<Longrightarrow> F u \<Longrightarrow> safe R G W (\<lambda>r v. Q r v \<and> F v) p u"
proof (induction p arbitrary: u rule: prog_induct)
  case (Done r)
  then show ?case using assms(2) by fastforce
next
  case (Step k)
  show ?case
    unfolding safe_Step
  proof (intro allI impI)
    fix v assume uv: "R u v"
    note F = assms(2) [OF uv Step.prems(2)]
    show "case k (fst v) of Inl f \<Rightarrow> f = Blocked \<and> W (fst v)
        | Inr (p, t) \<Rightarrow> \<exists>g. G v (t, g) \<and> safe R G W (\<lambda>r v. Q r v \<and> F v) p (t, g)"
    proof (rule step_mono_id [OF safe_StepD [OF Step.prems(1) uv]])
      fix p t g assume "k (fst v) = Inr (p, t)" and g: "G' v (t, g) \<and> safe R G' W Q p (t, g)"
      then show "G v (t, g) \<and> safe R G W (\<lambda>r v. Q r v \<and> F v) p (t, g)"
        using assms(1) assms(3) [OF conjunct1 [OF g] F] Step.IH by blast
    qed
  qed
qed

locale rely_guarantee =
  fixes R :: "nat \<Rightarrow> 's \<times> 'g \<Rightarrow> 's \<times> 'g \<Rightarrow> bool" and G :: "nat \<Rightarrow> 's \<times> 'g \<Rightarrow> 's \<times> 'g \<Rightarrow> bool"
    and W :: "nat \<Rightarrow> 's \<Rightarrow> bool"
  assumes rely_refl: "R i u u"
    and rely_trans: "R i u v \<Longrightarrow> R i v x \<Longrightarrow> R i u x"
    and guarantee_rely: "i \<noteq> j \<Longrightarrow> G i u v \<Longrightarrow> R j u v"
begin

lemma safe_rely: "safe (R i) (G i) (W i) Q p u \<Longrightarrow> R i u v \<Longrightarrow> safe (R i) (G i) (W i) Q p v"
proof (cases p)
  case (Step k)
  assume a: "safe (R i) (G i) (W i) Q p u" and "R i u v"
  then have "R i u x" if "R i v x" for x using that rely_trans by blast
  then show ?thesis using a by (simp add: Step)
qed (use rely_trans in auto)

lemma safe_now:
  "safe (R i) (G i) (W i) Q (Step k) (s, g) \<Longrightarrow>
    case k s of Inl f \<Rightarrow> f = Blocked \<and> W i s
    | Inr (p, t) \<Rightarrow> \<exists>h. G i (s, g) (t, h) \<and> safe (R i) (G i) (W i) Q p (t, h)"
  by (drule safe_StepD [OF _ rely_refl], simp only: fst_conv)

lemma safe_bind:
  assumes "safe (R i) (G i) (W i) Q p u" and "\<And>r v. Q r v \<Longrightarrow> safe (R i) (G i) (W i) Q' (f r) v"
  shows "safe (R i) (G i) (W i) Q' (bindP p f) u"
  using assms(1)
proof (induction p arbitrary: u rule: prog_induct)
  case (Done r)
  have "Q r u" using safe_DoneD [OF Done rely_refl] .
  then show ?case using assms(2) by simp
next
  case (Step k)
  show ?case
    unfolding bindP.simps safe_Step
  proof (intro allI impI)
    fix v assume "R i u v"
    note now = safe_StepD [OF Step.prems this]
    show "case map_sum id (map_prod (\<lambda>p. bindP p f) id) (k (fst v)) of Inl f \<Rightarrow> f = Blocked \<and> W i (fst v)
        | Inr (p, t) \<Rightarrow> \<exists>g. G i v (t, g) \<and> safe (R i) (G i) (W i) Q' p (t, g)"
      by (rule step_mono [OF now]) (use Step.IH in blast)
  qed
qed

lemma safe_stmt:
  assumes "\<And>v. R i u v \<Longrightarrow> case h (fst v) of Inl f \<Rightarrow> f = Blocked \<and> W i (fst v)
    | Inr (a, t) \<Rightarrow> \<exists>g. G i v (t, g) \<and> (\<forall>x. R i (t, g) x \<longrightarrow> Q a x)"
  shows "safe (R i) (G i) (W i) Q (stmt h) u"
  unfolding stmt_def safe_Step
proof (intro allI impI)
  fix v assume "R i u v"
  then show "case bindR (h (fst v)) (\<lambda>(a, s'). Inr (Done a, s')) of Inl f \<Rightarrow> f = Blocked \<and> W i (fst v)
      | Inr (p, t) \<Rightarrow> \<exists>g. G i v (t, g) \<and> safe (R i) (G i) (W i) Q p (t, g)"
    using assms [of v] by (cases "h (fst v)") auto
qed

text \<open>A search: what a test that hits has found out, \<open>H\<close>, is known where the search goes on.\<close>

lemma safe_search_hit:
  assumes "\<And>j v. j < len \<Longrightarrow> J v \<Longrightarrow> safe (R i) (G i) (W i) (\<lambda>b u. J u \<and> (b \<longrightarrow> H j)) (test j) v"
    and "\<And>j v. j < len \<Longrightarrow> J v \<Longrightarrow> H j \<Longrightarrow> safe (R i) (G i) (W i) Q (hit j) v"
    and "\<And>v. J v \<Longrightarrow> safe (R i) (G i) (W i) Q miss v"
  shows "n \<le> len \<Longrightarrow> J u \<Longrightarrow> safe (R i) (G i) (W i) Q (search test hit miss len n) u"
proof (induction n arbitrary: u)
  case 0
  then show ?case using assms(3) by simp
next
  case (Suc n)
  have "safe (R i) (G i) (W i) (\<lambda>b u. J u \<and> (b \<longrightarrow> H (len - Suc n))) (test (len - Suc n)) u" using assms(1) Suc.prems by simp
  then show ?case
    unfolding search.simps by (rule safe_bind) (use Suc assms(2) in auto)
qed

lemma safe_search:
  assumes "\<And>j v. j < len \<Longrightarrow> J v \<Longrightarrow> safe (R i) (G i) (W i) (\<lambda>_. J) (test j) v"
    and "\<And>j v. j < len \<Longrightarrow> J v \<Longrightarrow> safe (R i) (G i) (W i) Q (hit j) v"
    and "\<And>v. J v \<Longrightarrow> safe (R i) (G i) (W i) Q miss v"
  shows "n \<le> len \<Longrightarrow> J u \<Longrightarrow> safe (R i) (G i) (W i) Q (search test hit miss len n) u"
  by (rule safe_search_hit [where J = J and H = "\<lambda>_. True"]) (use assms in simp_all)

lemma safe_post: "safe (R i) (G i) (W i) Q p u \<Longrightarrow> (\<And>r v. Q r v \<Longrightarrow> Q' r v) \<Longrightarrow> safe (R i) (G i) (W i) Q' p u"
proof (induction p arbitrary: u rule: prog_induct)
  case (Step k)
  then show ?case by (fastforce split: sum.splits)
qed simp

text \<open>All threads of a configuration are safe, thread \<open>i\<close> of the list with the relations of \<open>i\<close>.\<close>

definition all_safe :: "(nat \<Rightarrow> 's \<times> 'g \<Rightarrow> bool) \<Rightarrow> ('s, 'r) prog list \<Rightarrow> 's \<times> 'g \<Rightarrow> bool" where
  "all_safe Q ps u \<longleftrightarrow> (\<forall>i < length ps. safe (R i) (G i) (W i) (\<lambda>_. Q i) (ps ! i) u)"

lemma all_safe_step:
  assumes "all_safe Q ps (s, g)" and "istep (ps, s) (qs, t)"
  shows "\<exists>h i. all_safe Q qs (t, h) \<and> length qs = length ps \<and> i < length ps \<and> G i (s, g) (t, h)"
proof -
  obtain i k p where c: "qs = ps[i := p]" "i < length ps" "ps ! i = Step k" "k s = Inr (p, t)"
    using assms(2) by (auto elim: istep.cases)
  obtain h where g: "G i (s, g) (t, h)" "safe (R i) (G i) (W i) (\<lambda>_. Q i) p (t, h)"
  proof -
    have "safe (R i) (G i) (W i) (\<lambda>_. Q i) (Step k) (s, g)"
      using assms(1) c(2,3) unfolding all_safe_def by metis
    from safe_now [OF this] show ?thesis using that c(4) by auto
  qed
  have "safe (R j) (G j) (W j) (\<lambda>_. Q j) (ps[i := p] ! j) (t, h)" if j: "j < length ps" for j
  proof (cases "j = i")
    case False
    then have "R j (s, g) (t, h)" using guarantee_rely [OF _ g(1)] by auto
    then show ?thesis
      using safe_rely [of j "\<lambda>_. Q j" "ps ! j" "(s, g)" "(t, h)"] assms(1) j False by (auto simp: all_safe_def)
  qed (use g(2) j in simp)
  then have "all_safe Q qs (t, h)" by (simp add: all_safe_def c)
  then show ?thesis using g(1) c(1,2) by auto
qed

text \<open>An invariant that every guarantee keeps holds after every run.\<close>

lemma all_safe_run:
  assumes keep: "\<And>i u v. i < length ps \<Longrightarrow> G i u v \<Longrightarrow> J u \<Longrightarrow> J v"
    and run: "isteps (ps, s) (qs, t)" and start: "all_safe Q ps (s, g)" "J (s, g)"
  shows "\<exists>h. all_safe Q qs (t, h) \<and> length qs = length ps \<and> J (t, h)"
proof -
  have "isteps c d \<Longrightarrow> c = (ps, s) \<Longrightarrow> \<exists>h. all_safe Q (fst d) (snd d, h) \<and> length (fst d) = length ps \<and> J (snd d, h)" for c d
  proof (induction rule: isteps.induct)
    case (isteps_trans c d e)
    then obtain h where h: "all_safe Q (fst d) (snd d, h)" "length (fst d) = length ps" "J (snd d, h)" by blast
    have "istep (fst d, snd d) (fst e, snd e)" using isteps_trans.hyps(2) by simp
    then show ?case using all_safe_step [OF h(1)] h(2,3) keep by metis
  qed (use start in auto)
  from this [OF run] show ?thesis by simp
qed

text \<open>A thread of a safe configuration that cannot move has not run into a fault: it waits.\<close>

lemma all_safe_stuck:
  assumes "all_safe Q ps (s, g)" and "i < length ps" and "ps ! i = Step k" and "k s = Inl f"
  shows "f = Blocked \<and> W i s"
proof -
  have "safe (R i) (G i) (W i) (\<lambda>_. Q i) (Step k) (s, g)"
    using assms(1-3) unfolding all_safe_def by metis
  from safe_now [OF this] show ?thesis using assms(4) by simp
qed

lemma all_safe_done:
  assumes "all_safe Q ps u" and "i < length ps" and "ps ! i = Done r"
  shows "Q i u"
proof -
  have "safe (R i) (G i) (W i) (\<lambda>_. Q i) (Done r) u"
    using assms unfolding all_safe_def by metis
  from safe_DoneD [OF this rely_refl] show ?thesis .
qed

end

end
