(* ===== verification/SBN_Threads.thy ===== *)
theory SBN_Threads
  imports SBN_Minders SBN_Resume
begin

text \<open>
  The calls and the two minder threads once more, now as programs: one step per assignment to a
  table entry or a global, per condition on one and per system call, so that threads can be interleaved
  between any two of them.
  The shared state is the client and the thread that holds \<open>receive_mutex\<close>.
  \<open>SBN_Sequential\<close> shows that a call that runs undisturbed is the whole-call definition of the earlier theories.
\<close>

type_synonym 'i world = "'i client \<times> nat option"

datatype reply = Created i32 "u8 option" | Status i32 | Got i32 bufptr | Ingested | Stopped bool

section \<open>Atomic steps\<close>

definition act :: "('i client \<Rightarrow> ('a \<times> 'i client) run) \<Rightarrow> ('i world, 'a) prog" where
  "act f = stmt (\<lambda>(c, w). bindR (f c) (\<lambda>(a, c'). Inr (a, (c', w))))"

definition get :: "('i client \<Rightarrow> 'a run) \<Rightarrow> ('i world, 'a) prog" where
  "get f = stmt (\<lambda>(c, w). bindR (f c) (\<lambda>a. Inr (a, (c, w))))"

definition modify :: "('i client \<Rightarrow> 'i client run) \<Rightarrow> ('i world, unit) prog" where
  "modify f = stmt (\<lambda>(c, w). bindR (f c) (\<lambda>c'. Inr ((), (c', w))))"

definition entry_get :: "nat \<Rightarrow> ('i pipe \<Rightarrow> 'a run) \<Rightarrow> ('i world, 'a) prog" where
  "entry_get i f = get (\<lambda>c. bindR (arr_get (PipeTbl c) i) f)"

definition entry_set :: "nat \<Rightarrow> ('i pipe \<Rightarrow> 'i pipe run) \<Rightarrow> ('i world, unit) prog" where
  "entry_set i f = modify (\<lambda>c. bindR (arr_get (PipeTbl c) i) (\<lambda>p. bindR (f p) (\<lambda>q. Inr (with_entry i q c))))"

text \<open>The mutex: taking it waits while it is held; a wait gives it up and takes it again.\<close>

definition mutex_lock :: "nat \<Rightarrow> ('i world, unit) prog" where
  "mutex_lock t = stmt (\<lambda>(c, w). if w = None then Inr ((), (sync Mutex_lock c, Some t)) else Inl Blocked)"

definition mutex_unlock :: "('i world, unit) prog" where
  "mutex_unlock = stmt (\<lambda>(c, w). Inr ((), (sync Mutex_unlock c, None)))"

definition cond_release :: "('i world, unit) prog" where
  "cond_release = stmt (\<lambda>(c, w). Inr ((), (sync Cond_wait c, None)))"

definition cond_wake :: "nat \<Rightarrow> ('i client \<Rightarrow> bool) \<Rightarrow> ('i world, unit) prog" where
  "cond_wake t ready = stmt (\<lambda>(c, w).
     if w = None \<and> ready c then Inr ((), (sync Mutex_lock c, Some t)) else Inl Blocked)"

fun sequence :: "('s, unit) prog list \<Rightarrow> ('s, unit) prog" where
  "sequence [] = Done ()"
| "sequence (p # ps) = bindP p (\<lambda>_. sequence ps)"

lemma bindR_pure: "bindR (bindR m (\<lambda>a. Inr (e a))) k = bindR m (\<lambda>a. k (e a))"
  by (cases m) simp_all

lemma step_act:
  "get f = act (\<lambda>c. bindR (f c) (\<lambda>a. Inr (a, c)))" "modify g = act (\<lambda>c. bindR (g c) (\<lambda>c'. Inr ((), c')))"
  by (simp_all add: get_def modify_def act_def bindR_pure)

lemma alone_steps [simp]:
  "alone (act e) (c, w) = bindR (e c) (\<lambda>(a, c'). Inr (a, (c', w)))"
  "alone (get f) (c, w) = bindR (f c) (\<lambda>a. Inr (a, (c, w)))"
  "alone (modify g) (c, w) = bindR (g c) (\<lambda>c'. Inr ((), (c', w)))"
  "alone (entry_get i h) (c, w) = bindR (bindR (arr_get (PipeTbl c) i) h) (\<lambda>a. Inr (a, (c, w)))"
  "alone (mutex_lock t) (c, None) = Inr ((), (sync Mutex_lock c, Some t))"
  "alone mutex_unlock (c, w) = Inr ((), (sync Mutex_unlock c, None))"
  "alone cond_release (c, w) = Inr ((), (sync Cond_wait c, None))"
  "ready c \<Longrightarrow> alone (cond_wake t ready) (c, None) = Inr ((), (sync Mutex_lock c, Some t))"
  by (simp_all add: act_def get_def modify_def entry_get_def mutex_lock_def mutex_unlock_def cond_release_def cond_wake_def)

lemma alone_entry_set [simp]:
  "i < length (PipeTbl c) \<Longrightarrow> alone (entry_set i f) (c, w) =
     bindR (f (PipeTbl c ! i)) (\<lambda>q. Inr ((), (with_entry i q c, w)))"
  by (cases "f (PipeTbl c ! i)") (simp_all add: entry_set_def)

section \<open>Creating and deleting pipes\<close>

definition invalidate_prog :: "platform \<Rightarrow> nat \<Rightarrow> ('m::len word world, unit) prog" where
  "invalidate_prog P i = sequence
     ([entry_set i (\<lambda>p. Inr (p\<lparr>InUse := CFE_SBN_CLIENT_NOT_IN_USE\<rparr>)),
       entry_set i (\<lambda>p. Inr (p\<lparr>SysQueueId := CFE_SBN_CLIENT_UNUSED_QUEUE\<rparr>)),
       entry_set i (\<lambda>p. Inr (p\<lparr>PipeId := CFE_SBN_CLIENT_INVALID_PIPE\<rparr>)),
       entry_set i (\<lambda>p. Inr (p\<lparr>NumberOfMessages := 1\<rparr>)),
       entry_set i (\<lambda>p. Inr (p\<lparr>ReadMessage := of_nat (CFE_PLATFORM_SBN_CLIENT_MAX_PIPE_DEPTH - 1)\<rparr>)),
       entry_set i (\<lambda>p. bindR (mem_write (PipeName p) 0 (replicate (OS_MAX_API_NAME P) 0)) (\<lambda>nm.
         Inr (p\<lparr>PipeName := nm\<rparr>)))] @
      map (\<lambda>j. entry_set i (\<lambda>p. bindR (arr_set (SubscribedMsgIds p) j CFE_SBN_CLIENT_INVALID_MSG_ID)
         (\<lambda>ms. Inr (p\<lparr>SubscribedMsgIds := ms\<rparr>)))) [0..<CFE_SBN_CLIENT_MAX_MSG_IDS_PER_PIPE])"

text \<open>The assignments to the free entry that was found, and the search for it.\<close>

definition create_entry :: "platform \<Rightarrow> byte list option \<Rightarrow> nat \<Rightarrow> ('m::len word world, reply) prog" where
  "create_entry P name i = bindP (sequence
     [entry_set i (\<lambda>p. Inr (p\<lparr>InUse := CFE_SBN_CLIENT_IN_USE\<rparr>)),
      entry_set i (\<lambda>p. Inr (p\<lparr>PipeId := of_nat i\<rparr>)),
      entry_set i (\<lambda>p. Inr (p\<lparr>SendErrors := 0\<rparr>)),
      entry_set i (\<lambda>p. case name of None \<Rightarrow> Inl NullDeref | Some nm \<Rightarrow>
        bindR (mem_write (PipeName p) 0 (strncpy_bytes nm (OS_MAX_API_NAME P))) (\<lambda>nm'.
        Inr (p\<lparr>PipeName := nm'\<rparr>)))])
     (\<lambda>_. Done (Created (SBN_CLIENT_SUCCESS P) (Some (of_nat i))))"

definition create_scan :: "platform \<Rightarrow> byte list option \<Rightarrow> ('m::len word world, reply) prog" where
  "create_scan P name = search
     (\<lambda>i. entry_get i (\<lambda>p. Inr (InUse p \<noteq> CFE_SBN_CLIENT_IN_USE)))
     (create_entry P name)
     (Done (Created CFE_SBN_CLIENT_MAX_PIPES_MET (Some CFE_SBN_CLIENT_INVALID_PIPE)))
     CFE_PLATFORM_SBN_CLIENT_MAX_PIPES CFE_PLATFORM_SBN_CLIENT_MAX_PIPES"

definition CreatePipe_prog :: "platform \<Rightarrow> bool \<Rightarrow> u16 \<Rightarrow> byte list option \<Rightarrow> ('m::len word world, reply) prog" where
  "CreatePipe_prog P ptr depth name =
     (if \<not> ptr \<or> unat depth > CFE_PLATFORM_SBN_CLIENT_MAX_PIPE_DEPTH \<or> depth = 0
      then Done (Created (CFE_SBN_CLIENT_BAD_ARGUMENT P)
             (if ptr then Some CFE_SBN_CLIENT_INVALID_PIPE else None))
      else create_scan P name)"

definition delete_entry :: "platform \<Rightarrow> nat \<Rightarrow> ('m::len word world, reply) prog" where
  "delete_entry P i =
     bindP (entry_get i (\<lambda>p. Inr (InUse p = CFE_SBN_CLIENT_IN_USE))) (\<lambda>used.
       if used then bindP (invalidate_prog P i) (\<lambda>_. Done (Status (CFE_SUCCESS P)))
       else Done (Status (-1)))"

definition DeletePipe_prog :: "platform \<Rightarrow> u8 \<Rightarrow> ('m::len word world, reply) prog" where
  "DeletePipe_prog P pid = search (\<lambda>i. entry_get i (\<lambda>p. Inr (PipeId p = pid))) (delete_entry P)
     (Done (Status (-2))) CFE_PLATFORM_SBN_CLIENT_MAX_PIPES CFE_PLATFORM_SBN_CLIENT_MAX_PIPES"

section \<open>Subscribing\<close>

definition GetPipeIdx_prog :: "u8 \<Rightarrow> ('m::len word world, u8) prog" where
  "GetPipeIdx_prog pid =
     bindP (entry_get (unat pid) (\<lambda>p. Inr (PipeId p = pid \<and> InUse p = CFE_SBN_CLIENT_IN_USE))) (\<lambda>hit.
       if hit then Done pid
       else search (\<lambda>i. entry_get i (\<lambda>p. Inr (PipeId p = pid \<and> InUse p = CFE_SBN_CLIENT_IN_USE)))
              (\<lambda>i. Done (of_nat i)) (Done CFE_SBN_CLIENT_INVALID_PIPE)
              CFE_PLATFORM_SBN_CLIENT_MAX_PIPES CFE_PLATFORM_SBN_CLIENT_MAX_PIPES)"

definition SubscribeIndex_prog :: "u8 \<Rightarrow> ('m::len word world, u8) prog" where
  "SubscribeIndex_prog pid = search
     (\<lambda>j. entry_get (unat pid) (\<lambda>p. bindR (arr_get (SubscribedMsgIds p) j) (\<lambda>m. Inr (m = CFE_SBN_CLIENT_INVALID_MSG_ID))))
     (\<lambda>j. Done (of_nat j)) (Done CFE_SBN_CLIENT_MAX_MSG_IDS_MET)
     CFE_SBN_CLIENT_MAX_MSG_IDS_PER_PIPE CFE_SBN_CLIENT_MAX_MSG_IDS_PER_PIPE"

definition Subscribe_prog ::
    "platform \<Rightarrow> ('m::len word, 'k, 'u) packer \<Rightarrow> 'm word \<Rightarrow> u8 \<Rightarrow> ('m word world, reply) prog" where
  "Subscribe_prog P K MsgId pid =
     bindP (GetPipeIdx_prog pid) (\<lambda>PipeIdx.
       if PipeIdx = CFE_SBN_CLIENT_INVALID_PIPE then Done (Status (CFE_SBN_CLIENT_BAD_ARGUMENT P))
       else bindP (SubscribeIndex_prog pid) (\<lambda>MsgIdIdx.
         if MsgIdIdx = CFE_SBN_CLIENT_MAX_MSG_IDS_MET then Done (Status (CFE_SBN_CLIENT_BAD_ARGUMENT P))
         else bindP (entry_set (unat PipeIdx) (\<lambda>p.
             bindR (arr_set (SubscribedMsgIds p) (unat MsgIdIdx) MsgId) (\<lambda>ms. Inr (p\<lparr>SubscribedMsgIds := ms\<rparr>)))) (\<lambda>_.
           bindP (modify (\<lambda>c. Inr (SendSubToSbn P K (SBN_SUB_MSG P) MsgId \<lparr>Priority = 0, Reliability = 0\<rparr> c))) (\<lambda>_.
           Done (Status (CFE_SUCCESS P))))))"

section \<open>Delivering\<close>

text \<open>The copy into the ring, without the increment that follows it.\<close>

definition pipe_copy :: "byte list \<Rightarrow> 'i pipe \<Rightarrow> 'i pipe run" where
  "pipe_copy bs p =
     (let e = unat (message_entry_point p)
      in bindR (arr_get (Messages p) e) (\<lambda>slot.
         bindR (mem_write slot 0 bs) (\<lambda>slot'.
         bindR (arr_set (Messages p) e slot') (\<lambda>ms. Inr (p\<lparr>Messages := ms\<rparr>)))))"

definition deliver_prog :: "byte list \<Rightarrow> u16 \<Rightarrow> 'm::len word \<Rightarrow> nat \<Rightarrow> ('m word world, reply) prog" where
  "deliver_prog msg_buffer MsgSz MsgId i =
     bindP (entry_get i (\<lambda>p. Inr (pipe_full p))) (\<lambda>full.
       if full then bindP (sequence [modify (\<lambda>c. Inr (log_message ''SBN_CLIENT: ERROR pipe overflow'' [] c)),
                      mutex_unlock]) (\<lambda>_. Done Ingested)
       else bindP (sequence
         [modify (\<lambda>c. Inr (log_message ''App message received: MsgId 0x%08X'' [Int_arg (ucast MsgId)] c)),
          entry_set i (\<lambda>p. bindR (mem_read msg_buffer 0 (unat MsgSz)) (\<lambda>bs. pipe_copy bs p)),
          entry_set i (\<lambda>p. Inr (p\<lparr>NumberOfMessages := NumberOfMessages p + 1\<rparr>)),
          mutex_unlock, modify (\<lambda>c. Inr (sync Cond_signal c))]) (\<lambda>_. Done Ingested))"

text \<open>The loops over slots and pipes; \<open>rest\<close> is what follows when no slot matches, \<open>n\<close> the number of pipes left.\<close>

definition slot_scan :: "byte list \<Rightarrow> u16 \<Rightarrow> 'm::len word \<Rightarrow> nat \<Rightarrow> ('m word world, reply) prog \<Rightarrow>
    ('m word world, reply) prog" where
  "slot_scan msg_buffer MsgSz MsgId i rest = search
     (\<lambda>j. entry_get i (\<lambda>p. bindR (arr_get (SubscribedMsgIds p) j) (\<lambda>m. Inr (m = MsgId))))
     (\<lambda>j. deliver_prog msg_buffer MsgSz MsgId i) rest
     CFE_SBN_CLIENT_MAX_MSG_IDS_PER_PIPE CFE_SBN_CLIENT_MAX_MSG_IDS_PER_PIPE"

fun pipe_scan :: "byte list \<Rightarrow> u16 \<Rightarrow> 'm::len word \<Rightarrow> nat \<Rightarrow> bool \<Rightarrow> ('m word world, reply) prog" where
  "pipe_scan msg_buffer MsgSz MsgId 0 used =
     bindP (sequence [modify (\<lambda>c. Inr (log_message (if used then ''SBN_CLIENT: ERROR no subscription for this msgid''
         else ''SBN_CLIENT: No pipes are in use'') [] c)), mutex_unlock]) (\<lambda>_. Done Ingested)"
| "pipe_scan msg_buffer MsgSz MsgId (Suc n) used =
     (let i = CFE_PLATFORM_SBN_CLIENT_MAX_PIPES - Suc n in
      bindP (entry_get i (\<lambda>p. Inr (InUse p = CFE_SBN_CLIENT_IN_USE))) (\<lambda>in_use.
        if in_use then slot_scan msg_buffer MsgSz MsgId i (pipe_scan msg_buffer MsgSz MsgId n True)
        else pipe_scan msg_buffer MsgSz MsgId n used))"

text \<open>\<open>ingest_app_message\<close> from the point where the payload has been read.\<close>

definition ingest_prog :: "nat \<Rightarrow> byte list \<Rightarrow> u16 \<Rightarrow> 'm::len word \<Rightarrow> ('m word world, reply) prog" where
  "ingest_prog t msg_buffer MsgSz MsgId =
     bindP (mutex_lock t) (\<lambda>_. pipe_scan msg_buffer MsgSz MsgId CFE_PLATFORM_SBN_CLIENT_MAX_PIPES False)"

section \<open>Receiving\<close>

text \<open>The part after the wait: \<open>status0\<close> so far, \<open>w\<close> the result of the wait.\<close>

definition finish_prog :: "platform \<Rightarrow> nat \<Rightarrow> i32 \<Rightarrow> i32 \<Rightarrow> ('m::len word world, reply) prog" where
  "finish_prog P i status0 w =
     (let status = (if w \<noteq> 0 then (if w = ETIMEDOUT then CFE_SB_TIME_OUT P else CFE_SB_PIPE_RD_ERR P)
                    else status0)
      in if status = CFE_SUCCESS P
         then bindP (entry_get i (\<lambda>p. Inr (pipe_next p))) (\<lambda>next_msg.
              bindP (sequence
                [entry_set i (\<lambda>p. Inr (p\<lparr>ReadMessage := next_msg\<rparr>)),
                 entry_set i (\<lambda>p. Inr (p\<lparr>NumberOfMessages := NumberOfMessages p - 1\<rparr>)),
                 mutex_unlock]) (\<lambda>_. Done (Got (CFE_SUCCESS P) (Slot i (unat next_msg)))))
         else bindP mutex_unlock (\<lambda>_. Done (Got status Null_ptr)))"

text \<open>\<open>w\<close> is what a wait of this call will return, \<open>sp\<close> whether it may end with 0 although the pipe is empty.\<close>

definition RcvMsg_prog :: "bool \<Rightarrow> nat \<Rightarrow> platform \<Rightarrow> i32 \<Rightarrow> bool \<Rightarrow> u8 \<Rightarrow> i32 \<Rightarrow> ('m::len word world, reply) prog" where
  "RcvMsg_prog sp t P w ptr pid TimeOut =
     (if \<not> ptr then
        bindP (modify (\<lambda>c. Inr (log_message ''SBN_CLIENT: BUFFER POINTER IS NULL!'' [] c)))
          (\<lambda>_. Done (Got (CFE_SB_BAD_ARGUMENT P) Untouched))
      else if sint TimeOut < -1 then
        bindP (modify (\<lambda>c. Inr (log_message ''SBN_CLIENT: TIMEOUT IS LESS THAN -1!'' [] c)))
          (\<lambda>_. Done (Got (CFE_SB_BAD_ARGUMENT P) Untouched))
      else bindP (GetPipeIdx_prog pid) (\<lambda>pipe_idx.
        if pipe_idx = CFE_SBN_CLIENT_INVALID_PIPE then
          bindP (modify (\<lambda>c. Inr (log_message ''SBN_CLIENT: ERROR INVALID PIPE ERROR!'' [] c)))
            (\<lambda>_. Done (Got (CFE_SB_BAD_ARGUMENT P) Untouched))
        else
          let i = unat pipe_idx in
          bindP (mutex_lock t) (\<lambda>_.
          bindP (entry_get i (\<lambda>p. Inr (pipe_empty p))) (\<lambda>nothing.
            if nothing \<and> TimeOut = CFE_SB_POLL P then finish_prog P i (CFE_SB_NO_MESSAGE P) 0
            else if nothing then
              bindP cond_release (\<lambda>_.
              bindP (cond_wake t (\<lambda>c. w = 0 \<longrightarrow> sp \<or> \<not> pipe_empty (PipeTbl c ! i))) (\<lambda>_.
              finish_prog P i (CFE_SUCCESS P) w))
            else finish_prog P i (CFE_SUCCESS P) 0))))"

section \<open>Reading frames\<close>

text \<open>
  One \<open>read\<close> into the buffer from position \<open>got\<close>, and the loop around it. A read that succeeds takes a
  byte at least, so \<open>n - got\<close> of them are enough; \<open>k\<close> counts them down.
\<close>

definition read_step :: "i32 \<Rightarrow> nat \<Rightarrow> byte list \<Rightarrow> nat \<Rightarrow> ('i world, read_result \<times> byte list) prog" where
  "read_step fd n buf got = act (\<lambda>c. bindR (sock_read (n - got) (rd (Sock c fd))) (\<lambda>(r, es).
     case r of
       R_Error e \<Rightarrow> Inr ((r, buf), (set_rd fd es c)\<lparr>Errno := e\<rparr>)
     | R_Eof \<Rightarrow> Inr ((r, buf), set_rd fd es c)
     | R_Bytes bs \<Rightarrow> bindR (mem_write buf got bs) (\<lambda>buf'. Inr ((r, buf'), set_rd fd es c))))"

fun ReadBytes_steps :: "platform \<Rightarrow> i32 \<Rightarrow> nat \<Rightarrow> nat \<Rightarrow> byte list \<Rightarrow> nat \<Rightarrow> ('i world, i32 \<times> byte list) prog" where
  "ReadBytes_steps P fd n 0 buf got = Done (CFE_SUCCESS P, buf)"
| "ReadBytes_steps P fd n (Suc k) buf got =
     (if got = n then Done (CFE_SUCCESS P, buf)
      else bindP (read_step fd n buf got) (\<lambda>(r, buf').
        case r of
          R_Error e \<Rightarrow>
            bindP (modify (\<lambda>c. Inr (log_message (''SBN_CLIENT: ERROR CFE_SBN_CLIENT_PIPE_BROKEN_ERR'' @ [CHR 0x0A]) [] c)))
              (\<lambda>_. Done (CFE_SBN_CLIENT_PIPE_BROKEN_ERR, buf'))
        | R_Eof \<Rightarrow>
            bindP (modify (\<lambda>c. Inr (log_message (''SBN_CLIENT: ERROR CFE_SBN_CLIENT_PIPE_CLOSED_ERR: %s'' @ [CHR 0x0A])
                [Str_arg (strerror P (Errno c))] c)))
              (\<lambda>_. Done (CFE_SBN_CLIENT_PIPE_CLOSED_ERR, buf'))
        | R_Bytes bs \<Rightarrow> ReadBytes_steps P fd n k buf' (got + length bs)))"

definition ReadBytes_prog :: "platform \<Rightarrow> i32 \<Rightarrow> byte list \<Rightarrow> nat \<Rightarrow> ('i world, i32 \<times> byte list) prog" where
  "ReadBytes_prog P fd buf n =
     (if n > CFE_SBN_CLIENT_MAX_MESSAGE_SIZE P
      then bindP (modify (\<lambda>c. Inr (log_message
          ''CFE_SBN_Client_ReadBytes: MsgSz (%u) > CFE_SBN_CLIENT_MAX_MESSAGE_SIZE (%u)''
          [Int_arg (of_nat n), Int_arg (of_nat (CFE_SBN_CLIENT_MAX_MESSAGE_SIZE P))] c)))
        (\<lambda>_. Done (CFE_SBN_CLIENT_BAD_ARGUMENT P, buf))
      else ReadBytes_steps P fd n n buf 0)"

definition ingest_app_message_prog ::
    "platform \<Rightarrow> nat \<Rightarrow> (nat \<Rightarrow> byte) \<Rightarrow> i32 \<Rightarrow> u16 \<Rightarrow> ('m::len word world, reply) prog" where
  "ingest_app_message_prog P t g SockFd MsgSz =
     bindP (ReadBytes_prog P SockFd (uninit g (CFE_SBN_CLIENT_MAX_MESSAGE_SIZE P)) (unat MsgSz)) (\<lambda>(status, msg_buffer).
       if status \<noteq> CFE_SUCCESS P then
         bindP (modify (\<lambda>c. Inr (log_message
             (take 60 (c_format (''CFE_SBN_Client_ReadBytes returned a bad status = 0x%08X'' @ [CHR 0x0A])
               [Int_arg status])) [] c))) (\<lambda>_. Done Ingested)
       else ingest_prog t msg_buffer MsgSz (CFE_SBN_Client_GetMsgId P msg_buffer))"

definition recv_msg_prog ::
    "platform \<Rightarrow> ('m::len word, 'k, 'u) packer \<Rightarrow> nat \<Rightarrow> (nat \<Rightarrow> byte) \<Rightarrow> (nat \<Rightarrow> byte) \<Rightarrow> i32 \<Rightarrow>
     ('m word world, i32) prog" where
  "recv_msg_prog P K t g h sockfd =
     bindP (ReadBytes_prog P sockfd (uninit g (SBN_PACKED_HDR_SZ P)) (SBN_PACKED_HDR_SZ P)) (\<lambda>(status, hdr).
       if status \<noteq> CFE_SUCCESS P then
         bindP (modify (\<lambda>c. Inr (printf
             (''SBN_CLIENT: recv_msg call to CFE_SBN_Client_ReadBytes returned status = %d'' @ [CHR 0x0A])
             [Int_arg status] c))) (\<lambda>_. Done status)
       else
         let (MsgSz, MsgType, CpuID) = unpack_header K hdr (SBN_PACKED_HDR_SZ P) in
         if MsgType = SBN_NO_MSG P \<or> MsgType = SBN_SUB_MSG P \<or> MsgType = SBN_UNSUB_MSG P \<or>
            MsgType = SBN_PROTO_MSG P \<or> MsgType = SBN_HEARTBEAT_MSG
         then bindP (ReadBytes_prog P sockfd (uninit h (CFE_SBN_CLIENT_MAX_MESSAGE_SIZE P)) (unat MsgSz))
                (\<lambda>(st, msg). Done st)
         else if MsgType = SBN_APP_MSG P
         then bindP (ingest_app_message_prog P t h sockfd MsgSz) (\<lambda>_. Done (CFE_SUCCESS P))
         else bindP (modify (\<lambda>c. Inr (log_message (''SBN_CLIENT: ERROR - recv_msg unrecognized type %d'' @ [CHR 0x0A])
             [Int_arg (ucast MsgType)] c))) (\<lambda>_. Done (CFE_EVS_ERROR P)))"

section \<open>The minder threads\<close>

text \<open>Both loops for at most \<open>n\<close> rounds: the result says whether the flag has ended them.\<close>

fun receive_prog ::
    "platform \<Rightarrow> ('m::len word, 'k, 'u) packer \<Rightarrow> nat \<Rightarrow> (nat \<Rightarrow> nat \<Rightarrow> byte) \<Rightarrow> (nat \<Rightarrow> nat \<Rightarrow> byte) \<Rightarrow> nat \<Rightarrow> nat \<Rightarrow> i32 \<Rightarrow>
     ('m word world, reply) prog" where
  "receive_prog P K t g h 0 k consec_error_count = Done (Stopped False)"
| "receive_prog P K t g h (Suc n) k consec_error_count =
     bindP (get (\<lambda>c. Inr (continue_receive_check c))) (\<lambda>go.
       if \<not> go then Done (Stopped True)
       else
         bindP (get (\<lambda>c. Inr (sbn_client_sockfd c))) (\<lambda>fd.
         bindP (recv_msg_prog P K t (g k) (h k) fd) (\<lambda>status.
         bindP (if status \<noteq> CFE_SUCCESS P
                then bindP (modify (\<lambda>c. Inr (log_message (''Receive message returned error 0x%08X'' @ [CHR 0x0A])
                       [Int_arg status] c))) (\<lambda>_. Done (consec_error_count + 1))
                else Done 0) (\<lambda>count.
         bindP (if count = 5
                then sequence [modify (\<lambda>c. Inr (c\<lparr>continue_heartbeat := False\<rparr>)),
                       modify (\<lambda>c. Inr (c\<lparr>continue_receive_check := False\<rparr>))]
                else Done ()) (\<lambda>_.
         receive_prog P K t g h n (Suc k) count)))))"

fun heartbeat_prog :: "platform \<Rightarrow> ('m::len word, 'k, 'u) packer \<Rightarrow> nat \<Rightarrow> ('m word world, reply) prog" where
  "heartbeat_prog P K 0 = Done (Stopped False)"
| "heartbeat_prog P K (Suc n) =
     bindP (get (\<lambda>c. Inr (continue_heartbeat c))) (\<lambda>go.
       if \<not> go then Done (Stopped True)
       else
         bindP (get (\<lambda>c. Inr (sbn_client_sockfd c \<noteq> 0))) (\<lambda>connected.
         bindP (if connected
                then bindP (get (\<lambda>c. Inr (sbn_client_sockfd c))) (\<lambda>fd.
                       modify (\<lambda>c. Inr (snd (send_heartbeat P K fd c))))
                else Done ()) (\<lambda>_.
         bindP (modify (\<lambda>c. Inr (c\<lparr>Slept := Slept c + SECONDS_BETWEEN_HEARTBEATS\<rparr>))) (\<lambda>_.
         heartbeat_prog P K n))))"

section \<open>Sending\<close>

definition SendMsg_prog ::
    "platform \<Rightarrow> ('m::len word, 'k, 'u) packer \<Rightarrow> bool \<Rightarrow> (nat \<Rightarrow> byte) \<Rightarrow> byte list \<Rightarrow> ('m word world, reply) prog" where
  "SendMsg_prog P K got_block g msg =
     (let msg_size = CFE_SBN_Client_GetTotalMsgLength P msg;
          total_size = unat msg_size + SBN_PACKED_HDR_SZ P
      in if total_size > CFE_SBN_CLIENT_MAX_MESSAGE_SIZE P then Done (Status (CFE_SB_MSG_TOO_BIG P))
         else
           bindP (modify (\<lambda>c. if got_block then Inr (c\<lparr>HeapBlocks := HeapBlocks c + 1\<rparr>) else Inl NullDeref)) (\<lambda>_.
           bindP (get (\<lambda>c. Inr (sbn_client_cpuId c))) (\<lambda>cpu.
           let k1 = Pack_UInt16 K (Pack_Init K (uninit g total_size) total_size) msg_size;
               k3 = Pack_UInt32 K (Pack_UInt8 K k1 (SBN_APP_MSG P)) cpu
           in
           bindP (get (\<lambda>c. bindR (mem_read msg 0 (unat msg_size)) (\<lambda>m.
              mem_write (Pack_Buf K k3) (SBN_PACKED_HDR_SZ P) m))) (\<lambda>buffer.
           bindP (get (\<lambda>c. Inr (sbn_client_sockfd c))) (\<lambda>fd.
           bindP (act (\<lambda>c. Inr (write_message fd buffer c))) (\<lambda>write_result.
             if write_result \<noteq> of_nat total_size then Done (Status (CFE_SB_BUF_ALOC_ERR P))
             else bindP (modify (\<lambda>c. Inr (c\<lparr>HeapBlocks := HeapBlocks c - 1\<rparr>)))
                    (\<lambda>_. Done (Status (CFE_SUCCESS P)))))))))"

section \<open>A thread\<close>

datatype 'i call =
  Create bool u16 "byte list option"
| Delete u8
| Subscribe 'i u8
| Ingest "byte list" u16 'i
| Receive i32 bool u8 i32
| Send bool "nat \<Rightarrow> byte" "byte list"
| Receive_minder nat "nat \<Rightarrow> nat \<Rightarrow> byte" "nat \<Rightarrow> nat \<Rightarrow> byte"
| Heartbeat_minder nat

fun call_prog :: "bool \<Rightarrow> platform \<Rightarrow> ('m::len word, 'k, 'u) packer \<Rightarrow> nat \<Rightarrow> 'm word call \<Rightarrow>
    ('m word world, reply) prog" where
  "call_prog sp P K t (Create ptr depth name) = CreatePipe_prog P ptr depth name"
| "call_prog sp P K t (Delete pid) = DeletePipe_prog P pid"
| "call_prog sp P K t (Subscribe m pid) = Subscribe_prog P K m pid"
| "call_prog sp P K t (Ingest buf sz m) = ingest_prog t buf sz m"
| "call_prog sp P K t (Receive w ptr pid TimeOut) = RcvMsg_prog sp t P w ptr pid TimeOut"
| "call_prog sp P K t (Send got_block g msg) = SendMsg_prog P K got_block g msg"
| "call_prog sp P K t (Receive_minder n g h) = receive_prog P K t g h n 0 0"
| "call_prog sp P K t (Heartbeat_minder n) = heartbeat_prog P K n"

text \<open>The calls of a thread one after the other, with their results.\<close>

fun thread :: "bool \<Rightarrow> platform \<Rightarrow> ('m::len word, 'k, 'u) packer \<Rightarrow> nat \<Rightarrow> 'm word call list \<Rightarrow>
    ('m word world, reply list) prog" where
  "thread sp P K t [] = Done []"
| "thread sp P K t (x # xs) =
     bindP (call_prog sp P K t x) (\<lambda>r. bindP (thread sp P K t xs) (\<lambda>rs. Done (r # rs)))"

end
