(* ===== verification/SBN_Sequential.thy ===== *)
theory SBN_Sequential
  imports SBN_Threads
begin

text \<open>
  The programs of \<open>SBN_Threads\<close> against the whole-call definitions: a call that no other thread
  disturbs does exactly what its definition says. So everything proved of the calls holds of the
  programs run one after the other, and what goes wrong only when they overlap is due to the overlap.
\<close>

section \<open>Entries\<close>

lemma tbl_wf_lenD: "tbl_wf P tbl \<Longrightarrow> length tbl = 5"
  by (simp add: tbl_wf_def)

lemma tbl_wf_entry: "tbl_wf P tbl \<Longrightarrow> i < 5 \<Longrightarrow> pipe_wf P (tbl ! i)"
  by (simp add: tbl_wf_def list_all_length)

lemma tbl_wf_update: "tbl_wf P tbl \<Longrightarrow> pipe_wf P p \<Longrightarrow> tbl_wf P (tbl[i := p])"
  by (cases "i < length tbl") (simp_all add: tbl_wf_def list_all_length nth_list_update)

lemma tbl_inv_wf: "tbl_inv P tbl \<Longrightarrow> tbl_wf P tbl"
  using entry_inv_wf tbl_invD(2) [of P tbl] tbl_invD(1) [of P tbl]
  by (simp add: tbl_wf_def list_all_length) blast

lemma with_entry_twice [simp]: "with_entry i q (with_entry i p c) = with_entry i q c"
  by (simp add: with_entry_def)

lemma alone_entry_pure [simp]:
  "i < length (PipeTbl c) \<Longrightarrow> alone (entry_get i (\<lambda>p. Inr (f p))) (c, w) = Inr (f (PipeTbl c ! i), (c, w))"
  by simp

lemma list_4: "length xs = 4 \<Longrightarrow> \<exists>a b c d. xs = [a, b, c, d]"
  by (auto simp: numeral_eq_Suc length_Suc_conv)

lemma alone_invalidate:
  assumes i: "i < 5" and wf: "tbl_wf P (PipeTbl c)"
  shows "alone (invalidate_prog P i) (c, w) = Inr ((), (with_entry i (invalidate_pipe P (PipeTbl c ! i)) c, w))"
proof -
  let ?p = "PipeTbl c ! i"
  have len: "length (PipeTbl c) = 5" using wf by (rule tbl_wf_lenD)
  have p: "length (PipeName ?p) = OS_MAX_API_NAME P" "length (SubscribedMsgIds ?p) = 4"
    using tbl_wf_entry [OF wf i] by (simp_all add: pipe_wf_def)
  obtain m0 m1 m2 m3 where ids: "SubscribedMsgIds ?p = [m0, m1, m2, m3]" using list_4 [OF p(2)] by blast
  have upt: "[0..<4] = [0, 1, 2, 3 :: nat]" by (simp add: upt_rec)
  show ?thesis
    using i len p(1)
    by (simp add: invalidate_prog_def upt invalidate_pipe_def ids overwrite_def numeral_eq_Suc)
qed

section \<open>Creating and deleting\<close>

lemma CreatePipe_alone:
  assumes wf: "tbl_wf P (PipeTbl c)"
  shows "alone (CreatePipe_prog P ptr depth name) (c, w) =
    bindR (wrap_CFE_SB_CreatePipe P ptr depth name c) (\<lambda>(st, idp, c'). Inr (Created st idp, (c', w)))"
proof -
  have len: "length (PipeTbl c) = 5" using wf by (rule tbl_wf_lenD)
  have one: "alone (create_entry P name i) (c, w) =
      (case name of None \<Rightarrow> Inl NullDeref
       | Some nm \<Rightarrow> Inr (Created (OS_SUCCESS P) (Some (of_nat i)), (with_entry i (created_pipe P i nm (PipeTbl c ! i)) c, w)))"
    if i: "i < 5" for i
  proof -
    have "length (PipeName (PipeTbl c ! i)) = OS_MAX_API_NAME P"
      using tbl_wf_entry [OF wf i] by (simp add: pipe_wf_def)
    then show ?thesis
      using i len by (cases name) (simp_all add: create_entry_def created_pipe_def)
  qed
  have "alone (create_scan P name) (c, w) =
      (case scan (\<lambda>p. InUse p \<noteq> 1) (PipeTbl c) of Some i \<Rightarrow> alone (create_entry P name i) (c, w)
       | None \<Rightarrow> Inr (Created 1003 (Some 0xFF), (c, w)))"
    using len find_upt_scan [of "\<lambda>p. InUse p \<noteq> 1" "PipeTbl c"]
    by (simp add: create_scan_def alone_search [where q = "\<lambda>i. InUse (PipeTbl c ! i) \<noteq> 1"]
        split: option.split)
  then show ?thesis
    using one scan_SomeD [of "\<lambda>p. InUse p \<noteq> 1" "PipeTbl c"] len
    by (auto simp: CreatePipe_prog_def wrap_CFE_SB_CreatePipe_def Let_def created_pipe_def with_entry_def
        split: option.splits)
qed

lemma DeletePipe_alone:
  assumes wf: "tbl_wf P (PipeTbl c)"
  shows "alone (DeletePipe_prog P pid) (c, w) =
    (let (st, c') = wrap_CFE_SB_DeletePipe P pid c in Inr (Status st, (c', w)))"
proof -
  have len: "length (PipeTbl c) = 5" using wf by (rule tbl_wf_lenD)
  have "alone (DeletePipe_prog P pid) (c, w) =
      (case scan (\<lambda>p. PipeId p = pid) (PipeTbl c) of Some i \<Rightarrow> alone (delete_entry P i) (c, w)
       | None \<Rightarrow> Inr (Status (-2), (c, w)))"
    using len find_upt_scan [of "\<lambda>p. PipeId p = pid" "PipeTbl c"]
    by (simp add: DeletePipe_prog_def alone_search [where q = "\<lambda>i. PipeId (PipeTbl c ! i) = pid"]
        split: option.split)
  moreover have "alone (delete_entry P i) (c, w) =
      (if InUse (PipeTbl c ! i) = 1
       then Inr (Status (CFE_SUCCESS P), (with_entry i (invalidate_pipe P (PipeTbl c ! i)) c, w))
       else Inr (Status (-1), (c, w)))" if "i < 5" for i
    using that len alone_invalidate [OF that wf] by (simp add: delete_entry_def)
  ultimately show ?thesis
    using scan_SomeD [of "\<lambda>p. PipeId p = pid" "PipeTbl c"] len
    by (auto simp: wrap_CFE_SB_DeletePipe_def with_entry_def split: option.splits)
qed

section \<open>Subscribing\<close>

lemma GetPipeIdx_alone:
  assumes wf: "tbl_wf P (PipeTbl c)"
  shows "alone (GetPipeIdx_prog pid) (c, w) = bindR (CFE_SBN_Client_GetPipeIdx c pid) (\<lambda>i. Inr (i, (c, w)))"
proof (cases "unat pid < 5")
  case True
  then show ?thesis
    using tbl_wf_lenD [OF wf] find_upt_scan [of "\<lambda>p. PipeId p = pid \<and> InUse p = 1" "PipeTbl c"]
    by (simp add: GetPipeIdx_prog_def CFE_SBN_Client_GetPipeIdx_def
        alone_search [where q = "\<lambda>i. PipeId (PipeTbl c ! i) = pid \<and> InUse (PipeTbl c ! i) = 1"]
        split: option.split)
next
  case False
  then show ?thesis using tbl_wf_lenD [OF wf] by (simp add: GetPipeIdx_prog_def CFE_SBN_Client_GetPipeIdx_def)
qed

lemma SubscribeIndex_alone:
  assumes wf: "tbl_wf P (PipeTbl c)" and pid: "unat pid < 5"
  shows "alone (SubscribeIndex_prog pid) (c, w) =
    bindR (CFE_SBN_Client_GetMessageSubscribeIndex c pid) (\<lambda>i. Inr (i, (c, w)))"
proof -
  have len: "length (SubscribedMsgIds (PipeTbl c ! unat pid)) = 4"
    using tbl_wf_entry [OF wf pid] by (simp add: pipe_wf_def)
  then show ?thesis
    using tbl_wf_lenD [OF wf] pid find_upt_scan [of "\<lambda>m. m = 0" "SubscribedMsgIds (PipeTbl c ! unat pid)"]
    by (simp add: SubscribeIndex_prog_def CFE_SBN_Client_GetMessageSubscribeIndex_def
        alone_search [where q = "\<lambda>j. SubscribedMsgIds (PipeTbl c ! unat pid) ! j = 0"]
        split: option.split)
qed

lemma Subscribe_alone:
  assumes wf: "tbl_wf P (PipeTbl c)"
  shows "alone (Subscribe_prog P K m pid) (c, w) =
    bindR (wrap_CFE_SB_Subscribe P K m pid c) (\<lambda>(st, c'). Inr (Status st, (c', w)))"
proof (cases "CFE_SBN_Client_GetPipeIdx c pid")
  case (Inl f)
  then show ?thesis by (simp add: Subscribe_prog_def wrap_CFE_SB_Subscribe_def GetPipeIdx_alone [OF wf])
next
  case (Inr idx)
  show ?thesis
  proof (cases "idx = 0xFF")
    case False
    have pid: "unat pid < 5"
      using Inr tbl_wf_lenD [OF wf] by (cases "unat pid < 5") (simp_all add: CFE_SBN_Client_GetPipeIdx_def)
    have idx: "unat idx < 5"
    proof -
      have "idx = pid \<or> (\<exists>i < 5. idx = of_nat i)"
        using Inr False tbl_wf_lenD [OF wf] pid scan_SomeD [of "\<lambda>q. PipeId q = pid \<and> InUse q = 1" "PipeTbl c"]
        by (auto simp: CFE_SBN_Client_GetPipeIdx_def split: if_splits option.splits)
      then show ?thesis using pid small_index_u8(1) by auto
    qed
    obtain j where j: "CFE_SBN_Client_GetMessageSubscribeIndex c pid = Inr j"
      using pid tbl_wf_lenD [OF wf] by (simp add: CFE_SBN_Client_GetMessageSubscribeIndex_def)
    then show ?thesis
      using Inr False idx tbl_wf_lenD [OF wf]
      by (cases "unat j < length (SubscribedMsgIds (PipeTbl c ! unat idx))")
        (simp_all add: Subscribe_prog_def wrap_CFE_SB_Subscribe_def GetPipeIdx_alone [OF wf]
          SubscribeIndex_alone [OF wf pid] set_subscription_def with_entry_def arr_set_def)
  qed (simp add: Inr Subscribe_prog_def wrap_CFE_SB_Subscribe_def GetPipeIdx_alone [OF wf])
qed

section \<open>Delivering and receiving\<close>

lemma pipe_put_split:
  "pipe_put bs p = bindR (pipe_copy bs p) (\<lambda>q. Inr (q\<lparr>NumberOfMessages := NumberOfMessages q + 1\<rparr>))"
  by (cases "arr_get (Messages p) (unat (message_entry_point p))"; simp add: pipe_put_def pipe_copy_def Let_def)
    (simp add: mem_write_def arr_set_def)

lemma deliver_alone:
  assumes "i < length (PipeTbl c)"
  shows "alone (deliver_prog buf sz m i) (c, w) =
    bindR (ingest_into i buf sz m c) (\<lambda>c'. Inr (Ingested, (c', None)))"
  using assms
  by (cases "mem_read buf 0 (unat sz)"; cases "pipe_copy (take (unat sz) buf) (PipeTbl c ! i)")
    (auto simp: deliver_prog_def ingest_into_def pipe_put_split mem_read_def with_entry_def Let_def
      split: if_splits)

lemma pipe_scan_alone:
  assumes wf: "tbl_wf P (PipeTbl c)" and "n \<le> 5"
  shows "alone (pipe_scan buf sz m n used) (c, w) =
    bindR (ingest_loop n buf sz m used c) (\<lambda>c'. Inr (Ingested, (c', None)))"
  using assms(2)
proof (induction n arbitrary: used)
  case (Suc n)
  let ?i = "5 - Suc n"
  have i: "?i < length (PipeTbl c)" "?i < 5" using tbl_wf_lenD [OF wf] by simp_all
  have ids: "length (SubscribedMsgIds (PipeTbl c ! ?i)) = 4"
    using tbl_wf_entry [OF wf i(2)] by (simp add: pipe_wf_def)
  have "alone (slot_scan buf sz m ?i rest) (c, w) =
      (case scan (\<lambda>x. x = m) (SubscribedMsgIds (PipeTbl c ! ?i)) of
         Some j \<Rightarrow> alone (deliver_prog buf sz m ?i) (c, w) | None \<Rightarrow> alone rest (c, w))" for rest
    using i(1) ids find_upt_scan [of "\<lambda>x. x = m" "SubscribedMsgIds (PipeTbl c ! ?i)"]
    by (simp add: slot_scan_def alone_search [where q = "\<lambda>j. SubscribedMsgIds (PipeTbl c ! ?i) ! j = m"]
        split: option.split)
  then show ?case
    using Suc i by (simp add: Let_def deliver_alone split: option.split)
qed simp

lemma ingest_alone:
  assumes wf: "tbl_wf P (PipeTbl c)"
  shows "alone (ingest_prog t buf sz m) (c, None) =
    bindR (ingest_loop 5 buf sz m False (sync Mutex_lock c)) (\<lambda>c'. Inr (Ingested, (c', None)))"
  using pipe_scan_alone [of P "sync Mutex_lock c" 5 buf sz m False "Some t"] wf
  by (simp add: ingest_prog_def)

text \<open>The system calls as a receive call finds them when no other thread runs: the wait returns \<open>w\<close>.\<close>

definition undisturbed :: "timespec \<Rightarrow> i32 \<Rightarrow> 'm::len word rcv_env" where
  "undisturbed now w = \<lparr>clock_now = now, lock_ret = 0,
     wait_ret = (\<lambda>_ s. (w, sync Mutex_lock s)), unlock_ret = 0\<rparr>"

lemma undisturbed_fields [simp]:
  "lock_ret (undisturbed now w) = 0" "wait_ret (undisturbed now w) q s = (w, sync Mutex_lock s)"
  "unlock_ret (undisturbed now w) = 0"
  by (simp_all add: undisturbed_def)

lemma finish_alone:
  assumes "i < length (PipeTbl c)" and "unlock_ret e = 0"
  shows "alone (finish_prog P i st w) (c, o') =
    bindR (rcv_finish P e i st w c) (\<lambda>(st', buf, c'). Inr (Got st' buf, (c', None)))"
  using assms by (simp add: finish_prog_def rcv_finish_def Let_def pipe_get_def pipe_next_def with_entry_def)

lemma GetPipeIdx_range:
  assumes wf: "tbl_wf P (PipeTbl c)" and "CFE_SBN_Client_GetPipeIdx c pid = Inr idx"
  shows "unat pid < 5 \<and> (idx = 0xFF \<or> unat idx < 5)"
proof -
  have pid: "unat pid < 5"
    using assms(2) tbl_wf_lenD [OF wf] by (cases "unat pid < 5") (simp_all add: CFE_SBN_Client_GetPipeIdx_def)
  have "idx = pid \<or> idx = 0xFF \<or> (\<exists>i < 5. idx = of_nat i)"
    using assms(2) tbl_wf_lenD [OF wf] pid scan_SomeD [of "\<lambda>q. PipeId q = pid \<and> InUse q = 1" "PipeTbl c"]
    by (auto simp: CFE_SBN_Client_GetPipeIdx_def split: if_splits option.splits)
  then show ?thesis using pid small_index_u8(1) by auto
qed

lemma RcvMsg_alone:
  assumes wf: "tbl_wf P (PipeTbl c)" and P: "platform_ok P" and "w = 0 \<longrightarrow> sp"
  shows "alone (RcvMsg_prog sp t P w ptr pid TimeOut) (c, None) =
    bindR (wrap_CFE_SB_RcvMsg P (undisturbed now w) ptr pid TimeOut c)
      (\<lambda>(st, buf, c'). Inr (Got st buf, (c', None)))"
proof -
  have ne: "CFE_SB_BAD_ARGUMENT P \<noteq> CFE_SUCCESS P" using platform_okD(1,3) [OF P] by simp
  consider "\<not> ptr" | "ptr" "sint TimeOut < -1" | "ptr" "\<not> sint TimeOut < -1" by blast
  then show ?thesis
  proof cases
    case 3
    show ?thesis
    proof (cases "CFE_SBN_Client_GetPipeIdx c pid")
      case (Inl f)
      then show ?thesis using 3
        by (simp add: RcvMsg_prog_def wrap_CFE_SB_RcvMsg_def rcv_args_def GetPipeIdx_alone [OF wf])
    next
      case (Inr idx)
      show ?thesis
      proof (cases "idx = 0xFF")
        case True
        then show ?thesis using 3 Inr ne
          by (simp add: RcvMsg_prog_def wrap_CFE_SB_RcvMsg_def rcv_args_def GetPipeIdx_alone [OF wf])
      next
        case False
        then have i: "unat idx < length (PipeTbl c)"
          using GetPipeIdx_range [OF wf Inr] tbl_wf_lenD [OF wf] by simp
        note fin = finish_alone [of "unat idx" _ "undisturbed now w", OF _ undisturbed_fields(3)]
        show ?thesis
          using 3 Inr False i ne assms(3)
          by (simp add: RcvMsg_prog_def wrap_CFE_SB_RcvMsg_def rcv_args_def rcv_wait_def Let_def
              GetPipeIdx_alone [OF wf] fin)
      qed
    qed
  qed (use ne in \<open>simp_all add: RcvMsg_prog_def wrap_CFE_SB_RcvMsg_def rcv_args_def\<close>)
qed

section \<open>Reading frames\<close>

lemma ReadBytes_steps_alone:
  "got \<le> n \<Longrightarrow> n - got \<le> k \<Longrightarrow> alone (ReadBytes_steps P fd n k buf got) (c, w) =
    bindR (ReadBytes_loop P fd n buf got c) (\<lambda>(st, b, c'). Inr ((st, b), (c', w)))"
proof (induction k arbitrary: buf got c)
  case 0
  then show ?case by (subst ReadBytes_loop.simps) simp
next
  case (Suc k)
  show ?case
  proof (cases "got = n")
    case True
    then show ?thesis by (subst ReadBytes_loop.simps) simp
  next
    case False
    show ?thesis
    proof (cases "sock_read (n - got) (rd (Sock c fd))")
      case (Inl f)
      then show ?thesis using False by (simp add: read_step_def ReadBytes_loop.simps [of P fd n buf])
    next
      case (Inr x)
      obtain r es where x: "x = (r, es)" by (cases x)
      show ?thesis
      proof (cases r)
        case (R_Bytes bs)
        then have "0 < length bs" "length bs \<le> n - got" using sock_read_bytes Inr x by blast+
        then have "got + length bs \<le> n" "n - (got + length bs) \<le> k" using Suc.prems False by linarith+
        then show ?thesis
          using Suc.IH [of "got + length bs"] Inr x R_Bytes False
          by (cases "mem_write buf got bs") (simp_all add: read_step_def ReadBytes_loop.simps [of P fd n buf])
      qed (use Inr x False in \<open>simp_all add: read_step_def ReadBytes_loop.simps [of P fd n buf]\<close>)
    qed
  qed
qed

lemma ReadBytes_alone:
  "alone (ReadBytes_prog P fd buf n) (c, w) =
    bindR (CFE_SBN_Client_ReadBytes P fd buf n c) (\<lambda>(st, b, c'). Inr ((st, b), (c', w)))"
  by (simp add: ReadBytes_prog_def CFE_SBN_Client_ReadBytes_def ReadBytes_steps_alone)

lemma keep_owner:
  "bindR (case y of (a, c') \<Rightarrow> Inr (f a, c', w)) g = (case y of (a, c') \<Rightarrow> g (f a, c', w))"
  by (cases y) simp

lemma ReadBytes_table:
  assumes "CFE_SB_MAX_SB_MSG_SIZE P < n \<or> n \<le> length buf" and "CFE_SBN_Client_ReadBytes P fd buf n c = Inr (st, b, c')"
  shows "PipeTbl c' = PipeTbl c"
  using assms ReadBytes_too_big [of P n fd buf c] ReadBytes_returns(1) [of n buf P fd c st b c']
  by (auto simp: only_read_def)

lemma ingest_app_message_alone:
  assumes wf: "tbl_wf P (PipeTbl c)"
  shows "alone (ingest_app_message_prog P t g fd sz) (c, None) =
    bindR (ingest_app_message P g fd sz c) (\<lambda>c'. Inr (Ingested, (c', None)))"
proof (cases "CFE_SBN_Client_ReadBytes P fd (uninit g (CFE_SB_MAX_SB_MSG_SIZE P)) (unat sz) c")
  case (Inr x)
  obtain st b d where x: "x = (st, b, d)" by (cases x)
  have "PipeTbl d = PipeTbl c" by (rule ReadBytes_table [OF _ Inr [unfolded x]]) auto
  then show ?thesis
    using Inr x wf ingest_alone [of P d t b sz]
    by (simp add: ingest_app_message_prog_def ingest_app_message_def ReadBytes_alone)
qed (simp add: ingest_app_message_prog_def ingest_app_message_def ReadBytes_alone)

lemma recv_msg_alone:
  assumes wf: "tbl_wf P (PipeTbl c)"
  shows "alone (recv_msg_prog P K t g h fd) (c, None) =
    bindR (recv_msg P K g h fd c) (\<lambda>(st, c'). Inr (st, (c', None)))"
proof (cases "CFE_SBN_Client_ReadBytes P fd (uninit g (SBN_PACKED_HDR_SZ P)) (SBN_PACKED_HDR_SZ P) c")
  case (Inr x)
  obtain st b d where x: "x = (st, b, d)" by (cases x)
  have "PipeTbl d = PipeTbl c" by (rule ReadBytes_table [OF _ Inr [unfolded x]]) simp
  then have wfd: "tbl_wf P (PipeTbl d)" using wf by simp
  obtain sz ty cpu where h: "unpack_header K b (SBN_PACKED_HDR_SZ P) = (sz, ty, cpu)"
    by (cases "unpack_header K b (SBN_PACKED_HDR_SZ P)")
  show ?thesis
    using Inr x h ingest_app_message_alone [OF wfd, of t h fd sz]
    by (cases "ingest_app_message P h fd sz d";
        cases "CFE_SBN_Client_ReadBytes P fd (uninit h (CFE_SB_MAX_SB_MSG_SIZE P)) (unat sz) d")
      (auto simp: recv_msg_prog_def recv_msg_def ReadBytes_alone)
qed (simp add: recv_msg_prog_def recv_msg_def ReadBytes_alone)

text \<open>No frame changes the size of an array, whatever the packing functions do.\<close>

lemma pipe_put_keeps_wf:
  assumes "pipe_put bs p = Inr p'" and "pipe_wf P p"
  shows "pipe_wf P p'"
  using assms pipe_wf_slot [OF assms(2) message_entry_point_bound [of p]]
  by (auto simp: pipe_put_def Let_def bindR_Inr_iff arr_get_def arr_set_def mem_write_def pipe_wf_def
      list_all_length nth_list_update split: if_splits)

lemma ingest_into_wf:
  assumes "tbl_wf P (PipeTbl c)" and "ingest_into i buf sz m c = Inr c'"
  shows "tbl_wf P (PipeTbl c')"
proof (cases "i < length (PipeTbl c) \<and> \<not> pipe_full (PipeTbl c ! i)")
  case True
  then obtain bs p' where "pipe_put bs (PipeTbl c ! i) = Inr p'" "PipeTbl c' = (PipeTbl c)[i := p']"
    using assms(2) by (auto simp: ingest_into_def bindR_Inr_iff Let_def)
  then show ?thesis
    using True assms(1) tbl_wf_update [of P "PipeTbl c" p' i] tbl_wf_entry [of P "PipeTbl c" i] tbl_wf_lenD [OF assms(1)]
      pipe_put_keeps_wf [of bs "PipeTbl c ! i" p' P] by simp
qed (use assms in \<open>auto simp: ingest_into_def arr_get_def Let_def bindR_Inr_iff split: if_splits\<close>)

lemma ingest_loop_wf:
  "tbl_wf P (PipeTbl c) \<Longrightarrow> ingest_loop n buf sz m used c = Inr c' \<Longrightarrow> tbl_wf P (PipeTbl c')"
  by (induction n arbitrary: used)
    (auto simp: bindR_Inr_iff Let_def intro: ingest_into_wf split: if_splits option.splits)

lemma recv_msg_wf:
  assumes wf: "tbl_wf P (PipeTbl c)" and run: "recv_msg P K g h fd c = Inr (st, c')"
  shows "tbl_wf P (PipeTbl c')"
proof -
  obtain st1 b d where rd: "CFE_SBN_Client_ReadBytes P fd (uninit g (SBN_PACKED_HDR_SZ P)) (SBN_PACKED_HDR_SZ P) c = Inr (st1, b, d)"
    using run by (auto simp: recv_msg_def bindR_Inr_iff)
  have "PipeTbl d = PipeTbl c" by (rule ReadBytes_table [OF _ rd]) simp
  then have d: "tbl_wf P (PipeTbl d)" using wf by simp
  have payload: "PipeTbl v = PipeTbl d" if "CFE_SBN_Client_ReadBytes P fd (uninit h (CFE_SB_MAX_SB_MSG_SIZE P)) n d = Inr (s, b', v)"
    for n s b' v using ReadBytes_table [OF _ that] by (cases "CFE_SB_MAX_SB_MSG_SIZE P < n") auto
  have app: "tbl_wf P (PipeTbl c')" if "ingest_app_message P h fd sz d = Inr c'" for sz
  proof -
    note run = that
    obtain s b' v where v: "CFE_SBN_Client_ReadBytes P fd (uninit h (CFE_SB_MAX_SB_MSG_SIZE P)) (unat sz) d = Inr (s, b', v)"
      using run by (auto simp: ingest_app_message_def bindR_Inr_iff)
    show ?thesis
      using run payload [OF v] d ingest_loop_wf [of P "sync Mutex_lock v" 5 b' sz]
      by (auto simp: ingest_app_message_def v split: if_splits)
  qed
  show ?thesis
    using run d payload app
    by (auto simp: recv_msg_def rd Let_def bindR_Inr_iff split: if_splits prod.splits)
qed

section \<open>The minder threads\<close>

text \<open>The whole threads for at most \<open>n\<close> rounds: whether the flag has ended them, and the state.\<close>

fun receive_rounds ::
    "platform \<Rightarrow> ('m::len word, 'k, 'u) packer \<Rightarrow> (nat \<Rightarrow> nat \<Rightarrow> byte) \<Rightarrow> (nat \<Rightarrow> nat \<Rightarrow> byte) \<Rightarrow> nat \<Rightarrow> nat \<Rightarrow> i32 \<Rightarrow>
     'm word client \<Rightarrow> (bool \<times> 'm word client) run" where
  "receive_rounds P K g h 0 k count c = Inr (False, c)"
| "receive_rounds P K g h (Suc n) k count c =
     (if continue_receive_check c
      then bindR (receive_round P K (g k) (h k) count c) (\<lambda>(count', c'). receive_rounds P K g h n (Suc k) count' c')
      else Inr (True, c))"

fun heartbeat_rounds :: "platform \<Rightarrow> ('i, 'k, 'u) packer \<Rightarrow> nat \<Rightarrow> 'i client \<Rightarrow> bool \<times> 'i client" where
  "heartbeat_rounds P K 0 c = (False, c)"
| "heartbeat_rounds P K (Suc n) c =
     (if continue_heartbeat c then heartbeat_rounds P K n (heartbeat_round P K c) else (True, c))"

lemma receive_rounds_minder:
  "receive_rounds P K g h n k count c = Inr (True, c') \<Longrightarrow> receive_loop P K g h k count c = Some (Inr c')"
proof (induction n arbitrary: k count c)
  case (Suc n)
  then show ?case by (subst receive_loop.simps) (auto simp: bindR_Inr_iff split: if_splits)
qed simp

lemma heartbeat_rounds_minder:
  "heartbeat_rounds P K n c = (True, c') \<Longrightarrow> SBN_Client_HeartbeatMinder P K (\<lambda>_ s. s) k c = Some c'"
proof (induction n arbitrary: k c)
  case (Suc n)
  then show ?case by (subst SBN_Client_HeartbeatMinder.simps) (auto split: if_splits)
qed simp

lemma heartbeat_alone:
  "alone (heartbeat_prog P K n) (c, w) = (let (b, c') = heartbeat_rounds P K n c in Inr (Stopped b, (c', w)))"
  by (induction n arbitrary: c) (auto simp: heartbeat_round_def Let_def)

lemma receive_alone:
  "tbl_wf P (PipeTbl c) \<Longrightarrow> alone (receive_prog P K t g h n k count) (c, None) =
    bindR (receive_rounds P K g h n k count c) (\<lambda>(b, c'). Inr (Stopped b, (c', None)))"
proof (induction n arbitrary: k count c)
  case (Suc n)
  show ?case
  proof (cases "recv_msg P K (g k) (h k) (sbn_client_sockfd c) c")
    case (Inl f)
    then show ?thesis
      using recv_msg_alone [OF Suc.prems, of K t "g k" "h k" "sbn_client_sockfd c"] by (simp add: receive_round_def)
  next
    case (Inr x)
    obtain st d where x: "x = (st, d)" by (cases x)
    have d: "tbl_wf P (PipeTbl d)" by (rule recv_msg_wf [OF Suc.prems Inr [unfolded x]])
    show ?thesis
      using recv_msg_alone [OF Suc.prems, of K t "g k" "h k" "sbn_client_sockfd c"] Inr x d Suc.IH
      by (simp add: receive_round_def Let_def)
  qed
qed simp

lemma SendMsg_alone:
  "alone (SendMsg_prog P K got_block g msg) (c, w) =
    bindR (wrap_CFE_SB_SendMsg P K got_block g msg c) (\<lambda>(st, c'). Inr (Status st, (c', w)))"
  by (cases "mem_read msg 0 (unat (CFE_SBN_Client_GetTotalMsgLength P msg))")
    (auto simp: SendMsg_prog_def wrap_CFE_SB_SendMsg_def Let_def write_message_def bindR_def split: sum.splits prod.splits)

end
