(* ===== verification/SBN_Interleave.thy ===== *)
theory SBN_Interleave
  imports SBN_Sequential SBN_System
begin

text \<open>
  Any number of threads that make calls, cut between any two statements. What every thread keeps is a
  rely-guarantee interface: the sizes of the arrays and the discipline of the mutex, and, when no thread
  deletes a pipe and no wait ends early, the ring of every pipe, which only the holder of the mutex
  changes. The flag \<open>q\<close> says whether the rings are part of it, \<open>I\<close> is what
  is known of each of them whenever the mutex is free, and \<open>N\<close> what is known of the connection, and of the ids and
  subscriptions of the entries, at all times.
  Both may speak of an auxiliary value, which changes only when a message is put into a ring.
\<close>

section \<open>What the threads keep\<close>

text \<open>
  The connection as the threads share it: descriptor, identity and sockets. An invariant of it, and the
  threads that read from it; when there is one only, no other thread moves its place in the stream.
\<close>

type_synonym net = "i32 \<times> u32 \<times> (i32 \<Rightarrow> chan)"

definition net_of :: "'i client \<Rightarrow> net" where
  "net_of c = (sbn_client_sockfd c, sbn_client_cpuId c, Sock c)"

definition rd_of :: "'i client \<Rightarrow> i32 \<Rightarrow> rd_event list" where
  "rd_of c = (\<lambda>fd. rd (Sock c fd))"

record 'g net_rule =
  net_inv :: "'g \<Rightarrow> net \<Rightarrow> bool"
  readers :: "nat set"
  putters :: "nat set"
  no_read :: bool
  no_put :: bool
  boundary :: "byte list \<Rightarrow> bool"
  entry_ok :: "nat \<Rightarrow> u8 \<times> nat list \<Rightarrow> bool"

text \<open>
  The threads that put are \<open>putters\<close>; with \<open>no_read\<close> and \<open>no_put\<close> a thread makes steps only that do not read, and
  do not put. What the stream looks like from between two frames on is \<open>boundary\<close>,
  and what is known of the id and the subscriptions of an entry of the table is \<open>entry_ok\<close>.
  The state the threads share, with the auxiliary value.
\<close>

type_synonym ('i, 'g) gworld = "'i world \<times> 'g"

abbreviation mem :: "('i, 'g) gworld \<Rightarrow> 'i client" where
  "mem u \<equiv> fst (fst u)"

abbreviation owner :: "('i, 'g) gworld \<Rightarrow> nat option" where
  "owner u \<equiv> snd (fst u)"

abbreviation aux :: "('i, 'g) gworld \<Rightarrow> 'g" where
  "aux u \<equiv> snd u"

lemma net_of_simps [simp]:
  "net_of (with_entry i p c) = net_of c" "net_of (sync e c) = net_of c"
  "rd_of (with_entry i p c) = rd_of c" "rd_of (sync e c) = rd_of c"
  by (simp_all add: net_of_def rd_of_def)

text \<open>The part of an entry that the mutex protects, and an invariant \<open>I\<close> of it for each pipe, which holds when the mutex is free.\<close>

type_synonym ring = "u32 \<times> u32 \<times> byte list list"

definition ring_of :: "'i pipe \<Rightarrow> ring" where
  "ring_of p = (ReadMessage p, NumberOfMessages p, Messages p)"

text \<open>The id and the message ids of an entry, which calls change without the mutex, and what is known of them.\<close>

definition key_of :: "'m::len word pipe \<Rightarrow> u8 \<times> nat list" where
  "key_of p = (PipeId p, map unat (SubscribedMsgIds p))"

definition keyed :: "'g net_rule \<Rightarrow> nat \<Rightarrow> 'm::len word pipe \<Rightarrow> bool" where
  "keyed N i p \<longleftrightarrow> entry_ok N i (key_of p)"

lemma key_of_simps [simp]:
  "key_of (p\<lparr>InUse := a\<rparr>) = key_of p" "key_of (p\<lparr>SysQueueId := b\<rparr>) = key_of p" "key_of (p\<lparr>NumberOfMessages := d\<rparr>) = key_of p"
  "key_of (p\<lparr>ReadMessage := d\<rparr>) = key_of p" "key_of (p\<lparr>SendErrors := e\<rparr>) = key_of p" "key_of (p\<lparr>PipeName := nm\<rparr>) = key_of p"
  "key_of (p\<lparr>Messages := ms\<rparr>) = key_of p"
  by (simp_all add: key_of_def)

lemma keyed_simps [simp]:
  "keyed N i (p\<lparr>InUse := a\<rparr>) = keyed N i p" "keyed N i (p\<lparr>SysQueueId := b\<rparr>) = keyed N i p"
  "keyed N i (p\<lparr>NumberOfMessages := d\<rparr>) = keyed N i p" "keyed N i (p\<lparr>ReadMessage := d\<rparr>) = keyed N i p"
  "keyed N i (p\<lparr>SendErrors := e\<rparr>) = keyed N i p" "keyed N i (p\<lparr>PipeName := nm\<rparr>) = keyed N i p"
  "keyed N i (p\<lparr>Messages := ms\<rparr>) = keyed N i p"
  by (simp_all add: keyed_def)

definition shared_ok :: "bool \<Rightarrow> (nat \<Rightarrow> 'g \<Rightarrow> ring \<Rightarrow> bool) \<Rightarrow> 'g net_rule \<Rightarrow> platform \<Rightarrow> ('m::len word, 'g) gworld \<Rightarrow> bool" where
  "shared_ok q I N P u \<longleftrightarrow> tbl_wf P (PipeTbl (mem u)) \<and>
     mutex_run False (Sync (mem u)) = Some (owner u \<noteq> None) \<and>
     (q \<longrightarrow> (\<forall>i < 5. ring_ok (PipeTbl (mem u) ! i) \<and> keyed N i (PipeTbl (mem u) ! i))) \<and>
     (q \<and> owner u = None \<longrightarrow> (\<forall>i < 5. I i (aux u) (ring_of (PipeTbl (mem u) ! i)))) \<and>
     net_inv N (aux u) (net_of (mem u))"

definition same_rings :: "('m::len word, 'g) gworld \<Rightarrow> ('m word, 'g) gworld \<Rightarrow> bool" where
  "same_rings u v \<longleftrightarrow> aux v = aux u \<and> (\<forall>i < 5. ring_of (PipeTbl (mem v) ! i) = ring_of (PipeTbl (mem u) ! i))"

lemma ring_of_ok: "ring_of p' = ring_of p \<Longrightarrow> ring_ok p' = ring_ok p"
  by (simp add: ring_of_def ring_ok_def)

text \<open>What a step of thread \<open>t\<close> may do, what steps of the others may do to it, and when it may have to wait.\<close>

definition own_step :: "bool \<Rightarrow> (nat \<Rightarrow> 'g \<Rightarrow> ring \<Rightarrow> bool) \<Rightarrow> 'g net_rule \<Rightarrow> platform \<Rightarrow> nat \<Rightarrow>
    ('m::len word, 'g) gworld \<Rightarrow> ('m word, 'g) gworld \<Rightarrow> bool" where
  "own_step q I N P t u v \<longleftrightarrow> (shared_ok q I N P u \<longrightarrow> shared_ok q I N P v) \<and>
     (t \<notin> readers N \<or> no_read N \<longrightarrow> rd_of (mem v) = rd_of (mem u)) \<and>
     (t \<notin> putters N \<or> no_put N \<longrightarrow> aux v = aux u) \<and>
     (if owner u = Some t then owner v = Some t \<or> owner v = None
      else (owner v = owner u \<or> owner u = None \<and> owner v = Some t) \<and> (q \<longrightarrow> same_rings u v))"

definition other_steps :: "bool \<Rightarrow> (nat \<Rightarrow> 'g \<Rightarrow> ring \<Rightarrow> bool) \<Rightarrow> 'g net_rule \<Rightarrow> platform \<Rightarrow> nat \<Rightarrow>
    ('m::len word, 'g) gworld \<Rightarrow> ('m word, 'g) gworld \<Rightarrow> bool" where
  "other_steps q I N P t u v \<longleftrightarrow> (shared_ok q I N P u \<longrightarrow> shared_ok q I N P v) \<and>
     (readers N = {t} \<longrightarrow> rd_of (mem v) = rd_of (mem u)) \<and> (putters N = {t} \<longrightarrow> aux v = aux u) \<and>
     (owner v = Some t \<longleftrightarrow> owner u = Some t) \<and> (q \<and> owner u = Some t \<longrightarrow> same_rings u v)"

definition may_wait :: "(nat \<Rightarrow> 'm::len word client \<Rightarrow> bool) \<Rightarrow> nat \<Rightarrow> 'm word world \<Rightarrow> bool" where
  "may_wait waiter t s \<longleftrightarrow> snd s \<noteq> Some t \<and> (snd s = None \<longrightarrow> waiter t (fst s))"

lemma same_rings_refl [simp]: "same_rings u u"
  by (simp add: same_rings_def)

lemma same_rings_trans: "same_rings u v \<Longrightarrow> same_rings v x \<Longrightarrow> same_rings u x"
  by (simp add: same_rings_def)

interpretation sh: rely_guarantee "other_steps q I N P" "own_step q I N P" "may_wait waiter"
  for q and I :: "nat \<Rightarrow> 'g \<Rightarrow> ring \<Rightarrow> bool" and N P waiter
proof unfold_locales
  fix i and u v x :: "('m::len word, 'g) gworld"
  show "other_steps q I N P i u u" by (simp add: other_steps_def)
  show "other_steps q I N P i u x" if "other_steps q I N P i u v" "other_steps q I N P i v x"
    using that same_rings_trans [of u v x] by (auto simp: other_steps_def)
next
  fix i j and u v :: "('m::len word, 'g) gworld"
  show "other_steps q I N P j u v" if "i \<noteq> j" "own_step q I N P i u v"
    using that by (auto simp: other_steps_def own_step_def split: if_splits)
qed

abbreviation thread_safe ::
    "bool \<Rightarrow> (nat \<Rightarrow> 'g \<Rightarrow> ring \<Rightarrow> bool) \<Rightarrow> 'g net_rule \<Rightarrow> platform \<Rightarrow> (nat \<Rightarrow> 'm::len word client \<Rightarrow> bool) \<Rightarrow> nat \<Rightarrow>
     ('r \<Rightarrow> ('m word, 'g) gworld \<Rightarrow> bool) \<Rightarrow> ('m word world, 'r) prog \<Rightarrow> ('m word, 'g) gworld \<Rightarrow> bool" where
  "thread_safe q I N P waiter t \<equiv> safe (other_steps q I N P t) (own_step q I N P t) (may_wait waiter t)"

section \<open>Statements\<close>

text \<open>
  Where a thread is: it holds the mutex (\<open>h\<close>) or not; when it does, a fact \<open>C\<close> about the ring of entry \<open>i\<close>
  and the invariant of the other rings stay true, because no other thread changes them.
\<close>

definition here :: "bool \<Rightarrow> (nat \<Rightarrow> 'g \<Rightarrow> ring \<Rightarrow> bool) \<Rightarrow> 'g net_rule \<Rightarrow> platform \<Rightarrow> nat \<Rightarrow> bool \<Rightarrow> nat \<Rightarrow>
    ('g \<Rightarrow> ring \<Rightarrow> bool) \<Rightarrow> ('m::len word, 'g) gworld \<Rightarrow> bool" where
  "here q I N P t h i C u \<longleftrightarrow> shared_ok q I N P u \<and> (owner u = Some t) = h \<and>
     (q \<and> h \<longrightarrow> C (aux u) (ring_of (PipeTbl (mem u) ! i)) \<and>
        (\<forall>j < 5. j \<noteq> i \<longrightarrow> I j (aux u) (ring_of (PipeTbl (mem u) ! j))))"

abbreviation anywhere :: "bool \<Rightarrow> (nat \<Rightarrow> 'g \<Rightarrow> ring \<Rightarrow> bool) \<Rightarrow> 'g net_rule \<Rightarrow> platform \<Rightarrow> nat \<Rightarrow> bool \<Rightarrow>
    ('m::len word, 'g) gworld \<Rightarrow> bool" where
  "anywhere q I N P t h \<equiv> here q I N P t h 0 (I 0)"

lemma here_stable: "here q I N P t h i C u \<Longrightarrow> i < 5 \<Longrightarrow> other_steps q I N P t u v \<Longrightarrow> here q I N P t h i C v"
  by (auto simp: here_def other_steps_def same_rings_def)

lemma here_any: "here q I N P t h i (I i) u \<Longrightarrow> i < 5 \<Longrightarrow> anywhere q I N P t h u"
  by (cases "i = 0") (auto simp: here_def)

lemma any_here: "anywhere q I N P t h u \<Longrightarrow> i < 5 \<Longrightarrow> here q I N P t h i (I i) u"
  by (cases "i = 0") (auto simp: here_def)

lemma here_entry: "here q I N P t h i C u \<Longrightarrow> j < 5 \<Longrightarrow> pipe_wf P (PipeTbl (mem u) ! j)"
  by (simp add: here_def shared_ok_def tbl_wf_entry)

lemma here_len: "here q I N P t h i C u \<Longrightarrow> length (PipeTbl (mem u)) = 5"
  by (auto simp: here_def shared_ok_def dest: tbl_wf_lenD)

lemma here_net: "here q I N P t h i C u \<Longrightarrow> net_inv N (aux u) (net_of (mem u))"
  by (simp add: here_def shared_ok_def)

text \<open>
  A thread that neither reads nor puts on the way knows where it was in the stream, when it is the only
  reader, and the auxiliary value, when it is the only one that puts.
\<close>

definition same_place :: "'g net_rule \<Rightarrow> nat \<Rightarrow> ('m::len word, 'g) gworld \<Rightarrow> ('m word, 'g) gworld \<Rightarrow> bool" where
  "same_place N t u v \<longleftrightarrow> (readers N = {t} \<longrightarrow> rd_of (mem v) = rd_of (mem u)) \<and> (putters N = {t} \<longrightarrow> aux v = aux u)"

lemma same_place_refl [simp]: "same_place N t u u"
  by (simp add: same_place_def)

lemma same_place_trans: "same_place N t u v \<Longrightarrow> same_place N t v x \<Longrightarrow> same_place N t u x"
  by (simp add: same_place_def)

definition stay :: "'g net_rule \<Rightarrow> 'g net_rule" where
  "stay N = N\<lparr>no_read := True, no_put := True\<rparr>"

lemma stay_simps [simp]:
  "net_inv (stay N) = net_inv N" "readers (stay N) = readers N" "putters (stay N) = putters N" "no_read (stay N)" "no_put (stay N)"
  "entry_ok (stay N) = entry_ok N" "keyed (stay N) = (keyed N :: nat \<Rightarrow> 'm::len word pipe \<Rightarrow> bool)"
  "shared_ok q I (stay N) P = shared_ok q I N P" "other_steps q I (stay N) P = other_steps q I N P"
  "here q I (stay N) P = here q I N P"
  by (simp_all add: stay_def shared_ok_def other_steps_def here_def keyed_def fun_eq_iff)

lemma safe_stay:
  assumes "thread_safe q I (stay N) P waiter t Q p u" and "same_place N t s u"
  shows "thread_safe q I N P waiter t (\<lambda>r v. Q r v \<and> same_place N t s v) p u"
proof (rule safe_frame [where F = "same_place N t s" and G' = "own_step q I (stay N) P t", OF _ _ _ _ assms(2)])
  fix v x :: "('a word, 'b) gworld"
  show "own_step q I N P t v x" if "own_step q I (stay N) P t v x"
    using that by (auto simp: own_step_def)
  show "same_place N t s x" if "other_steps q I N P t v x" "same_place N t s v"
    using that by (simp add: other_steps_def same_place_def)
  show "same_place N t s x" if "own_step q I (stay N) P t v x" "same_place N t s v"
    using that by (simp add: own_step_def same_place_def)
qed (use assms(1) in simp)

text \<open>A thread that may put but does not read keeps what it knows of its place in the stream.\<close>

definition still :: "'g net_rule \<Rightarrow> 'g net_rule" where
  "still N = N\<lparr>no_read := True\<rparr>"

lemma still_simps [simp]:
  "net_inv (still N) = net_inv N" "readers (still N) = readers N" "putters (still N) = putters N" "no_read (still N)"
  "no_put (still N) = no_put N" "boundary (still N) = boundary N"
  "entry_ok (still N) = entry_ok N" "keyed (still N) = (keyed N :: nat \<Rightarrow> 'm::len word pipe \<Rightarrow> bool)"
  "shared_ok q I (still N) P = shared_ok q I N P" "other_steps q I (still N) P = other_steps q I N P"
  "here q I (still N) P = here q I N P"
  by (simp_all add: still_def shared_ok_def other_steps_def here_def keyed_def fun_eq_iff)

lemma safe_still:
  assumes "thread_safe q I (still N) P waiter t Q p u" and "readers N = {t} \<longrightarrow> F (rd_of (mem u))"
  shows "thread_safe q I N P waiter t (\<lambda>r v. Q r v \<and> (readers N = {t} \<longrightarrow> F (rd_of (mem v)))) p u"
proof (rule safe_frame [where F = "\<lambda>v. readers N = {t} \<longrightarrow> F (rd_of (mem v))" and G' = "own_step q I (still N) P t", OF _ _ _ _ assms(2)])
  fix v x :: "('a word, 'b) gworld"
  show "own_step q I N P t v x" if "own_step q I (still N) P t v x"
    using that by (auto simp: own_step_def)
  show "readers N = {t} \<longrightarrow> F (rd_of (mem x))" if "other_steps q I N P t v x" "readers N = {t} \<longrightarrow> F (rd_of (mem v))"
    using that by (simp add: other_steps_def)
  show "readers N = {t} \<longrightarrow> F (rd_of (mem x))" if "own_step q I (still N) P t v x" "readers N = {t} \<longrightarrow> F (rd_of (mem v))"
    using that by (simp add: own_step_def)
qed (use assms(1) in simp)

lemma safe_done: "i < 5 \<Longrightarrow> here q I N P t h i C u \<Longrightarrow> (\<And>v. here q I N P t h i C v \<Longrightarrow> Q r v) \<Longrightarrow>
    thread_safe q I N P waiter t Q (Done r) u"
  unfolding safe.simps using here_stable by blast

text \<open>A statement that keeps the auxiliary value, from any state the other threads can lead to.\<close>

lemma safe_plain_stmt:
  fixes u :: "('m::len word, 'g) gworld"
  assumes "here q I N P t h i C u" and "i < 5"
    and "\<And>c w g. here q I N P t h i C ((c, w), g) \<Longrightarrow> other_steps q I N P t u ((c, w), g) \<Longrightarrow>
      case f (c, w) of Inl e \<Rightarrow> e = Blocked \<and> may_wait waiter t (c, w)
      | Inr (a, s) \<Rightarrow> own_step q I N P t ((c, w), g) (s, g) \<and> (\<forall>v. other_steps q I N P t (s, g) v \<longrightarrow> Q a v)"
  shows "thread_safe q I N P waiter t Q (stmt f) u"
proof (rule sh.safe_stmt)
  fix v assume uv: "other_steps q I N P t u v"
  obtain c w g where v: "v = ((c, w), g)" by (cases v) auto
  have "here q I N P t h i C v" by (rule here_stable [OF assms(1,2) uv])
  then show "case f (fst v) of Inl e \<Rightarrow> e = Blocked \<and> may_wait waiter t (fst v)
      | Inr (a, s) \<Rightarrow> \<exists>g. own_step q I N P t v (s, g) \<and> (\<forall>x. other_steps q I N P t (s, g) x \<longrightarrow> Q a x)"
    using assms(3) [of c w g] uv by (fastforce simp: v split: sum.splits)
qed

lemma safe_get:
  fixes u :: "('m::len word, 'g) gworld"
  assumes "here q I N P t h i C u" and "i < 5"
    and f: "\<And>p g. pipe_wf P p \<Longrightarrow> (q \<longrightarrow> keyed N i p) \<Longrightarrow> (q \<and> h \<longrightarrow> C g (ring_of p)) \<Longrightarrow>
      \<exists>a. f p = Inr a \<and> A a \<and> (q \<and> h \<longrightarrow> D a g (ring_of p))"
  shows "thread_safe q I N P waiter t (\<lambda>a v. here q I N P t h i (D a) v \<and> A a) (entry_get i f) u"
  unfolding entry_get_def get_def
proof (rule safe_plain_stmt [OF assms(1,2)])
  fix c :: "'m word client" and w g assume u: "here q I N P t h i C ((c, w), g)"
  have wf: "pipe_wf P (PipeTbl c ! i)" "i < length (PipeTbl c)"
    using here_entry [OF u assms(2)] here_len [OF u] assms(2) by simp_all
  moreover have "q \<and> h \<longrightarrow> C g (ring_of (PipeTbl c ! i))"
    using u by (simp add: here_def)
  moreover have "q \<longrightarrow> keyed N i (PipeTbl c ! i)" using u assms(2) by (simp add: here_def shared_ok_def)
  ultimately obtain a where a: "f (PipeTbl c ! i) = Inr a" "A a"
    "q \<and> h \<longrightarrow> D a g (ring_of (PipeTbl c ! i))"
    using f by blast
  then have "here q I N P t h i (D a) ((c, w), g)" using u by (simp add: here_def)
  then have "\<forall>v. other_steps q I N P t ((c, w), g) v \<longrightarrow> here q I N P t h i (D a) v \<and> A a"
    using here_stable assms(2) a(2) by blast
  then show "case case (c, w) of (c, w) \<Rightarrow> bindR (bindR (arr_get (PipeTbl c) i) f) (\<lambda>a. Inr (a, c, w)) of
      Inl f \<Rightarrow> f = Blocked \<and> may_wait waiter t (c, w)
    | Inr (a, s) \<Rightarrow> own_step q I N P t ((c, w), g) (s, g) \<and>
        (\<forall>v. other_steps q I N P t (s, g) v \<longrightarrow> here q I N P t h i (D a) v \<and> A a)"
    using a(1) wf by (simp add: own_step_def)
qed

lemma shared_ok_set:
  assumes "shared_ok q I N P ((c, w), g)" and "pipe_wf P p" and "q \<longrightarrow> ring_ok p \<and> keyed N i p"
    and "q \<and> w = None \<longrightarrow> ring_of p = ring_of (PipeTbl c ! i)"
  shows "shared_ok q I N P ((with_entry i p c, w), g)"
proof -
  have "q \<longrightarrow> (\<forall>j < 5. ring_ok ((PipeTbl c)[i := p] ! j) \<and> keyed N j ((PipeTbl c)[i := p] ! j))"
    "q \<and> w = None \<longrightarrow> (\<forall>j < 5. I j g (ring_of ((PipeTbl c)[i := p] ! j)))"
    using assms by (cases "i < length (PipeTbl c)"; auto simp: shared_ok_def nth_list_update list_update_beyond)+
  then show ?thesis
    using assms tbl_wf_update [of P "PipeTbl c" p i] by (simp add: shared_ok_def)
qed

lemma safe_set:
  fixes u :: "('m::len word, 'g) gworld"
  assumes "here q I N P t h i C u" and "i < 5"
    and f: "\<And>p g. pipe_wf P p \<Longrightarrow> (q \<and> h \<longrightarrow> C g (ring_of p)) \<Longrightarrow>
      \<exists>p'. f p = Inr p' \<and> pipe_wf P p' \<and> (q \<longrightarrow> (keyed N i p \<longrightarrow> keyed N i p') \<and> (if h then (ring_ok p \<longrightarrow> ring_ok p' \<and>
        D g (ring_of p')) else ring_of p' = ring_of p))"
  shows "thread_safe q I N P waiter t (\<lambda>_. here q I N P t h i D) (entry_set i f) u"
  unfolding entry_set_def modify_def
proof (rule safe_plain_stmt [OF assms(1,2)])
  fix c :: "'m word client" and w g assume u: "here q I N P t h i C ((c, w), g)"
  have wf: "pipe_wf P (PipeTbl c ! i)" "i < length (PipeTbl c)"
    using here_entry [OF u assms(2)] here_len [OF u] assms(2) by simp_all
  moreover have "q \<and> h \<longrightarrow> C g (ring_of (PipeTbl c ! i))"
    using u by (simp add: here_def)
  ultimately obtain p' where p': "f (PipeTbl c ! i) = Inr p'" "pipe_wf P p'"
    "q \<longrightarrow> (keyed N i (PipeTbl c ! i) \<longrightarrow> keyed N i p') \<and> (if h then (ring_ok (PipeTbl c ! i) \<longrightarrow> ring_ok p' \<and> D g (ring_of p'))
      else ring_of p' = ring_of (PipeTbl c ! i))"
    using f by blast
  have ring: "q \<longrightarrow> ring_ok (PipeTbl c ! i) \<and> keyed N i (PipeTbl c ! i)"
    using u assms(2) by (simp add: here_def shared_ok_def)
  then have ring': "q \<longrightarrow> ring_ok p' \<and> keyed N i p'"
    using p'(3) ring_of_ok by (auto split: if_splits)
  have "shared_ok q I N P ((with_entry i p' c, w), g)"
    using u p'(2,3) ring' by (intro shared_ok_set) (auto simp: here_def)
  then have v: "here q I N P t h i D ((with_entry i p' c, w), g)"
    using u p'(3) ring wf(2) by (auto simp: here_def)
  then have "\<forall>x. other_steps q I N P t ((with_entry i p' c, w), g) x \<longrightarrow> here q I N P t h i D x"
    using here_stable assms(2) by blast
  moreover have "own_step q I N P t ((c, w), g) ((with_entry i p' c, w), g)"
  proof (cases h)
    case True
    then show ?thesis using u v by (auto simp: own_step_def here_def)
  next
    case False
    then have "q \<longrightarrow> same_rings ((c, w), g) ((with_entry i p' c, w), g)"
      using p'(3) wf(2) by (auto simp: same_rings_def nth_list_update)
    then show ?thesis using u v False by (auto simp: own_step_def here_def)
  qed
  ultimately show "case case (c, w) of (c, w) \<Rightarrow>
        bindR (bindR (arr_get (PipeTbl c) i) (\<lambda>p. bindR (f p) (\<lambda>q. Inr (with_entry i q c)))) (\<lambda>c'. Inr ((), c', w)) of
      Inl f \<Rightarrow> f = Blocked \<and> may_wait waiter t (c, w)
    | Inr (a, s) \<Rightarrow> own_step q I N P t ((c, w), g) (s, g) \<and>
        (\<forall>x. other_steps q I N P t (s, g) x \<longrightarrow> here q I N P t h i D x)"
    using p'(1) wf(2) by simp
qed

text \<open>The statement that puts: with the mutex in its hands a thread that may put changes the auxiliary value.\<close>

lemma safe_put:
  fixes u :: "('m::len word, 'g) gworld"
  assumes u: "here q I N P t True i C u" and i: "i < 5" and right: "q \<Longrightarrow> t \<in> putters N \<and> \<not> no_put N"
    and f: "\<And>p. pipe_wf P p \<Longrightarrow> \<exists>p'. f p = Inr p' \<and> pipe_wf P p' \<and> key_of p' = key_of p"
    and put: "\<And>p p' c w g. q \<Longrightarrow> same_place N t u ((c, w), g) \<Longrightarrow> C g (ring_of p) \<Longrightarrow> pipe_wf P p \<Longrightarrow> ring_ok p \<Longrightarrow> f p = Inr p' \<Longrightarrow>
      net_inv N g (net_of c) \<Longrightarrow> \<exists>g'. ring_ok p' \<and> D g' (ring_of p') \<and> net_inv N g' (net_of c) \<and> (\<forall>j x. I j g x \<longrightarrow> I j g' x)"
  shows "thread_safe q I N P waiter t (\<lambda>_. here q I N P t True i D) (entry_set i f) u"
  unfolding entry_set_def modify_def
proof (rule sh.safe_stmt)
  fix v assume uv: "other_steps q I N P t u v"
  obtain c w g where v: "v = ((c, w), g)" by (cases v) auto
  have h: "here q I N P t True i C ((c, w), g)" using here_stable [OF u i uv] v by simp
  have wf: "pipe_wf P (PipeTbl c ! i)" "i < length (PipeTbl c)"
    using here_entry [OF h i] here_len [OF h] i by simp_all
  obtain p' where p': "f (PipeTbl c ! i) = Inr p'" "pipe_wf P p'" and key: "key_of p' = key_of (PipeTbl c ! i)"
    using f [OF wf(1)] by blast
  have place: "same_place N t u ((c, w), g)" using uv by (simp add: v other_steps_def same_place_def)
  obtain g' where g': "q \<longrightarrow> ring_ok p' \<and> D g' (ring_of p') \<and> (\<forall>j x. I j g x \<longrightarrow> I j g' x)" "net_inv N g' (net_of c)"
    "g' = g \<or> t \<in> putters N \<and> \<not> no_put N"
  proof (cases q)
    case True
    then have "C g (ring_of (PipeTbl c ! i))" "ring_ok (PipeTbl c ! i)" "net_inv N g (net_of c)"
      using h i by (simp_all add: here_def shared_ok_def)
    from put [OF True place this(1) wf(1) this(2) p'(1) this(3)] show ?thesis using that right [OF True] by blast
  next
    case False
    then show ?thesis using that [of g] here_net [OF h] by simp
  qed
  let ?x = "((with_entry i p' c, w), g')"
  have own: "w = Some t" using h by (simp add: here_def)
  have len: "tbl_wf P ((PipeTbl c)[i := p'])"
    using h p'(2) tbl_wf_update [of P "PipeTbl c" p' i] by (simp add: here_def shared_ok_def)
  have "q \<longrightarrow> (\<forall>j < 5. ring_ok ((PipeTbl c)[i := p'] ! j) \<and> keyed N j ((PipeTbl c)[i := p'] ! j))"
    using h g'(1) wf(2) key by (auto simp: here_def shared_ok_def nth_list_update keyed_def)
  then have ok: "shared_ok q I N P ?x"
    using h g'(2) len own by (simp add: here_def shared_ok_def)
  then have "here q I N P t True i D ?x"
    using h g'(1) wf(2) own by (auto simp: here_def nth_list_update simp del: split_paired_All)
  then have "\<forall>y. other_steps q I N P t ?x y \<longrightarrow> here q I N P t True i D y"
    using here_stable i by blast
  moreover have "own_step q I N P t v ?x"
    using ok own g'(3) by (auto simp: own_step_def v)
  ultimately show "case case fst v of (c, w) \<Rightarrow>
        bindR (bindR (arr_get (PipeTbl c) i) (\<lambda>p. bindR (f p) (\<lambda>q. Inr (with_entry i q c)))) (\<lambda>c'. Inr ((), c', w)) of
      Inl f \<Rightarrow> f = Blocked \<and> may_wait waiter t (fst v)
    | Inr (a, s) \<Rightarrow> \<exists>g. own_step q I N P t v (s, g) \<and>
        (\<forall>x. other_steps q I N P t (s, g) x \<longrightarrow> here q I N P t True i D x)"
    using p'(1) wf(2) by (auto simp: v)
qed

text \<open>
  A statement outside the table: it may write to the output, signal, or use the connection as the
  interface allows. It waits only where thread \<open>t\<close> does not hold the mutex. A thread that is the only reader knows
  afterwards where the connection stands.
\<close>

definition quiet :: "'g net_rule \<Rightarrow> nat \<Rightarrow> 'm::len word client \<Rightarrow> 'm word client \<Rightarrow> bool" where
  "quiet N t c c' \<longleftrightarrow> PipeTbl c' = PipeTbl c \<and> (Sync c' = Sync c \<or> Sync c' = Sync c @ [Cond_signal]) \<and>
     (\<forall>g. net_inv N g (net_of c) \<longrightarrow> net_inv N g (net_of c')) \<and> (t \<notin> readers N \<or> no_read N \<longrightarrow> rd_of c' = rd_of c)"

lemma safe_act:
  fixes u :: "('m::len word, 'g) gworld"
  assumes "here q I N P t h i C u" and i: "i < 5"
    and f: "\<And>c g. net_inv N g (net_of c) \<Longrightarrow> (readers N = {t} \<Longrightarrow> rd_of c = rd_of (mem u)) \<Longrightarrow>
      (case f c of Inl e \<Rightarrow> e = Blocked \<and> \<not> h \<and> waiter t c | Inr (a, c') \<Rightarrow> quiet N t c c' \<and> A a (rd_of c'))"
  shows "thread_safe q I N P waiter t
    (\<lambda>a v. here q I N P t h i C v \<and> (\<exists>x. A a x \<and> (readers N = {t} \<longrightarrow> rd_of (mem v) = x)) \<and>
      (putters N = {t} \<longrightarrow> aux v = aux u)) (act f) u"
  unfolding act_def
proof (rule safe_plain_stmt [OF assms(1) i])
  fix c :: "'m word client" and w g assume h: "here q I N P t h i C ((c, w), g)" and uv: "other_steps q I N P t u ((c, w), g)"
  have net: "net_inv N g (net_of c)" using here_net [OF h] by simp
  have same: "readers N = {t} \<Longrightarrow> rd_of c = rd_of (mem u)" "putters N = {t} \<Longrightarrow> g = aux u"
    using uv by (simp_all add: other_steps_def)
  note fc = f [OF net same(1)]
  show "case case (c, w) of (c, w) \<Rightarrow> bindR (f c) (\<lambda>(a, c'). Inr (a, c', w)) of
      Inl e \<Rightarrow> e = Blocked \<and> may_wait waiter t (c, w)
    | Inr (a, s) \<Rightarrow> own_step q I N P t ((c, w), g) (s, g) \<and> (\<forall>z. other_steps q I N P t (s, g) z \<longrightarrow>
        here q I N P t h i C z \<and> (\<exists>x. A a x \<and> (readers N = {t} \<longrightarrow> rd_of (mem z) = x)) \<and>
        (putters N = {t} \<longrightarrow> aux z = aux u))"
  proof (cases "f c")
    case (Inl e)
    then show ?thesis using fc h by (simp add: may_wait_def here_def)
  next
    case (Inr r)
    obtain a c' where r: "f c = Inr (a, c')" using Inr by (cases r) simp
    have qt: "quiet N t c c'" and A: "A a (rd_of c')" using fc r by simp_all
    have ok: "shared_ok q I N P ((c, w), g) \<longrightarrow> shared_ok q I N P ((c', w), g)"
      using qt by (auto simp: shared_ok_def quiet_def mutex_run_append)
    then have v: "here q I N P t h i C ((c', w), g)" using h qt by (simp add: here_def quiet_def)
    have "own_step q I N P t ((c, w), g) ((c', w), g)"
      using ok qt by (simp add: own_step_def same_rings_def quiet_def)
    moreover have "here q I N P t h i C z \<and> (\<exists>x. A a x \<and> (readers N = {t} \<longrightarrow> rd_of (mem z) = x)) \<and>
        (putters N = {t} \<longrightarrow> aux z = aux u)"
      if "other_steps q I N P t ((c', w), g) z" for z
      using here_stable [OF v i that] A that same(2) by (auto simp: other_steps_def)
    ultimately show ?thesis using r by (simp del: split_paired_All)
  qed
qed

lemma safe_quiet:
  fixes u :: "('m::len word, 'g) gworld"
  assumes "here q I N P t h i C u" and i: "i < 5" and f: "\<And>c g. net_inv N g (net_of c) \<Longrightarrow> \<exists>c'. f c = Inr c' \<and> quiet N t c c'"
  shows "thread_safe q I N P waiter t (\<lambda>_. here q I N P t h i C) (modify f) u"
proof -
  have "thread_safe q I N P waiter t
      (\<lambda>a v. here q I N P t h i C v \<and> (\<exists>x. True \<and> (readers N = {t} \<longrightarrow> rd_of (mem v) = x)) \<and>
        (putters N = {t} \<longrightarrow> aux v = aux u)) (modify f) u"
    unfolding step_act by (rule safe_act [OF assms(1) i]) (use f in \<open>fastforce split: sum.splits\<close>)
  then show ?thesis by (rule sh.safe_post) simp
qed

lemma quiet_output [simp]:
  "quiet N t c (log_message fmt args c)" "quiet N t c (printf fmt args c)" "quiet N t c (sync Cond_signal c)" "quiet N t c c"
  by (simp_all add: quiet_def net_of_def rd_of_def)

lemma safe_wake:
  fixes u :: "('m::len word, 'g) gworld"
  assumes "anywhere q I N P t False u" and i: "i < 5"
    and ready: "\<And>c g. q \<Longrightarrow> ready c \<Longrightarrow> I i g (ring_of (PipeTbl c ! i)) \<Longrightarrow> C g (ring_of (PipeTbl c ! i))"
    and wait: "\<And>c. \<not> ready c \<Longrightarrow> waiter t c"
  shows "thread_safe q I N P waiter t (\<lambda>_. here q I N P t True i C) (cond_wake t ready) u"
  unfolding cond_wake_def
proof (rule safe_plain_stmt [OF assms(1)])
  fix c :: "'m word client" and w g assume h: "anywhere q I N P t False ((c, w), g)"
  show "case case (c, w) of (c, w) \<Rightarrow> if w = None \<and> ready c then Inr ((), sync Mutex_lock c, Some t) else Inl Blocked of
      Inl f \<Rightarrow> f = Blocked \<and> may_wait waiter t (c, w)
    | Inr (a, s) \<Rightarrow> own_step q I N P t ((c, w), g) (s, g) \<and>
        (\<forall>x. other_steps q I N P t (s, g) x \<longrightarrow> here q I N P t True i C x)"
  proof (cases "w = None \<and> ready c")
    case True
    let ?v = "((sync Mutex_lock c, Some t), g)"
    have ok: "shared_ok q I N P ?v" using h True by (simp add: here_def shared_ok_def mutex_run_append)
    moreover have "q \<longrightarrow> (\<forall>j < 5. I j g (ring_of (PipeTbl c ! j)))"
      using h True by (simp add: here_def shared_ok_def)
    ultimately have "here q I N P t True i C ?v" using ready True i by (simp add: here_def)
    then have "\<forall>x. other_steps q I N P t ?v x \<longrightarrow> here q I N P t True i C x" using here_stable i by blast
    moreover have "own_step q I N P t ((c, w), g) ?v"
      using ok True by (simp add: own_step_def same_rings_def)
    ultimately show ?thesis using True by simp
  next
    case False
    then show ?thesis using h wait [of c] i by (auto simp: may_wait_def here_def)
  qed
qed simp

lemma mutex_lock_wake: "mutex_lock t = cond_wake t (\<lambda>_. True)"
  by (simp add: mutex_lock_def cond_wake_def)

lemma safe_lock:
  "anywhere q I N P t False u \<Longrightarrow> thread_safe q I N P waiter t (\<lambda>_. anywhere q I N P t True) (mutex_lock t) u"
  unfolding mutex_lock_wake by (rule safe_wake) simp_all

lemma safe_release:
  fixes u :: "('m::len word, 'g) gworld"
  assumes "here q I N P t True i C u" and i: "i < 5" and CI: "\<And>g x. C g x \<Longrightarrow> I i g x" and "e = Mutex_unlock \<or> e = Cond_wait"
  shows "thread_safe q I N P waiter t (\<lambda>_. anywhere q I N P t False) (stmt (\<lambda>(c, w). Inr ((), (sync e c, None)))) u"
proof (rule safe_plain_stmt [OF assms(1) i])
  fix c :: "'m word client" and w g assume h: "here q I N P t True i C ((c, w), g)"
  let ?v = "((sync e c, None), g)"
  have "q \<longrightarrow> (\<forall>j < 5. I j g (ring_of (PipeTbl c ! j)))"
    using h CI [of g "ring_of (PipeTbl c ! i)"] by (auto simp: here_def)
  then have ok: "shared_ok q I N P ?v"
    using h assms(4) by (auto simp: here_def shared_ok_def mutex_run_append)
  then have "anywhere q I N P t False ?v" by (simp add: here_def)
  then have "\<forall>x. other_steps q I N P t ?v x \<longrightarrow> anywhere q I N P t False x" using here_stable by fastforce
  moreover have "own_step q I N P t ((c, w), g) ?v" using ok h by (simp add: own_step_def here_def)
  ultimately show "case case (c, w) of (c, w) \<Rightarrow> Inr ((), sync e c, None) of
      Inl f \<Rightarrow> f = Blocked \<and> may_wait waiter t (c, w)
    | Inr (a, s) \<Rightarrow> own_step q I N P t ((c, w), g) (s, g) \<and>
        (\<forall>x. other_steps q I N P t (s, g) x \<longrightarrow> anywhere q I N P t False x)"
    by simp
qed

lemma safe_unlock:
  "here q I N P t True i C u \<Longrightarrow> i < 5 \<Longrightarrow> (\<And>g x. C g x \<Longrightarrow> I i g x) \<Longrightarrow>
   thread_safe q I N P waiter t (\<lambda>_. anywhere q I N P t False) mutex_unlock u"
  unfolding mutex_unlock_def by (rule safe_release [where C = C]) simp_all

lemma safe_cond_release:
  "here q I N P t True i C u \<Longrightarrow> i < 5 \<Longrightarrow> (\<And>g x. C g x \<Longrightarrow> I i g x) \<Longrightarrow>
   thread_safe q I N P waiter t (\<lambda>_. anywhere q I N P t False) cond_release u"
  unfolding cond_release_def by (rule safe_release [where C = C]) simp_all

end
