(* ===== verification/SBN_Concurrent.thy ===== *)
theory SBN_Concurrent
  imports SBN_Interleave
begin

text \<open>
  The calls of \<open>SBN_Threads\<close> keep the interface of \<open>SBN_Interleave\<close>, wherever they are cut. What they do
  to a ring is stated once, in the locale \<open>ring_invariant\<close>: any invariant that a put and a get keep is one
  of the interleaved calls.
\<close>

section \<open>Programs that keep the interface\<close>

text \<open>\<open>keeps q I N P waiter t h p\<close>: thread \<open>t\<close> may run \<open>p\<close> anywhere, with the mutex in its hands or not (\<open>h\<close>).\<close>

definition keeps :: "bool \<Rightarrow> (nat \<Rightarrow> 'g \<Rightarrow> ring \<Rightarrow> bool) \<Rightarrow> 'g net_rule \<Rightarrow> platform \<Rightarrow> (nat \<Rightarrow> 'm::len word client \<Rightarrow> bool) \<Rightarrow> nat \<Rightarrow> bool \<Rightarrow>
    ('m word world, 'r) prog \<Rightarrow> bool" where
  "keeps q I N P waiter t h p \<longleftrightarrow>
     (\<forall>s. anywhere q I N P t h s \<longrightarrow> thread_safe q I N P waiter t (\<lambda>_. anywhere q I N P t h) p s)"

named_theorems sbn_keeps

lemma keepsI:
  assumes "\<And>s. anywhere q I N P t h s \<Longrightarrow> thread_safe q I N P waiter t (\<lambda>_. anywhere q I N P t h) p s"
  shows "keeps q I N P waiter t h p"
  unfolding keeps_def by (rule allI, rule impI, rule assms)

lemma keepsD: "keeps q I N P waiter t h p \<Longrightarrow> anywhere q I N P t h s \<Longrightarrow>
    thread_safe q I N P waiter t (\<lambda>_. anywhere q I N P t h) p s"
  unfolding keeps_def by (erule allE, erule mp)

lemma keeps_Done [sbn_keeps]: "keeps q I N P waiter t h (Done r)"
  by (rule keepsI, rule safe_done [of 0]) simp_all

lemma keeps_bind [sbn_keeps]:
  "keeps q I N P waiter t h p \<Longrightarrow> (\<And>r. keeps q I N P waiter t h (f r)) \<Longrightarrow> keeps q I N P waiter t h (bindP p f)"
  by (rule keepsI, rule sh.safe_bind) (blast dest: keepsD)+

lemma keeps_if [sbn_keeps]:
  "(b \<Longrightarrow> keeps q I N P waiter t h p1) \<Longrightarrow> (\<not> b \<Longrightarrow> keeps q I N P waiter t h p2) \<Longrightarrow>
   keeps q I N P waiter t h (if b then p1 else p2)"
  by simp

lemma keeps_sequence [sbn_keeps]:
  "list_all (keeps q I N P waiter t h) ps \<Longrightarrow> keeps q I N P waiter t h (sequence ps)"
  by (induction ps) (auto intro: sbn_keeps)

lemma keeps_search [sbn_keeps]:
  fixes I :: "nat \<Rightarrow> 'g \<Rightarrow> ring \<Rightarrow> bool" and waiter :: "nat \<Rightarrow> 'm::len word client \<Rightarrow> bool"
  assumes "\<And>j. j < len \<Longrightarrow> keeps q I N P waiter t h (test j)"
    and "\<And>j. j < len \<Longrightarrow> keeps q I N P waiter t h (hit j)" and "keeps q I N P waiter t h miss"
  shows "keeps q I N P waiter t h (search test hit miss len len)"
proof (rule keepsI)
  fix s :: "('m word, 'g) gworld" assume "anywhere q I N P t h s"
  then show "thread_safe q I N P waiter t (\<lambda>_. anywhere q I N P t h) (search test hit miss len len) s"
    by (intro sh.safe_search [where J = "anywhere q I N P t h"]) (use assms in \<open>auto dest: keepsD\<close>)
qed

lemma keeps_get [sbn_keeps]:
  fixes I :: "nat \<Rightarrow> 'g \<Rightarrow> ring \<Rightarrow> bool" and waiter :: "nat \<Rightarrow> 'm::len word client \<Rightarrow> bool"
  assumes "i < 5" and "\<And>p. pipe_wf P p \<Longrightarrow> \<exists>a. f p = Inr a"
  shows "keeps q I N P waiter t h (entry_get i f)"
proof (rule keepsI)
  fix s :: "('m word, 'g) gworld" assume s: "anywhere q I N P t h s"
  have "thread_safe q I N P waiter t (\<lambda>a s. here q I N P t h i (I i) s \<and> True) (entry_get i f) s"
    by (rule safe_get [OF any_here [OF s assms(1)] assms(1)]) (use assms(2) in simp)
  then show "thread_safe q I N P waiter t (\<lambda>_. anywhere q I N P t h) (entry_get i f) s"
    by (rule sh.safe_post) (auto intro: here_any assms(1))
qed

lemma keeps_set [sbn_keeps]:
  fixes I :: "nat \<Rightarrow> 'g \<Rightarrow> ring \<Rightarrow> bool" and waiter :: "nat \<Rightarrow> 'm::len word client \<Rightarrow> bool"
  assumes "i < 5" and f: "\<And>p. pipe_wf P p \<Longrightarrow> \<exists>p'. f p = Inr p' \<and> pipe_wf P p' \<and>
    (q \<longrightarrow> ring_of p' = ring_of p \<and> (keyed N i p \<longrightarrow> keyed N i p'))"
  shows "keeps q I N P waiter t h (entry_set i f)"
proof (rule keepsI)
  fix s :: "('m word, 'g) gworld" assume s: "anywhere q I N P t h s"
  have "thread_safe q I N P waiter t (\<lambda>_. here q I N P t h i (I i)) (entry_set i f) s"
  proof (rule safe_set [OF any_here [OF s assms(1)] assms(1)])
    fix p :: "'m word pipe" and g assume "pipe_wf P p" and I: "q \<and> h \<longrightarrow> I i g (ring_of p)"
    then obtain p' where "f p = Inr p'" "pipe_wf P p'" "q \<longrightarrow> ring_of p' = ring_of p \<and> (keyed N i p \<longrightarrow> keyed N i p')" using f by blast
    then show "\<exists>p'. f p = Inr p' \<and> pipe_wf P p' \<and>
        (q \<longrightarrow> (keyed N i p \<longrightarrow> keyed N i p') \<and> (if h then ring_ok p \<longrightarrow> ring_ok p' \<and> I i g (ring_of p') else ring_of p' = ring_of p))"
      using I ring_of_ok [of p' p] by auto
  qed
  then show "thread_safe q I N P waiter t (\<lambda>_. anywhere q I N P t h) (entry_set i f) s"
    by (rule sh.safe_post) (rule here_any [OF _ assms(1)])
qed

lemma keeps_quiet [sbn_keeps]:
  "(\<And>c g. net_inv N g (net_of c) \<Longrightarrow> \<exists>c'. f c = Inr c' \<and> quiet N t c c') \<Longrightarrow> keeps q I N P waiter t h (modify f)"
  by (rule keepsI, rule safe_quiet) simp_all

section \<open>Calls outside the mutex\<close>

lemma wf_fields [simp]:
  "pipe_wf P (p\<lparr>InUse := a\<rparr>) = pipe_wf P p" "pipe_wf P (p\<lparr>SysQueueId := b\<rparr>) = pipe_wf P p"
  "pipe_wf P (p\<lparr>PipeId := c\<rparr>) = pipe_wf P p" "pipe_wf P (p\<lparr>NumberOfMessages := d\<rparr>) = pipe_wf P p"
  "pipe_wf P (p\<lparr>ReadMessage := d\<rparr>) = pipe_wf P p" "pipe_wf P (p\<lparr>SendErrors := e\<rparr>) = pipe_wf P p"
  by (simp_all add: pipe_wf_def)

lemma wf_name: "pipe_wf P p \<Longrightarrow> length bs = OS_MAX_API_NAME P \<Longrightarrow>
    \<exists>p'. bindR (mem_write (PipeName p) 0 bs) (\<lambda>nm. Inr (p\<lparr>PipeName := nm\<rparr>)) = Inr p' \<and>
      pipe_wf P p' \<and> ring_of p' = ring_of p \<and> key_of p' = key_of p"
  by (simp add: pipe_wf_def ring_of_def)

lemma wf_slot: "pipe_wf P p \<Longrightarrow> j < 4 \<Longrightarrow>
    \<exists>p'. bindR (arr_set (SubscribedMsgIds p) j m) (\<lambda>ms. Inr (p\<lparr>SubscribedMsgIds := ms\<rparr>)) = Inr p' \<and>
      pipe_wf P p' \<and> ring_of p' = ring_of p \<and> key_of p' = (PipeId p, (map unat (SubscribedMsgIds p))[j := unat m])"
  by (simp add: pipe_wf_def ring_of_def key_of_def map_update)

lemma ring_of_fields [simp]:
  "ring_of (p\<lparr>InUse := a\<rparr>) = ring_of p" "ring_of (p\<lparr>PipeId := c\<rparr>) = ring_of p"
  "ring_of (p\<lparr>SendErrors := e\<rparr>) = ring_of p" "ring_of (p\<lparr>SysQueueId := b\<rparr>) = ring_of p"
  by (simp_all add: ring_of_def)

lemma key_of_id [simp]: "key_of (p\<lparr>PipeId := k\<rparr>) = (k, snd (key_of p))"
  by (simp add: key_of_def)

lemma keeps_CreatePipe [sbn_keeps]:
  fixes waiter :: "nat \<Rightarrow> 'm::len word client \<Rightarrow> bool"
  assumes "name \<noteq> None" and claim: "\<And>i k ms. q \<Longrightarrow> entry_ok N i (k, ms) \<Longrightarrow> entry_ok N i (of_nat i, ms)"
  shows "keeps q I N P waiter t False (CreatePipe_prog P ptr depth name)"
proof -
  have keyed: "keyed N i p \<longrightarrow> keyed N i (p\<lparr>PipeId := of_nat i\<rparr>)" if q for i and p :: "'m word pipe"
    using claim [OF that, of i "fst (key_of p)" "snd (key_of p)"] by (simp add: keyed_def)
  have named: "\<exists>p'. bindR (mem_write (PipeName p) 0 (strncpy_bytes nm (OS_MAX_API_NAME P))) (\<lambda>nm'. Inr (p\<lparr>PipeName := nm'\<rparr>)) = Inr p' \<and>
      pipe_wf P p' \<and> (q \<longrightarrow> ring_of p' = ring_of p \<and> (keyed N i p \<longrightarrow> keyed N i p'))"
    if "pipe_wf P p" for i nm and p :: "'m word pipe"
    using wf_name [OF that length_strncpy_bytes, of nm] by (auto simp: keyed_def)
  show ?thesis
    unfolding CreatePipe_prog_def create_scan_def create_entry_def
    using assms(1) keyed named by (auto intro!: sbn_keeps)
qed

lemma keeps_invalidate [sbn_keeps]:
  assumes "i < 5" and "\<not> q"
  shows "keeps q I N P waiter t h (invalidate_prog P i)"
  unfolding invalidate_prog_def
  using assms wf_name [of P _ "replicate (OS_MAX_API_NAME P) 0"] wf_slot
  by (fastforce simp: list_all_iff intro!: sbn_keeps)

lemma keeps_DeletePipe [sbn_keeps]: "\<not> q \<Longrightarrow> keeps q I N P waiter t h (DeletePipe_prog P pid)"
  unfolding DeletePipe_prog_def delete_entry_def by (auto intro!: sbn_keeps)

text \<open>The two lookups, with the range of their result.\<close>

lemma safe_lookup:
  fixes I :: "nat \<Rightarrow> 'g \<Rightarrow> ring \<Rightarrow> bool" and waiter :: "nat \<Rightarrow> 'm::len word client \<Rightarrow> bool"
  assumes s: "anywhere q I N P t h s"
    and test: "\<And>j. j < len \<Longrightarrow> keeps q I N P waiter t h (test j)"
    and A: "\<And>j. j < len \<Longrightarrow> A (f j)" "A r"
  shows "thread_safe q I N P waiter t (\<lambda>r u. anywhere q I N P t h u \<and> A r)
    (search test (\<lambda>j. Done (f j)) (Done r) len len) s"
proof -
  have ret: "thread_safe q I N P waiter t (\<lambda>r u. anywhere q I N P t h u \<and> A r) (Done x) u"
    if "anywhere q I N P t h u" "A x" for x and u :: "('m word, 'g) gworld"
    by (rule safe_done [of 0, OF _ that(1)]) (use that(2) in simp_all)
  show ?thesis
    by (rule sh.safe_search [where J = "anywhere q I N P t h", OF keepsD [OF test] ret ret le_refl s])
      (use A in simp_all)
qed

text \<open>Pipe id \<open>pid\<close> may stand in entry \<open>i\<close>.\<close>

definition may_name :: "'g net_rule \<Rightarrow> u8 \<Rightarrow> nat \<Rightarrow> bool" where
  "may_name N pid i \<longleftrightarrow> i = unat pid \<or> (\<exists>ms. entry_ok N i (pid, ms))"

lemma safe_GetPipeIdx:
  fixes I :: "nat \<Rightarrow> 'g \<Rightarrow> ring \<Rightarrow> bool" and waiter :: "nat \<Rightarrow> 'm::len word client \<Rightarrow> bool"
  assumes s: "anywhere q I N P t h s" and pid: "unat pid < 5"
  shows "thread_safe q I N P waiter t
    (\<lambda>r u. anywhere q I N P t h u \<and> (r = 0xFF \<or> unat r < 5 \<and> (q \<longrightarrow> may_name N pid (unat r)))) (GetPipeIdx_prog pid) s"
  unfolding GetPipeIdx_prog_def
proof (rule sh.safe_bind [OF keepsD [OF keeps_get s]])
  let ?Q = "\<lambda>r u. anywhere q I N P t h u \<and> (r = 0xFF \<or> unat r < 5 \<and> (q \<longrightarrow> may_name N pid (unat r)))"
  have ret: "thread_safe q I N P waiter t ?Q (Done r) u"
    if "anywhere q I N P t h u" "r = 0xFF \<or> unat r < 5 \<and> (q \<longrightarrow> may_name N pid (unat r))" for r :: u8 and u :: "('m word, 'g) gworld"
    by (rule safe_done [of 0, OF _ that(1)]) (use that(2) in simp_all)
  fix hit and u :: "('m word, 'g) gworld" assume u: "anywhere q I N P t h u"
  have "thread_safe q I N P waiter t ?Q
      (search (\<lambda>i. entry_get i (\<lambda>p. Inr (PipeId p = pid \<and> InUse p = CFE_SBN_CLIENT_IN_USE)))
        (\<lambda>i. Done (of_nat i)) (Done CFE_SBN_CLIENT_INVALID_PIPE)
        CFE_PLATFORM_SBN_CLIENT_MAX_PIPES CFE_PLATFORM_SBN_CLIENT_MAX_PIPES) u"
  proof (rule sh.safe_search_hit [where J = "anywhere q I N P t h" and H = "\<lambda>i. q \<longrightarrow> may_name N pid i", OF _ ret ret le_refl u])
    fix j and v :: "('m word, 'g) gworld" assume j: "j < CFE_PLATFORM_SBN_CLIENT_MAX_PIPES" and v: "anywhere q I N P t h v"
    have "thread_safe q I N P waiter t
        (\<lambda>b x. here q I N P t h j (I j) x \<and> (b \<longrightarrow> q \<longrightarrow> may_name N pid j))
        (entry_get j (\<lambda>p. Inr (PipeId p = pid \<and> InUse p = CFE_SBN_CLIENT_IN_USE))) v"
      by (rule safe_get [OF any_here [OF v]]) (use j in \<open>auto simp: keyed_def key_of_def may_name_def\<close>)
    then show "thread_safe q I N P waiter t (\<lambda>b u. anywhere q I N P t h u \<and> (b \<longrightarrow> q \<longrightarrow> may_name N pid j))
        (entry_get j (\<lambda>p. Inr (PipeId p = pid \<and> InUse p = CFE_SBN_CLIENT_IN_USE))) v"
      by (rule sh.safe_post) (use j here_any in auto)
  qed (auto simp: small_index_u8)
  moreover have "thread_safe q I N P waiter t ?Q (Done pid) u" by (rule ret [OF u]) (use pid in \<open>simp add: may_name_def\<close>)
  ultimately show "thread_safe q I N P waiter t ?Q
      (if hit then Done pid else
        search (\<lambda>i. entry_get i (\<lambda>p. Inr (PipeId p = pid \<and> InUse p = CFE_SBN_CLIENT_IN_USE)))
        (\<lambda>i. Done (of_nat i)) (Done CFE_SBN_CLIENT_INVALID_PIPE)
        CFE_PLATFORM_SBN_CLIENT_MAX_PIPES CFE_PLATFORM_SBN_CLIENT_MAX_PIPES) u"
    by simp
qed (use pid in simp_all)

lemma safe_SubscribeIndex:
  assumes s: "anywhere q I N P t h s" and "unat pid < 5"
  shows "thread_safe q I N P waiter t (\<lambda>r u. anywhere q I N P t h u \<and> (r = 0xFF \<or> unat r < 4)) (SubscribeIndex_prog pid) s"
  unfolding SubscribeIndex_prog_def
  by (rule safe_lookup [OF s])
    (use assms(2) small_slot_u8 in \<open>auto intro!: sbn_keeps simp: pipe_wf_def\<close>)

lemma keeps_after:
  assumes "\<And>s. anywhere q I N P t h s \<Longrightarrow> thread_safe q I N P waiter t (\<lambda>r u. anywhere q I N P t h u \<and> A r) p s"
    and "\<And>r. A r \<Longrightarrow> keeps q I N P waiter t h (f r)"
  shows "keeps q I N P waiter t h (bindP p f)"
  by (rule keepsI, rule sh.safe_bind [OF assms(1)]) (auto dest: assms(2) keepsD)

text \<open>The message id may be entered wherever the pipe id may stand.\<close>

definition may_subscribe :: "'g net_rule \<Rightarrow> nat \<Rightarrow> u8 \<Rightarrow> bool" where
  "may_subscribe N m pid \<longleftrightarrow>
     (\<forall>i < 5. may_name N pid i \<longrightarrow> (\<forall>k ms j. entry_ok N i (k, ms) \<longrightarrow> entry_ok N i (k, ms[j := m])))"

lemma keeps_Subscribe [sbn_keeps]:
  fixes waiter :: "nat \<Rightarrow> 'm::len word client \<Rightarrow> bool"
  assumes "unat pid < 5" and sub: "q \<Longrightarrow> may_subscribe N (unat m) pid"
    and send: "\<And>c g. net_inv N g (net_of c) \<Longrightarrow> quiet N t c (SendSubToSbn P K (SBN_SUB_MSG P) m \<lparr>Priority = 0, Reliability = 0\<rparr> c)"
  shows "keeps q I N P waiter t False (Subscribe_prog P K m pid)"
  unfolding Subscribe_prog_def
proof (rule keeps_after [OF safe_GetPipeIdx])
  fix idx :: u8 assume idx: "idx = 0xFF \<or> unat idx < 5 \<and> (q \<longrightarrow> may_name N pid (unat idx))"
  have enter: "\<exists>p'. bindR (arr_set (SubscribedMsgIds p) (unat k) m) (\<lambda>ms. Inr (p\<lparr>SubscribedMsgIds := ms\<rparr>)) = Inr p' \<and>
      pipe_wf P p' \<and> (q \<longrightarrow> ring_of p' = ring_of p \<and> (keyed N (unat idx) p \<longrightarrow> keyed N (unat idx) p'))"
    if "pipe_wf P p" "unat k < 4" "idx \<noteq> 0xFF" for k :: u8 and p :: "'m word pipe"
    using wf_slot [OF that(1,2), of m] sub idx that(3) by (auto simp: keyed_def may_subscribe_def key_of_def)
  show "keeps q I N P waiter t False
      (if idx = CFE_SBN_CLIENT_INVALID_PIPE then Done (Status (CFE_SBN_CLIENT_BAD_ARGUMENT P))
       else bindP (SubscribeIndex_prog pid) (\<lambda>MsgIdIdx.
         if MsgIdIdx = CFE_SBN_CLIENT_MAX_MSG_IDS_MET then Done (Status (CFE_SBN_CLIENT_BAD_ARGUMENT P))
         else bindP (entry_set (unat idx) (\<lambda>p.
             bindR (arr_set (SubscribedMsgIds p) (unat MsgIdIdx) m) (\<lambda>ms. Inr (p\<lparr>SubscribedMsgIds := ms\<rparr>)))) (\<lambda>_.
           bindP (modify (\<lambda>c. Inr (SendSubToSbn P K (SBN_SUB_MSG P) m \<lparr>Priority = 0, Reliability = 0\<rparr> c))) (\<lambda>_.
           Done (Status (CFE_SUCCESS P))))))"
    apply (rule keeps_if, rule keeps_Done)
    apply (rule keeps_after [OF safe_SubscribeIndex], assumption, rule assms(1))
    apply (intro sbn_keeps)
    using idx enter send apply fastforce+
    done
qed (use assms(1) in simp_all)

section \<open>Proper calls\<close>

text \<open>
  What a caller has to see to: names that are not \<open>NULL\<close>, ids inside the table, buffers that hold the payload,
  messages as long as their header says, and memory for them.
\<close>

fun proper_call :: "platform \<Rightarrow> 'm::len word call \<Rightarrow> bool" where
  "proper_call P (Create ptr depth name) \<longleftrightarrow> name \<noteq> None"
| "proper_call P (Delete pid) \<longleftrightarrow> True"
| "proper_call P (Subscribe m pid) \<longleftrightarrow> unat pid < CFE_PLATFORM_SBN_CLIENT_MAX_PIPES"
| "proper_call P (Ingest buf sz m) \<longleftrightarrow> unat sz \<le> length buf \<and> unat sz \<le> CFE_SBN_CLIENT_MAX_MESSAGE_SIZE P"
| "proper_call P (Receive w ptr pid TimeOut) \<longleftrightarrow> unat pid < CFE_PLATFORM_SBN_CLIENT_MAX_PIPES"
| "proper_call P (Send got_block g msg) \<longleftrightarrow>
     unat (CFE_SBN_Client_GetTotalMsgLength P msg) + SBN_PACKED_HDR_SZ P \<le> CFE_SBN_CLIENT_MAX_MESSAGE_SIZE P \<longrightarrow>
     got_block \<and> unat (CFE_SBN_Client_GetTotalMsgLength P msg) \<le> length msg"
| "proper_call P (Receive_minder n g h) \<longleftrightarrow> True"
| "proper_call P (Heartbeat_minder n) \<longleftrightarrow> True"

fun deletes :: "'i call \<Rightarrow> bool" where
  "deletes (Delete pid) \<longleftrightarrow> True" | "deletes x \<longleftrightarrow> False"

text \<open>A receive that may wait and whose wait does not fail.\<close>

fun pends :: "'i call \<Rightarrow> bool" where
  "pends (Receive w ptr pid TimeOut) \<longleftrightarrow> w = 0 \<and> TimeOut \<noteq> 0" | "pends x \<longleftrightarrow> False"

text \<open>The thread that reads from the connection.\<close>

fun reads :: "'i call \<Rightarrow> bool" where
  "reads (Receive_minder n g h) \<longleftrightarrow> True" | "reads x \<longleftrightarrow> False"

text \<open>The payload a call puts into a ring.\<close>

fun offers :: "'i call \<Rightarrow> byte list \<Rightarrow> bool" where
  "offers (Ingest buf sz m) bs \<longleftrightarrow> bs = take (unat sz) buf" | "offers x bs \<longleftrightarrow> False"

section \<open>Calls that take the mutex\<close>

lemma pipe_copy_wf:
  assumes "pipe_wf P p" and "length bs \<le> CFE_SB_MAX_SB_MSG_SIZE P"
  shows "\<exists>p'. pipe_copy bs p = Inr p' \<and> pipe_wf P p' \<and> NumberOfMessages p' = NumberOfMessages p \<and>
    ReadMessage p' = ReadMessage p \<and> key_of p' = key_of p"
proof -
  let ?e = "unat (message_entry_point p)"
  have e: "?e < 32" by (rule message_entry_point_bound)
  then have "?e < length (Messages p)" "length (Messages p ! ?e) = CFE_SB_MAX_SB_MSG_SIZE P"
    using assms(1) pipe_wf_slot [OF assms(1) e] by (simp_all add: pipe_wf_def)
  then show ?thesis
    using assms by (auto simp: pipe_copy_def Let_def pipe_wf_def list_all_length nth_list_update)
qed

text \<open>Message id \<open>m\<close> may be among the subscriptions of entry \<open>i\<close>, and \<open>bs\<close> fits all entries where it may be.\<close>

definition topic :: "'g net_rule \<Rightarrow> nat \<Rightarrow> nat \<Rightarrow> bool" where
  "topic N i m \<longleftrightarrow> (\<exists>k ms. entry_ok N i (k, ms) \<and> m \<in> set ms)"

definition placed :: "'g net_rule \<Rightarrow> (nat \<Rightarrow> byte list \<Rightarrow> bool) \<Rightarrow> nat \<Rightarrow> byte list \<Rightarrow> bool" where
  "placed N fits m bs \<longleftrightarrow> (\<forall>i < 5. topic N i m \<longrightarrow> fits i bs)"

lemma placed_still [simp]: "placed (still N) = placed N"
  by (simp add: placed_def topic_def fun_eq_iff)

lemma safe_slot_test:
  fixes s :: "('m::len word, 'g) gworld"
  assumes s: "anywhere q I N P t h s" and "i < 5" "j < 4"
  shows "thread_safe q I N P waiter t (\<lambda>b v. anywhere q I N P t h v \<and> (b \<longrightarrow> q \<longrightarrow> topic N i (unat m)))
    (entry_get i (\<lambda>p. bindR (arr_get (SubscribedMsgIds p) j) (\<lambda>k. Inr (k = m)))) s"
proof -
  have topic: "topic N i (unat (SubscribedMsgIds p ! j))" if "entry_ok N i (key_of p)" "length (SubscribedMsgIds p) = 4"
    for p :: "'m word pipe"
  proof -
    have "SubscribedMsgIds p ! j \<in> set (SubscribedMsgIds p)" using that(2) assms(3) by simp
    then show ?thesis using that(1) unfolding topic_def key_of_def by (metis image_eqI list.set_map)
  qed
  have "thread_safe q I N P waiter t (\<lambda>b v. here q I N P t h i (I i) v \<and> (b \<longrightarrow> q \<longrightarrow> topic N i (unat m)))
    (entry_get i (\<lambda>p. bindR (arr_get (SubscribedMsgIds p) j) (\<lambda>k. Inr (k = m)))) s"
    by (rule safe_get [OF any_here [OF s assms(2)] assms(2)]) (use assms(3) topic in \<open>auto simp: keyed_def pipe_wf_def\<close>)
  then show ?thesis by (rule sh.safe_post) (use assms(2) here_any in auto)
qed

lemma here_weaken: "here q I N P t h i C s \<Longrightarrow> (\<And>g x. C g x \<Longrightarrow> D g x) \<Longrightarrow> here q I N P t h i D s"
  by (simp add: here_def)

lemma log_unlock:
  assumes s: "anywhere q I N P t True s"
  shows "thread_safe q I N P waiter t (\<lambda>_. anywhere q I N P t False)
    (sequence [modify (\<lambda>c. Inr (log_message fmt args c)), mutex_unlock]) s"
  unfolding sequence.simps
  by (rule sh.safe_bind [OF keepsD [OF keeps_quiet s]], simp,
      rule sh.safe_bind [OF safe_unlock], assumption, simp, assumption, rule keepsD [OF keeps_Done])

text \<open>
  The interface of the two users of a ring to its invariant: a put on a ring that
  is not full and a get on one that is not drained keep it. \<open>offered g x bs g'\<close> says which message \<open>bs\<close> may
  be put where the auxiliary value is \<open>g\<close> and the sockets stand at \<open>x\<close>, and to what the put changes the value, and \<open>fits i bs\<close>
  into which pipe. The invariant may be broken between the two assignments of a put or a get, where the thread holds the mutex.
\<close>

locale ring_invariant =
  fixes T :: "'m::len itself" and P :: platform
    and offered :: "'g \<Rightarrow> (i32 \<Rightarrow> rd_event list) \<Rightarrow> byte list \<Rightarrow> 'g \<Rightarrow> bool"
    and fits :: "nat \<Rightarrow> byte list \<Rightarrow> bool" and I :: "nat \<Rightarrow> 'g \<Rightarrow> ring \<Rightarrow> bool"
  assumes put_law: "I i g (ring_of (p :: 'm word pipe)) \<Longrightarrow> pipe_wf P p \<Longrightarrow> ring_ok p \<Longrightarrow> \<not> pipe_full p \<Longrightarrow>
      offered g x bs g' \<Longrightarrow> fits i bs \<Longrightarrow> length bs \<le> CFE_SB_MAX_SB_MSG_SIZE P \<Longrightarrow> pipe_put bs p = Inr r \<Longrightarrow> I i g' (ring_of r)"
    and skip_law: "I i g y \<Longrightarrow> offered g x bs g' \<Longrightarrow> I i g' y"
    and get_law: "I i g (ring_of (p :: 'm word pipe)) \<Longrightarrow> ring_ok p \<Longrightarrow> \<not> pipe_empty p \<Longrightarrow> I i g (ring_of (pipe_get p))"
begin

text \<open>What the thread knows of the ring of entry \<open>i\<close>: there is room, a message has been copied, one is there, the index has moved.\<close>

definition room :: "nat \<Rightarrow> 'g \<Rightarrow> ring \<Rightarrow> bool" where
  "room i g x \<longleftrightarrow> I i g x \<and> fst (snd x) \<noteq> 32"

definition copied :: "nat \<Rightarrow> byte list \<Rightarrow> 'g \<Rightarrow> ring \<Rightarrow> bool" where
  "copied i bs g x \<longleftrightarrow> (\<exists>p p' :: 'm word pipe. I i g (ring_of p) \<and> pipe_wf P p \<and> ring_ok p \<and> \<not> pipe_full p \<and>
     pipe_copy bs p = Inr p' \<and> ring_of p' = x)"

definition filled :: "nat \<Rightarrow> 'g \<Rightarrow> ring \<Rightarrow> bool" where
  "filled i g x \<longleftrightarrow> I i g x \<and> \<not> fst (snd x) < 2"

definition advanced :: "nat \<Rightarrow> 'g \<Rightarrow> ring \<Rightarrow> bool" where
  "advanced i g x \<longleftrightarrow> (\<exists>p :: 'm word pipe. I i g (ring_of p) \<and> ring_ok p \<and> \<not> pipe_empty p \<and>
     x = (pipe_next p, NumberOfMessages p, Messages p))"

text \<open>Thread \<open>t\<close> may put \<open>bs\<close> from where it is in the stream.\<close>

definition may_put :: "bool \<Rightarrow> 'g net_rule \<Rightarrow> nat \<Rightarrow> byte list \<Rightarrow> ('m word, 'g) gworld \<Rightarrow> bool" where
  "may_put q N t bs u \<longleftrightarrow> (q \<longrightarrow> t \<in> putters N \<and> \<not> no_put N \<and>
     (\<forall>c w g. same_place N t u ((c, w), g) \<and> net_inv N g (net_of c) \<longrightarrow>
        (\<exists>g'. offered g (rd_of c) bs g' \<and> net_inv N g' (net_of c))))"

lemma may_put_stay: "may_put q N t bs u \<Longrightarrow> same_place N t u v \<Longrightarrow> may_put q N t bs v"
  using same_place_trans [of N t u v] unfolding may_put_def by blast

lemma safe_carry:
  assumes "thread_safe q I (stay N) P waiter t Q p u" and "may_put q N t bs u"
  shows "thread_safe q I N P waiter t (\<lambda>r v. Q r v \<and> may_put q N t bs v) p u"
  by (rule sh.safe_post [OF safe_stay [OF assms(1) same_place_refl]]) (use may_put_stay [OF assms(2)] in blast)

lemma copy_step:
  fixes p :: "'m word pipe"
  assumes "pipe_wf P p" and "q \<longrightarrow> room i g (ring_of p)" and sz: "unat sz \<le> length buf" "unat sz \<le> CFE_SB_MAX_SB_MSG_SIZE P"
  shows "\<exists>p'. bindR (mem_read buf 0 (unat sz)) (\<lambda>bs. pipe_copy bs p) = Inr p' \<and> pipe_wf P p' \<and> key_of p' = key_of p \<and>
    (q \<longrightarrow> ring_ok p \<longrightarrow> ring_ok p' \<and> copied i (take (unat sz) buf) g (ring_of p'))"
proof -
  obtain p' where p': "pipe_copy (take (unat sz) buf) p = Inr p'" "pipe_wf P p'"
    "NumberOfMessages p' = NumberOfMessages p" "ReadMessage p' = ReadMessage p" "key_of p' = key_of p"
    using pipe_copy_wf [OF assms(1), of "take (unat sz) buf"] sz by auto
  then have "q \<longrightarrow> ring_ok p \<longrightarrow> ring_ok p' \<and> copied i (take (unat sz) buf) g (ring_of p')"
    using assms(1,2) unfolding copied_def room_def
    by (auto simp: ring_ok_def ring_of_def pipe_full_def)
  then show ?thesis using p'(1,2,5) sz by auto
qed

lemma put_step:
  fixes p :: "'m word pipe"
  assumes "copied i bs g (ring_of p)" and "ring_ok p" and "offered g x bs g'" "fits i bs" "length bs \<le> CFE_SB_MAX_SB_MSG_SIZE P"
  shows "ring_ok (p\<lparr>NumberOfMessages := NumberOfMessages p + 1\<rparr>) \<and>
    I i g' (ring_of (p\<lparr>NumberOfMessages := NumberOfMessages p + 1\<rparr>))"
proof -
  obtain b b' :: "'m word pipe" where b: "I i g (ring_of b)" "pipe_wf P b" "ring_ok b" "\<not> pipe_full b"
    "pipe_copy bs b = Inr b'" "ring_of b' = ring_of p"
    using assms(1) by (auto simp: copied_def)
  have "pipe_put bs b = Inr (b'\<lparr>NumberOfMessages := NumberOfMessages b' + 1\<rparr>)"
    using b(5) by (simp add: pipe_put_split)
  then have "I i g' (ring_of (b'\<lparr>NumberOfMessages := NumberOfMessages b' + 1\<rparr>))"
    using put_law [OF b(1-4) assms(3-5)] by blast
  moreover have "NumberOfMessages p = NumberOfMessages b"
    using b(6) pipe_copy_wf [OF b(2) assms(5)] b(5) by (auto simp: ring_of_def)
  then have "ring_ok (p\<lparr>NumberOfMessages := NumberOfMessages p + 1\<rparr>)"
    using assms(2) ring_ok_not_full [OF b(3)] b(4) unat_inc_count [of "NumberOfMessages p"]
    by (simp add: ring_ok_def)
  ultimately show ?thesis using b(6) by (simp add: ring_of_def)
qed

lemma advance_step:
  fixes p :: "'m word pipe"
  assumes "filled i g (ring_of p)" and "a = (ReadMessage p + 1) mod 32" and "ring_ok p"
  shows "ring_ok (p\<lparr>ReadMessage := a\<rparr>) \<and> advanced i g (ring_of (p\<lparr>ReadMessage := a\<rparr>))"
  using assms pipe_next_unat [of p] unfolding filled_def advanced_def
  by (auto simp: ring_ok_def ring_of_def pipe_empty_def pipe_next_def)

lemma get_step:
  fixes p :: "'m word pipe"
  assumes "advanced i g (ring_of p)" and "ring_ok p"
  shows "ring_ok (p\<lparr>NumberOfMessages := NumberOfMessages p - 1\<rparr>) \<and>
    I i g (ring_of (p\<lparr>NumberOfMessages := NumberOfMessages p - 1\<rparr>))"
proof -
  obtain b :: "'m word pipe" where b: "I i g (ring_of b)" "ring_ok b" "\<not> pipe_empty b"
    "ring_of p = (pipe_next b, NumberOfMessages b, Messages b)"
    using assms(1) by (auto simp: advanced_def)
  have "I i g (ring_of (pipe_get b))" by (rule get_law [OF b(1-3)])
  then have "I i g (ring_of (p\<lparr>NumberOfMessages := NumberOfMessages p - 1\<rparr>))"
    using b(4) by (simp add: ring_of_def pipe_get_def)
  then show ?thesis
    using assms(2) b(3,4) by (auto simp: ring_ok_def ring_of_def pipe_empty_def unat_dec_count word_less_nat_alt)
qed

lemma safe_deliver:
  fixes s :: "('m word, 'g) gworld"
  assumes s: "anywhere q I N P t True s" and i: "i < 5"
    and sz: "unat sz \<le> length buf" "unat sz \<le> CFE_SB_MAX_SB_MSG_SIZE P" and put: "may_put q N t (take (unat sz) buf) s"
    and target: "q \<longrightarrow> fits i (take (unat sz) buf)"
  shows "thread_safe q I N P waiter t (\<lambda>_. anywhere q I N P t False) (deliver_prog buf sz m i) s"
proof -
  let ?bs = "take (unat sz) buf"
  have full: "thread_safe q I N P waiter t (\<lambda>a s. (here q I N P t True i (\<lambda>g x. I i g x \<and> (\<not> a \<longrightarrow> room i g x)) s \<and> True) \<and>
      may_put q N t ?bs s) (entry_get i (\<lambda>p. Inr (pipe_full p))) s"
  proof (rule safe_carry [OF _ put])
    show "thread_safe q I (stay N) P waiter t (\<lambda>a s. here q I N P t True i (\<lambda>g x. I i g x \<and> (\<not> a \<longrightarrow> room i g x)) s \<and> True)
        (entry_get i (\<lambda>p. Inr (pipe_full p))) s"
      using safe_get [where N = "stay N" and q = q and P = P and I = I and t = t and h = True and C = "I i" and u = s
          and A = "\<lambda>_. True" and D = "\<lambda>a g x. I i g x \<and> (\<not> a \<longrightarrow> room i g x)" and f = "\<lambda>p. Inr (pipe_full p)", OF _ i] any_here [OF s i]
      by (simp add: pipe_full_def room_def ring_of_def)
  qed
  have logged: "thread_safe q I N P waiter t (\<lambda>_ v. here q I N P t True i (room i) v \<and> may_put q N t ?bs v)
      (modify (\<lambda>c. Inr (log_message fmt args c))) u"
    if "here q I N P t True i (room i) u" "may_put q N t ?bs u" for fmt args and u :: "('m word, 'g) gworld"
    by (rule safe_carry [OF _ that(2)])
      (use safe_quiet [where N = "stay N" and q = q and P = P and I = I and t = t and h = True and C = "room i" and u = u
          and f = "\<lambda>c. Inr (log_message fmt args c)", OF _ i] that(1) in simp)
  have copy: "thread_safe q I N P waiter t (\<lambda>_ v. here q I N P t True i (copied i ?bs) v \<and> may_put q N t ?bs v)
      (entry_set i (\<lambda>p. bindR (mem_read buf 0 (unat sz)) (\<lambda>bs. pipe_copy bs p))) u"
    if "here q I N P t True i (room i) u" "may_put q N t ?bs u" for u :: "('m word, 'g) gworld"
  proof (rule safe_carry [OF _ that(2)])
    have "\<exists>p'. bindR (mem_read buf 0 (unat sz)) (\<lambda>bs. pipe_copy bs p) = Inr p' \<and> pipe_wf P p' \<and>
        (q \<longrightarrow> (keyed N i p \<longrightarrow> keyed N i p') \<and> (if True then ring_ok p \<longrightarrow> ring_ok p' \<and> copied i ?bs g (ring_of p') else ring_of p' = ring_of p))"
      if "pipe_wf P p" "q \<and> True \<longrightarrow> room i g (ring_of p)" for p :: "'m word pipe" and g
      using copy_step [OF that(1) _ sz(1,2), of q i g] that(2) by (auto simp: keyed_def)
    then show "thread_safe q I (stay N) P waiter t (\<lambda>_. here q I N P t True i (copied i ?bs))
      (entry_set i (\<lambda>p. bindR (mem_read buf 0 (unat sz)) (\<lambda>bs. pipe_copy bs p))) u"
      using safe_set [where N = "stay N" and q = q and P = P and I = I and t = t and h = True and C = "room i" and u = u, OF _ i]
        that(1) by simp
  qed
  have count: "thread_safe q I N P waiter t (\<lambda>_. here q I N P t True i (I i))
      (entry_set i (\<lambda>p. Inr (p\<lparr>NumberOfMessages := NumberOfMessages p + 1\<rparr>))) u"
    if u: "here q I N P t True i (copied i ?bs) u \<and> may_put q N t ?bs u" for u :: "('m word, 'g) gworld"
  proof (rule safe_put [OF conjunct1 [OF u] i])
    fix p p' :: "'m word pipe" and c :: "'m word client" and w g
    assume q: q and place: "same_place N t u ((c, w), g)" and p: "copied i ?bs g (ring_of p)" "ring_ok p"
      "Inr (p\<lparr>NumberOfMessages := NumberOfMessages p + 1\<rparr>) = (Inr p' :: 'm word pipe run)" and net: "net_inv N g (net_of c)"
    obtain g' where g': "offered g (rd_of c) ?bs g'" "net_inv N g' (net_of c)"
      using u q place net unfolding may_put_def by blast
    have "length ?bs \<le> CFE_SB_MAX_SB_MSG_SIZE P" using sz by simp
    from put_step [OF p(1,2) g'(1) _ this] have "ring_ok p' \<and> I i g' (ring_of p')" using p(3) q target by simp
    then show "\<exists>g'. ring_ok p' \<and> I i g' (ring_of p') \<and> net_inv N g' (net_of c) \<and> (\<forall>j x. I j g x \<longrightarrow> I j g' x)"
      using g' skip_law by blast
  qed (use u in \<open>auto simp: may_put_def\<close>)
  have over: "thread_safe q I N P waiter t (\<lambda>_. anywhere q I N P t False)
      (bindP (sequence [modify (\<lambda>c. Inr (log_message ''SBN_CLIENT: ERROR pipe overflow'' [] c)), mutex_unlock])
        (\<lambda>_. Done Ingested)) u" if u: "anywhere q I N P t True u" for u :: "('m word, 'g) gworld"
    by (rule sh.safe_bind [OF log_unlock [OF u]]) (rule keepsD [OF keeps_Done])
  have fits: "thread_safe q I N P waiter t (\<lambda>_. anywhere q I N P t False)
      (bindP (sequence
         [modify (\<lambda>c. Inr (log_message ''App message received: MsgId 0x%08X'' [Int_arg (ucast m)] c)),
          entry_set i (\<lambda>p. bindR (mem_read buf 0 (unat sz)) (\<lambda>bs. pipe_copy bs p)),
          entry_set i (\<lambda>p. Inr (p\<lparr>NumberOfMessages := NumberOfMessages p + 1\<rparr>)),
          mutex_unlock, modify (\<lambda>c. Inr (sync Cond_signal c))]) (\<lambda>_. Done Ingested)) u"
    if u: "here q I N P t True i (room i) u" "may_put q N t ?bs u" for u :: "('m word, 'g) gworld"
    unfolding sequence.simps
    apply (rule sh.safe_bind)
     apply (rule sh.safe_bind [OF logged [OF u]])
     apply (rule sh.safe_bind [OF copy], erule conjunct1, erule conjunct2)
     apply (rule sh.safe_bind [OF count], assumption)
     apply (rule sh.safe_bind [OF safe_unlock [OF _ i]], assumption, assumption)
     apply (rule sh.safe_bind [OF keepsD [OF keeps_quiet]], simp, assumption)
     apply (rule keepsD [OF keeps_Done], assumption)
    apply (rule keepsD [OF keeps_Done], assumption)
    done
  have "thread_safe q I N P waiter t (\<lambda>_. anywhere q I N P t False)
      (if a then bindP (sequence [modify (\<lambda>c. Inr (log_message ''SBN_CLIENT: ERROR pipe overflow'' [] c)), mutex_unlock])
              (\<lambda>_. Done Ingested)
       else bindP (sequence
         [modify (\<lambda>c. Inr (log_message ''App message received: MsgId 0x%08X'' [Int_arg (ucast m)] c)),
          entry_set i (\<lambda>p. bindR (mem_read buf 0 (unat sz)) (\<lambda>bs. pipe_copy bs p)),
          entry_set i (\<lambda>p. Inr (p\<lparr>NumberOfMessages := NumberOfMessages p + 1\<rparr>)),
          mutex_unlock, modify (\<lambda>c. Inr (sync Cond_signal c))]) (\<lambda>_. Done Ingested)) u"
    if u: "(here q I N P t True i (\<lambda>g x. I i g x \<and> (\<not> a \<longrightarrow> room i g x)) u \<and> True) \<and> may_put q N t ?bs u"
    for a and u :: "('m word, 'g) gworld"
  proof (cases a)
    case True
    have "anywhere q I N P t True u" by (rule here_any [OF _ i], rule here_weaken [OF conjunct1 [OF conjunct1 [OF u]]]) simp
    then show ?thesis using over True by simp
  next
    case False
    have "here q I N P t True i (room i) u" by (rule here_weaken [OF conjunct1 [OF conjunct1 [OF u]]]) (use False in simp)
    then show ?thesis using fits u False by simp
  qed
  then show ?thesis
    unfolding deliver_prog_def by (rule sh.safe_bind [OF full])
qed

lemma safe_pipe_scan:
  fixes s :: "('m word, 'g) gworld"
  assumes sz: "unat sz \<le> length buf" "unat sz \<le> CFE_SB_MAX_SB_MSG_SIZE P"
    and target: "q \<longrightarrow> placed N fits (unat m) (take (unat sz) buf)"
  shows "n \<le> 5 \<Longrightarrow> anywhere q I N P t True s \<and> may_put q N t (take (unat sz) buf) s \<Longrightarrow>
    thread_safe q I N P waiter t (\<lambda>_. anywhere q I N P t False) (pipe_scan buf sz m n used) s"
proof (induction n arbitrary: used s)
  case 0
  show ?case
    unfolding pipe_scan.simps
    by (rule sh.safe_bind [OF log_unlock [OF conjunct1 [OF 0(2)]]]) (rule keepsD [OF keeps_Done])
next
  case (Suc n)
  let ?i = "5 - Suc n"
  let ?J = "\<lambda>u. anywhere q I N P t True u \<and> may_put q N t (take (unat sz) buf) u"
  have looks: "thread_safe q I N P waiter t (\<lambda>_. ?J) p u"
    if "keeps q I (stay N) P waiter t True p" "?J u" for p :: "('m word world, bool) prog" and u :: "('m word, 'g) gworld"
    by (rule safe_carry [OF _ conjunct2 [OF that(2)]]) (use keepsD [OF that(1), of u] that(2) in simp)
  have slots: "thread_safe q I N P waiter t (\<lambda>_. anywhere q I N P t False) (slot_scan buf sz m ?i (pipe_scan buf sz m n True)) u"
    if u: "?J u" for u :: "('m word, 'g) gworld"
    unfolding slot_scan_def
  proof (rule sh.safe_search_hit [where J = ?J and H = "\<lambda>_. q \<longrightarrow> topic N ?i (unat m)", OF _ _ _ le_refl u])
    fix j and v :: "('m word, 'g) gworld" assume j: "j < CFE_SBN_CLIENT_MAX_MSG_IDS_PER_PIPE" and v: "?J v"
    have "thread_safe q I (stay N) P waiter t (\<lambda>b v. anywhere q I N P t True v \<and> (b \<longrightarrow> q \<longrightarrow> topic N ?i (unat m)))
        (entry_get ?i (\<lambda>p. bindR (arr_get (SubscribedMsgIds p) j) (\<lambda>k. Inr (k = m)))) v"
      using safe_slot_test [where N = "stay N" and q = q and I = I and P = P and t = t and h = True and s = v and i = ?i and j = j and m = m]
        v j by (simp add: topic_def)
    from safe_carry [OF this conjunct2 [OF v]]
    show "thread_safe q I N P waiter t (\<lambda>b v. ?J v \<and> (b \<longrightarrow> q \<longrightarrow> topic N ?i (unat m)))
        (entry_get ?i (\<lambda>p. bindR (arr_get (SubscribedMsgIds p) j) (\<lambda>k. Inr (k = m)))) v"
      by (rule sh.safe_post) simp
    show "thread_safe q I N P waiter t (\<lambda>_. anywhere q I N P t False) (deliver_prog buf sz m ?i) v"
      if "q \<longrightarrow> topic N ?i (unat m)"
      by (rule safe_deliver [OF conjunct1 [OF v] _ sz conjunct2 [OF v]]) (use that target in \<open>auto simp: placed_def\<close>)
  next
    show "thread_safe q I N P waiter t (\<lambda>_. anywhere q I N P t False) (pipe_scan buf sz m n True) v"
      if "?J v" for v :: "('m word, 'g) gworld"
      using Suc.IH [OF _ that] Suc.prems(1) by simp
  qed
  have "thread_safe q I N P waiter t (\<lambda>_. anywhere q I N P t False)
      (if b then slot_scan buf sz m ?i (pipe_scan buf sz m n True) else pipe_scan buf sz m n used) u"
    if "?J u" for b and u :: "('m word, 'g) gworld"
    using slots [OF that] Suc.IH [OF _ that] Suc.prems(1) by simp
  then show ?case
    unfolding pipe_scan.simps Let_def CFE_PLATFORM_SBN_CLIENT_MAX_PIPES_def
    by (intro sh.safe_bind [OF looks [OF keeps_get Suc.prems(2)]]) simp_all
qed

lemma safe_ingest:
  fixes s :: "('m word, 'g) gworld"
  assumes "unat sz \<le> length buf" and "unat sz \<le> CFE_SB_MAX_SB_MSG_SIZE P"
    and s: "anywhere q I N P t False s" and put: "may_put q N t (take (unat sz) buf) s"
    and target: "q \<longrightarrow> placed N fits (unat m) (take (unat sz) buf)"
  shows "thread_safe q I N P waiter t (\<lambda>_. anywhere q I N P t False) (ingest_prog t buf sz m) s"
  unfolding ingest_prog_def
proof (rule sh.safe_bind [OF safe_carry [OF _ put]])
  show "thread_safe q I (stay N) P waiter t (\<lambda>_. anywhere q I N P t True) (mutex_lock t) s"
    using safe_lock [where N = "stay N" and q = q and P = P and I = I and t = t and u = s] s by simp
  show "thread_safe q I N P waiter t (\<lambda>_. anywhere q I N P t False)
      (pipe_scan buf sz m CFE_PLATFORM_SBN_CLIENT_MAX_PIPES False) v"
    if "anywhere q I N P t True v \<and> may_put q N t (take (unat sz) buf) v" for v :: "('m word, 'g) gworld"
    by (rule safe_pipe_scan [OF assms(1,2) target _ that]) simp
qed

lemma safe_finish:
  fixes s :: "('m word, 'g) gworld"
  assumes P: "platform_ok P" and i: "i < 5"
    and s: "here q I N P t True i (\<lambda>g x. I i g x \<and> (st = CFE_SUCCESS P \<and> w = 0 \<longrightarrow> filled i g x)) s"
  shows "thread_safe q I N P waiter t (\<lambda>_. anywhere q I N P t False) (finish_prog P i st w) s"
proof (cases "w = 0 \<and> st = CFE_SUCCESS P")
  case True
  have next_slot: "thread_safe q I N P waiter t (\<lambda>a s. here q I N P t True i (\<lambda>g x. filled i g x \<and> a = (fst x + 1) mod 32) s \<and> unat a < 32)
      (entry_get i (\<lambda>p. Inr (pipe_next p))) s"
    by (rule safe_get [OF s i]) (use True in \<open>simp add: pipe_next_unat ring_of_def, simp add: pipe_next_def\<close>)
  have advance: "\<exists>p'. Inr (p\<lparr>ReadMessage := a\<rparr>) = (Inr p' :: 'm word pipe run) \<and> pipe_wf P p' \<and>
      (q \<longrightarrow> (keyed N i p \<longrightarrow> keyed N i p') \<and> (if True then ring_ok p \<longrightarrow> ring_ok p' \<and> advanced i g (ring_of p') else ring_of p' = ring_of p))"
    if "pipe_wf P p" "q \<and> True \<longrightarrow> filled i g (ring_of p) \<and> a = (fst (ring_of p) + 1) mod 32" for p :: "'m word pipe" and a g
    using that advance_step [of i g p a] by (simp add: ring_of_def)
  have count: "\<exists>p'. Inr (p\<lparr>NumberOfMessages := NumberOfMessages p - 1\<rparr>) = (Inr p' :: 'm word pipe run) \<and> pipe_wf P p' \<and>
      (q \<longrightarrow> (keyed N i p \<longrightarrow> keyed N i p') \<and> (if True then ring_ok p \<longrightarrow> ring_ok p' \<and> I i g (ring_of p') else ring_of p' = ring_of p))"
    if "pipe_wf P p" "q \<and> True \<longrightarrow> advanced i g (ring_of p)" for p :: "'m word pipe" and g
    using that get_step [of i g p] by simp
  have consume: "thread_safe q I N P waiter t (\<lambda>_. anywhere q I N P t False)
      (bindP (sequence
                [entry_set i (\<lambda>p. Inr (p\<lparr>ReadMessage := a\<rparr>)),
                 entry_set i (\<lambda>p. Inr (p\<lparr>NumberOfMessages := NumberOfMessages p - 1\<rparr>)),
                 mutex_unlock]) (\<lambda>_. Done (r :: reply))) u"
    if u: "here q I N P t True i (\<lambda>g x. filled i g x \<and> a = (fst x + 1) mod 32) u \<and> unat a < 32" for a r and u :: "('m word, 'g) gworld"
    unfolding sequence.simps
    apply (rule sh.safe_bind)
     apply (rule sh.safe_bind [OF safe_set [OF conjunct1 [OF u] i advance]], assumption, assumption)
     apply (rule sh.safe_bind [OF safe_set [OF _ i count]], assumption, assumption, assumption)
     apply (rule sh.safe_bind [OF safe_unlock [OF _ i]], assumption, assumption)
     apply (rule keepsD [OF keeps_Done], assumption)
    apply (rule keepsD [OF keeps_Done], assumption)
    done
  have "thread_safe q I N P waiter t (\<lambda>_. anywhere q I N P t False)
      (bindP (entry_get i (\<lambda>p. Inr (pipe_next p))) (\<lambda>next_msg.
            bindP (sequence
              [entry_set i (\<lambda>p. Inr (p\<lparr>ReadMessage := next_msg\<rparr>)),
               entry_set i (\<lambda>p. Inr (p\<lparr>NumberOfMessages := NumberOfMessages p - 1\<rparr>)),
               mutex_unlock]) (\<lambda>_. Done (Got (CFE_SUCCESS P) (Slot i (unat next_msg)))))) s"
    by (rule sh.safe_bind [OF next_slot consume])
  then show ?thesis using True by (simp add: finish_prog_def)
next
  case False
  have "thread_safe q I N P waiter t (\<lambda>_. anywhere q I N P t False) (bindP mutex_unlock (\<lambda>_. Done r)) s" for r :: reply
    by (rule sh.safe_bind [OF safe_unlock [OF s i]], simp, rule keepsD [OF keeps_Done])
  moreover have "(finish_prog P i st w :: ('m word world, reply) prog) = bindP mutex_unlock (\<lambda>_. Done (Got
        (if w \<noteq> 0 then (if w = ETIMEDOUT then CFE_SB_TIME_OUT P else CFE_SB_PIPE_RD_ERR P) else st) Null_ptr))"
    using False platform_okD(1,4,6) [OF P] by (auto simp: finish_prog_def Let_def)
  ultimately show ?thesis by (simp only:)
qed

lemma keeps_RcvMsg [sbn_keeps]:
  assumes P: "platform_ok P" and pid: "unat pid < 5" and sp: "q \<and> sp \<longrightarrow> w \<noteq> 0 \<or> TimeOut = 0"
    and wait: "\<And>c i. w = 0 \<Longrightarrow> \<not> sp \<Longrightarrow> TimeOut \<noteq> 0 \<Longrightarrow> i < 5 \<Longrightarrow> pipe_empty (PipeTbl c ! i) \<Longrightarrow> waiter t c"
  shows "keeps q I N P waiter t False (RcvMsg_prog sp t P w ptr pid TimeOut :: ('m word world, reply) prog)"
proof -
  have poll: "CFE_SB_POLL P = 0" by (rule platform_okD(10) [OF P])
  have held: "thread_safe q I N P waiter t (\<lambda>_. anywhere q I N P t False)
      (if nothing \<and> TimeOut = CFE_SB_POLL P then finish_prog P i (CFE_SB_NO_MESSAGE P) 0
       else if nothing then
         bindP cond_release (\<lambda>_.
         bindP (cond_wake t (\<lambda>c. w = 0 \<longrightarrow> sp \<or> \<not> pipe_empty (PipeTbl c ! i))) (\<lambda>_.
         finish_prog P i (CFE_SUCCESS P) w))
       else finish_prog P i (CFE_SUCCESS P) 0) s"
    if i: "i < 5" and s: "here q I N P t True i (\<lambda>g x. I i g x \<and> (\<not> nothing \<longrightarrow> filled i g x)) s" for nothing i and s :: "('m word, 'g) gworld"
  proof -
    consider "\<not> nothing" | "nothing" "TimeOut = 0" | "nothing" "TimeOut \<noteq> 0" by blast
    then show ?thesis
    proof cases
      case 1
      then show ?thesis using safe_finish [OF P i, of q N t "CFE_SUCCESS P" 0 s waiter] s by simp
    next
      case 2
      then show ?thesis using safe_finish [OF P i, of q N t "CFE_SB_NO_MESSAGE P" 0 s waiter] s poll
          platform_okD(1,5) [OF P] by simp
    next
      case 3
      have wake: "thread_safe q I N P waiter t (\<lambda>_. here q I N P t True i (\<lambda>g x. I i g x \<and> (CFE_SUCCESS P = CFE_SUCCESS P \<and> w = 0 \<longrightarrow> filled i g x)))
          (cond_wake t (\<lambda>c. w = 0 \<longrightarrow> sp \<or> \<not> pipe_empty (PipeTbl c ! i))) u"
        if "anywhere q I N P t False u" for u :: "('m word, 'g) gworld"
        by (rule safe_wake [OF that i]) (use sp wait 3 i in \<open>auto simp: pipe_empty_def filled_def ring_of_def\<close>)
      have "thread_safe q I N P waiter t (\<lambda>_. anywhere q I N P t False) (bindP cond_release (\<lambda>_.
         bindP (cond_wake t (\<lambda>c. w = 0 \<longrightarrow> sp \<or> \<not> pipe_empty (PipeTbl c ! i))) (\<lambda>_.
         finish_prog P i (CFE_SUCCESS P) w))) s"
        by (rule sh.safe_bind [OF safe_cond_release [OF s i]], simp, rule sh.safe_bind [OF wake], assumption)
          (rule safe_finish [OF P i])
      then show ?thesis using 3 poll by simp
    qed
  qed
  have locked: "keeps q I N P waiter t False
      (let i = unat idx in
       bindP (mutex_lock t) (\<lambda>_.
       bindP (entry_get i (\<lambda>p. Inr (pipe_empty p))) (\<lambda>nothing.
         if nothing \<and> TimeOut = CFE_SB_POLL P then finish_prog P i (CFE_SB_NO_MESSAGE P) 0
         else if nothing then
           bindP cond_release (\<lambda>_.
           bindP (cond_wake t (\<lambda>c. w = 0 \<longrightarrow> sp \<or> \<not> pipe_empty (PipeTbl c ! i))) (\<lambda>_.
           finish_prog P i (CFE_SUCCESS P) w))
         else (finish_prog P i (CFE_SUCCESS P) 0 :: ('m word world, reply) prog))))" if i: "unat idx < 5" for idx :: u8
    unfolding Let_def
  proof (rule keepsI, rule sh.safe_bind [OF safe_lock], assumption)
    fix s :: "('m word, 'g) gworld" assume s: "anywhere q I N P t True s"
    have "thread_safe q I N P waiter t (\<lambda>a s. here q I N P t True (unat idx) (\<lambda>g x. I (unat idx) g x \<and> (\<not> a \<longrightarrow> filled (unat idx) g x)) s \<and> True)
        (entry_get (unat idx) (\<lambda>p. Inr (pipe_empty p))) s"
      by (rule safe_get [OF any_here [OF s i] i]) (simp add: pipe_empty_def filled_def ring_of_def)
    then show "thread_safe q I N P waiter t (\<lambda>_. anywhere q I N P t False)
       (bindP (entry_get (unat idx) (\<lambda>p. Inr (pipe_empty p))) (\<lambda>nothing.
         if nothing \<and> TimeOut = CFE_SB_POLL P then finish_prog P (unat idx) (CFE_SB_NO_MESSAGE P) 0
         else if nothing then
           bindP cond_release (\<lambda>_.
           bindP (cond_wake t (\<lambda>c. w = 0 \<longrightarrow> sp \<or> \<not> pipe_empty (PipeTbl c ! unat idx))) (\<lambda>_.
           finish_prog P (unat idx) (CFE_SUCCESS P) w))
         else finish_prog P (unat idx) (CFE_SUCCESS P) 0)) s"
      by (rule sh.safe_bind) (use held i in blast)
  qed
  show ?thesis
    unfolding RcvMsg_prog_def
    by (rule keeps_if, rule keeps_bind, rule keeps_quiet, simp, rule keeps_Done,
        rule keeps_if, rule keeps_bind, rule keeps_quiet, simp, rule keeps_Done,
        rule keeps_after [OF safe_GetPipeIdx [OF _ pid]], assumption,
        rule keeps_if, rule keeps_bind, rule keeps_quiet, simp, rule keeps_Done, rule locked) simp
qed

end

end
