(* ===== verification/SBN_Network.thy ===== *)
theory SBN_Network
  imports SBN_Concurrent "HOL-Library.Sublist"
begin

text \<open>
  The connection under interleaving: the receive thread that reads frames, the heartbeat thread and the
  calls that send. What is kept of the sockets is the locale \<open>net_invariant\<close>, with what a reader needs
  \<open>framed_net\<close>; together with \<open>ring_invariant\<close> they give that every thread of the program keeps the interface of
  \<open>SBN_Interleave\<close> (\<open>call_invariant\<close> for the calls that do not read, \<open>thread_invariant\<close> for all), and that the receive
  thread is between two frames whenever it starts on the next.
\<close>

section \<open>The stream\<close>

text \<open>All bytes the coming reads will find, across errors, and a socket on which a read waits.\<close>

fun stream_data :: "rd_event list \<Rightarrow> byte list" where
  "stream_data [] = []"
| "stream_data (Rd_Data bs # es) = bs @ stream_data es"
| "stream_data (Rd_Error e # es) = stream_data es"
| "stream_data (Rd_Close # es) = stream_data es"

definition exhausted :: "rd_event list \<Rightarrow> bool" where
  "exhausted es \<longleftrightarrow> (\<forall>e \<in> set es. e = Rd_Data [])"

lemma sock_read_stream:
  "sock_read n es = Inr (r, es') \<Longrightarrow>
    stream_data es = (case r of R_Bytes bs \<Rightarrow> bs | _ \<Rightarrow> []) @ stream_data es'"
  by (induction n es rule: sock_read.induct) (auto split: if_splits)

lemma sock_read_waits: "sock_read n es = Inl f \<Longrightarrow> f = Blocked \<and> exhausted es"
  by (induction n es rule: sock_read.induct) (auto simp: exhausted_def split: if_splits)

lemma exhausted_waits: "exhausted es \<Longrightarrow> sock_read n es = Inl Blocked"
  by (induction n es rule: sock_read.induct) (auto simp: exhausted_def)

lemma sock_write_keeps_rd [simp]: "sock_write bs c = (r, c') \<Longrightarrow> rd c' = rd c"
  by (auto simp: sock_write_def split: list.splits wr_event.splits)

text \<open>The payloads of application frames that a stream contains somewhere.\<close>

definition app_payloads :: "platform \<Rightarrow> byte list \<Rightarrow> byte list set" where
  "app_payloads P bs = {pl. \<exists>sz cpu. length pl = unat sz \<and> sublist (sbn_header sz (SBN_APP_MSG P) cpu @ pl) bs}"

lemma app_payloads_mono: "sublist as bs \<Longrightarrow> app_payloads P as \<subseteq> app_payloads P bs"
  unfolding app_payloads_def using sublist_order.order_trans by blast

section \<open>Statements on the connection\<close>

text \<open>The frame \<open>SendSubToSbn\<close> writes, as it packs it.\<close>

definition sub_bytes :: "platform \<Rightarrow> ('i, 'k, 'u) packer \<Rightarrow> 'i \<Rightarrow> byte list" where
  "sub_bytes P K m =
     (let k3 = Pack_UInt32 K (Pack_UInt8 K (Pack_UInt16 K
            (Pack_Init K (replicate (SBN_PACKED_SUB_SZ P) 0) (SBN_PACKED_SUB_SZ P)) 54) (SBN_SUB_MSG P)) 2;
          k7 = Pack_Data K (Pack_MsgID K (Pack_UInt16 K (Pack_Data K k3 (SBN_IDENT P)) 1) m) [0, 0]
      in take (BufUsed K k7) (Pack_Buf K k7))"

lemma sub_bytes_frame:
  assumes "packer_ok K enc" and "7 + length (sub_payload P enc m 0 0) \<le> SBN_PACKED_SUB_SZ P"
  shows "sub_bytes P K m = sbn_header 54 (SBN_SUB_MSG P) 2 @ sub_payload P enc m 0 0"
  using packed_sub [OF assms(1), of "SBN_PACKED_SUB_SZ P" "replicate (SBN_PACKED_SUB_SZ P) 0" P m 0 0 "SBN_SUB_MSG P"] assms(2)
    take_overwrite_0 [of "sbn_header 54 (SBN_SUB_MSG P) 2 @ sub_payload P enc m 0 0" "replicate (SBN_PACKED_SUB_SZ P) 0"]
  by (simp add: sub_bytes_def Let_def packed_def)

lemma SendSub_writes:
  "\<exists>r ch. sock_write (sub_bytes P K m) (Sock c (sbn_client_sockfd c)) = (r, ch) \<and>
    (SendSubToSbn P K (SBN_SUB_MSG P) m \<lparr>Priority = 0, Reliability = 0\<rparr> c = set_chan (sbn_client_sockfd c) ch c \<or>
     (\<exists>fmt. SendSubToSbn P K (SBN_SUB_MSG P) m \<lparr>Priority = 0, Reliability = 0\<rparr> c =
       log_message fmt [] (set_chan (sbn_client_sockfd c) ch c)))"
  by (cases "sock_write (sub_bytes P K m) (Sock c (sbn_client_sockfd c))")
    (auto simp: SendSubToSbn_def sub_bytes_def write_message_def Let_def)

lemma quiet_after [simp]:
  "quiet N t c (log_message fmt args d) = quiet N t c d" "quiet N t c (printf fmt args d) = quiet N t c d"
  "quiet N t c (d\<lparr>Errno := e\<rparr>) = quiet N t c d" "quiet N t c (d\<lparr>HeapBlocks := n\<rparr>) = quiet N t c d"
  "quiet N t c (d\<lparr>Slept := k\<rparr>) = quiet N t c d" "quiet N t c (d\<lparr>continue_heartbeat := b\<rparr>) = quiet N t c d"
  "quiet N t c (d\<lparr>continue_receive_check := b\<rparr>) = quiet N t c d"
  by (simp_all add: quiet_def net_of_def rd_of_def)

lemma keeps_act:
  fixes I :: "nat \<Rightarrow> 'g \<Rightarrow> ring \<Rightarrow> bool" and waiter :: "nat \<Rightarrow> 'm::len word client \<Rightarrow> bool"
  assumes "\<And>c g. net_inv N g (net_of c) \<Longrightarrow> \<exists>a c'. f c = Inr (a, c') \<and> quiet N t c c'"
  shows "keeps q I N P waiter t h (act f)"
proof (rule keepsI)
  fix u :: "('m word, 'g) gworld" assume "anywhere q I N P t h u"
  then have "thread_safe q I N P waiter t
      (\<lambda>a v. anywhere q I N P t h v \<and> (\<exists>x. True \<and> (readers N = {t} \<longrightarrow> rd_of (mem v) = x)) \<and>
        (putters N = {t} \<longrightarrow> aux v = aux u)) (act f) u"
    by (rule safe_act) (use assms in \<open>fastforce split: sum.splits\<close>)+
  then show "thread_safe q I N P waiter t (\<lambda>_. anywhere q I N P t h) (act f) u"
    by (rule sh.safe_post) simp
qed

lemma safe_know:
  assumes "anywhere q I N P t h u" and "\<And>c g. net_inv N g (net_of c) \<Longrightarrow> \<exists>a. f c = Inr a \<and> A a"
  shows "thread_safe q I N P waiter t (\<lambda>a v. anywhere q I N P t h v \<and> A a) (get f) u"
proof -
  have "thread_safe q I N P waiter t
      (\<lambda>a v. anywhere q I N P t h v \<and> (\<exists>x. A a \<and> (readers N = {t} \<longrightarrow> rd_of (mem v) = x)) \<and>
        (putters N = {t} \<longrightarrow> aux v = aux u)) (get f) u"
    unfolding step_act by (rule safe_act [OF assms(1)]) (use assms(2) in \<open>fastforce split: sum.splits\<close>)+
  then show ?thesis by (rule sh.safe_post) simp
qed

lemma keeps_know [sbn_keeps]: "(\<And>c g. net_inv N g (net_of c) \<Longrightarrow> \<exists>a. f c = Inr a) \<Longrightarrow> keeps q I N P waiter t h (get f)"
  unfolding step_act by (rule keeps_act) (metis bindR_simps(2) quiet_output(4))

text \<open>
  What a thread that is the only reader knows of the stream: from \<open>u\<close> to \<open>v\<close> the bytes \<open>X\<close> have been
  read. Other threads do not change that, nor the auxiliary value when it is the only one that puts.
\<close>

definition has_read :: "'g net_rule \<Rightarrow> nat \<Rightarrow> i32 \<Rightarrow> ('m::len word, 'g) gworld \<Rightarrow> byte list \<Rightarrow> ('m word, 'g) gworld \<Rightarrow> bool" where
  "has_read N t fd u X v \<longleftrightarrow>
     (readers N = {t} \<longrightarrow> stream_data (rd_of (mem u) fd) = X @ stream_data (rd_of (mem v) fd)) \<and>
     (putters N = {t} \<longrightarrow> aux v = aux u)"

lemma has_read_trans:
  assumes "has_read N t fd u X v" and "has_read N t fd v Y x"
  shows "has_read N t fd u (X @ Y) x"
  unfolding has_read_def
proof (intro conjI impI)
  assume r: "readers N = {t}"
  have "stream_data (rd_of (mem u) fd) = X @ stream_data (rd_of (mem v) fd)"
    using assms(1) r unfolding has_read_def by blast
  moreover have "stream_data (rd_of (mem v) fd) = Y @ stream_data (rd_of (mem x) fd)"
    using assms(2) r unfolding has_read_def by blast
  ultimately show "stream_data (rd_of (mem u) fd) = (X @ Y) @ stream_data (rd_of (mem x) fd)" by simp
next
  assume p: "putters N = {t}"
  have "aux v = aux u" using assms(1) p unfolding has_read_def by blast
  moreover have "aux x = aux v" using assms(2) p unfolding has_read_def by blast
  ultimately show "aux x = aux u" by simp
qed

lemma has_read_skip: "has_read N t fd u X v \<Longrightarrow> has_read N t fd v [] x \<Longrightarrow> has_read N t fd u X x"
  using has_read_trans [of N t fd u X v "[]" x] by simp

lemma has_read_none: "other_steps q I N P t u v \<Longrightarrow> has_read N t fd u [] v"
  unfolding has_read_def other_steps_def by simp

lemma has_read_stable: "has_read N t fd s X u \<Longrightarrow> other_steps q I N P t u v \<Longrightarrow> has_read N t fd s X v"
  using has_read_trans [of N t fd s X u "[]" v] has_read_none [of q I N P t u v fd] by simp

text \<open>Where the stream stands between two frames, which is stable as well.\<close>

definition at_frame :: "'g net_rule \<Rightarrow> nat \<Rightarrow> i32 \<Rightarrow> ('m::len word, 'g) gworld \<Rightarrow> bool" where
  "at_frame N t fd u \<longleftrightarrow> (readers N = {t} \<longrightarrow> boundary N (stream_data (rd_of (mem u) fd)))"

abbreviation between :: "bool \<Rightarrow> (nat \<Rightarrow> 'g \<Rightarrow> ring \<Rightarrow> bool) \<Rightarrow> 'g net_rule \<Rightarrow> platform \<Rightarrow> nat \<Rightarrow> i32 \<Rightarrow>
    ('m::len word, 'g) gworld \<Rightarrow> bool" where
  "between q I N P t fd u \<equiv> anywhere q I N P t False u \<and> at_frame N t fd u"

lemma at_frame_stable: "at_frame N t fd u \<Longrightarrow> other_steps q I N P t u v \<Longrightarrow> at_frame N t fd v"
  by (simp add: at_frame_def other_steps_def)

lemma at_frame_unread: "at_frame N t fd u \<Longrightarrow> has_read N t fd u [] v \<Longrightarrow> at_frame N t fd v"
  by (simp add: at_frame_def has_read_def)

lemma safe_between_post:
  assumes "thread_safe q I (still N) P waiter t (\<lambda>_. anywhere q I N P t False) p u" and "at_frame N t fd u"
  shows "thread_safe q I N P waiter t (\<lambda>_. between q I N P t fd) p u"
  using safe_still [OF assms(1), of "\<lambda>x. boundary N (stream_data (x fd))"] assms(2) by (simp add: at_frame_def)

lemma safe_between:
  fixes u :: "('m::len word, 'g) gworld"
  assumes "keeps q I (still N) P waiter t False p" and "between q I N P t fd u"
  shows "thread_safe q I N P waiter t (\<lambda>_. between q I N P t fd) p u"
  by (rule safe_between_post [OF _ conjunct2 [OF assms(2)]])
    (use keepsD [OF assms(1), of u] assms(2) in simp)

lemma safe_unread:
  fixes u :: "('m::len word, 'g) gworld"
  assumes "keeps q I (stay N) P waiter t False p" and "anywhere q I N P t False u"
  shows "thread_safe q I N P waiter t (\<lambda>_ v. anywhere q I N P t False v \<and> has_read N t fd u [] v) p u"
proof (rule sh.safe_post [OF safe_stay [OF _ same_place_refl]])
  show "thread_safe q I (stay N) P waiter t (\<lambda>_. anywhere q I N P t False) p u"
    using keepsD [OF assms(1), of u] assms(2) by simp
qed (simp add: same_place_def has_read_def)

lemma safe_return:
  assumes "anywhere q I N P t h u" and "\<And>v. anywhere q I N P t h v \<Longrightarrow> has_read N t fd u [] v \<Longrightarrow> Q r v"
  shows "thread_safe q I N P waiter t Q (Done r) u"
  unfolding safe.simps
  by (intro allI impI, rule assms(2) [OF here_stable [OF assms(1)]], simp, assumption, rule has_read_none)

lemma header_bytes:
  assumes "packer_ok K enc" and "length b = 7"
  shows "\<exists>sz ty who. unpack_header K b 7 = (sz, ty, who) \<and> b = sbn_header sz ty who"
proof -
  obtain sz ty who where "b = sbn_header sz ty who @ drop 7 b" using any_header [of b] assms(2) by auto
  then have "b = sbn_header sz ty who" using assms(2) by simp
  then show ?thesis using unpack_sbn_header [OF assms(1), of sz ty who] by auto
qed

section \<open>Users of one connection\<close>

text \<open>
  An invariant of the connection: it fixes the descriptor and the identity of the process, and any read and the
  write of a frame keep it.
\<close>

locale net_invariant =
  fixes N :: "'g net_rule" and fd :: i32 and cpu :: u32 and frames :: "byte list set"
  assumes same_net: "net_inv N g n \<Longrightarrow> fst n = fd \<and> fst (snd n) = cpu"
    and read_law: "net_inv N g (fd, cpu, S) \<Longrightarrow> sock_read k (rd (S fd)) = Inr (r, es) \<Longrightarrow>
      net_inv N g (fd, cpu, S(fd := (S fd)\<lparr>rd := es\<rparr>))"
    and write_law: "net_inv N g (fd, cpu, S) \<Longrightarrow> bs \<in> frames \<Longrightarrow> sock_write bs (S fd) = (w, ch) \<Longrightarrow>
      net_inv N g (fd, cpu, S(fd := ch))"
begin

lemma known_net:
  assumes "net_inv N g (net_of c)"
  shows "sbn_client_sockfd c = fd" "sbn_client_cpuId c = cpu" "net_inv N g (fd, cpu, Sock c)"
  using same_net [OF assms] assms by (simp_all add: net_of_def)

lemma quiet_write:
  assumes "net_inv N g (net_of c)" and "bs \<in> frames" and "sock_write bs (Sock c fd) = (w, ch)"
  shows "quiet N t c (set_chan fd ch c)"
proof -
  have "net_of (set_chan fd ch c) = (fd, cpu, (Sock c)(fd := ch))"
    using known_net [OF assms(1)] by (simp add: net_of_def)
  moreover have "net_inv N g' (fd, cpu, (Sock c)(fd := ch))" if "net_inv N g' (net_of c)" for g'
    using write_law [OF known_net(3) [OF that] assms(2,3)] .
  ultimately show ?thesis
    using sock_write_keeps_rd [OF assms(3)] by (auto simp: quiet_def rd_of_def)
qed

lemma quiet_sent:
  "net_inv N g (net_of c) \<Longrightarrow> bs \<in> frames \<Longrightarrow> quiet N t c (set_chan fd (snd (sock_write bs (Sock c fd))) c)"
  by (cases "sock_write bs (Sock c fd)") (simp add: quiet_write)

lemma quiet_read:
  assumes "net_inv N g (net_of c)" and "sock_read k (rd (Sock c fd)) = Inr (r, es)" and "t \<in> readers N" and "\<not> no_read N"
  shows "quiet N t c (set_rd fd es c)"
proof -
  have "net_of (set_rd fd es c) = (fd, cpu, (Sock c)(fd := (Sock c fd)\<lparr>rd := es\<rparr>))"
    using known_net [OF assms(1)] by (simp add: net_of_def)
  moreover have "net_inv N g' (fd, cpu, (Sock c)(fd := (Sock c fd)\<lparr>rd := es\<rparr>))" if "net_inv N g' (net_of c)" for g'
    using read_law [OF known_net(3) [OF that] assms(2)] .
  ultimately show ?thesis using assms(3,4) by (simp add: quiet_def)
qed

lemma quiet_SendSub:
  assumes "net_inv N g (net_of c)" and "sub_bytes P K m \<in> frames"
  shows "quiet N t c (SendSubToSbn P K (SBN_SUB_MSG P) m \<lparr>Priority = 0, Reliability = 0\<rparr> c)"
  using SendSub_writes [of P K m c] quiet_write [OF assms] known_net [OF assms(1)] by auto

lemma keeps_heartbeat:
  assumes P: "platform_ok P" and K: "packer_ok K enc" and hb: "sbn_header 0 0xA0 2 \<in> frames"
  shows "keeps q I N P waiter t False (heartbeat_prog P K n)"
proof (induction n)
  case (Suc n)
  have send: "quiet N t c (snd (send_heartbeat P K f c))" if "net_inv N g (net_of c)" "f = fd" for f c g
    using quiet_sent [OF that(1) hb] that(2) by (simp add: send_heartbeat_frame [OF P K] case_prod_beta)
  have beat: "keeps q I N P waiter t False (bindP (get (\<lambda>c. Inr (sbn_client_sockfd c)))
      (\<lambda>f. modify (\<lambda>c. Inr (snd (send_heartbeat P K f c)))))"
    by (rule keeps_after [where A = "\<lambda>f. f = fd"], rule safe_know) (auto intro!: keeps_quiet send dest: known_net)
  show ?case
    unfolding heartbeat_prog.simps by (intro sbn_keeps Suc.IH beat) auto
qed (auto intro: sbn_keeps)

lemma keeps_SendMsg:
  assumes P: "platform_ok P" and K: "packer_ok K enc" and ok: "proper_call P (Send got_block g msg)"
    and frame: "app_frame P cpu (CFE_SBN_Client_GetTotalMsgLength P msg) msg \<in> frames"
  shows "keeps q I N P waiter t False (SendMsg_prog P K got_block g msg)"
proof (cases "unat (CFE_SBN_Client_GetTotalMsgLength P msg) + SBN_PACKED_HDR_SZ P \<le> CFE_SB_MAX_SB_MSG_SIZE P")
  case True
  let ?sz = "CFE_SBN_Client_GetTotalMsgLength P msg"
  have fits: "got_block" "unat ?sz \<le> length msg" using True ok by simp_all
  have "unat ?sz + 7 = 7 + unat ?sz" "length (take (unat ?sz) msg) = unat ?sz" using fits by simp_all
  note buf = SendMsg_buffer [OF K this, of g "SBN_APP_MSG P"]
  have sends: "\<exists>a c'. Inr (write_message f b c) = Inr (a, c') \<and> quiet N t c c'"
    if "net_inv N g (net_of c)" "f = fd" "b = app_frame P cpu ?sz msg" for f b g and c :: "'a word client"
    using quiet_sent [OF that(1) frame] that(2,3) by (simp add: write_message_def case_prod_beta)
  show ?thesis
    unfolding SendMsg_prog_def Let_def
    apply (rule keeps_if, rule keeps_Done, rule keeps_bind, rule keeps_quiet, simp add: fits)
    apply (rule keeps_after [where A = "\<lambda>x. x = cpu"], rule safe_know, assumption, simp add: known_net)
    apply (rule keeps_after [where A = "\<lambda>b. b = app_frame P cpu ?sz msg"], rule safe_know, assumption)
     apply (simp add: fits buf app_frame_def platform_okD(12) [OF P])
    apply (rule keeps_after [where A = "\<lambda>f. f = fd"], rule safe_know, assumption, simp add: known_net)
    apply (intro keeps_bind keeps_act sends keeps_if keeps_Done keeps_quiet; simp)
    done
next
  case False
  then show ?thesis by (simp add: SendMsg_prog_def Let_def keeps_Done)
qed

end

text \<open>
  The reader of the connection: what is left of the stream is at a boundary again after a whole frame has been read, where the payload
  of a frame is left unread, and when a read finds no data.
\<close>

locale framed_net = net_invariant N fd cpu frames
  for N :: "'g net_rule" and fd :: i32 and cpu :: u32 and frames :: "byte list set" +
  fixes P :: platform
  assumes reads_on: "\<not> no_read N"
    and whole_frame: "boundary N (sbn_header sz ty who @ pl @ rest) \<Longrightarrow> length pl = unat sz \<Longrightarrow> boundary N rest"
    and bad_frame: "boundary N (sbn_header sz ty who @ rest) \<Longrightarrow>
      CFE_SB_MAX_SB_MSG_SIZE P < unat sz \<or> \<not> control_type P ty \<and> ty \<noteq> SBN_APP_MSG P \<Longrightarrow> boundary N rest"
    and no_data: "net_inv N g (fd, cpu, S) \<Longrightarrow> 0 < k \<Longrightarrow> sock_read k (rd (S fd)) = Inr (r, es) \<Longrightarrow>
      (\<And>bs. r \<noteq> R_Bytes bs) \<Longrightarrow> boundary N (stream_data es)"
begin

lemma read_frame:
  assumes "at_frame N t fd s" and "has_read N t fd s (sbn_header sz ty who) u" and "has_read N t fd u pl v" and "length pl = unat sz"
  shows "at_frame N t fd v"
  using assms whole_frame unfolding at_frame_def has_read_def by auto

lemma skip_frame:
  assumes "at_frame N t fd s" and "has_read N t fd s (sbn_header sz ty who) u"
    and "CFE_SB_MAX_SB_MSG_SIZE P < unat sz \<or> \<not> control_type P ty \<and> ty \<noteq> SBN_APP_MSG P"
  shows "at_frame N t fd u"
  using assms bad_frame unfolding at_frame_def has_read_def by auto

lemma safe_read_step:
  fixes s :: "('m::len word, 'g) gworld"
  assumes s: "anywhere q I N P t False s" and t: "t \<in> readers N" and got: "got < n" "n \<le> length buf"
    and wait: "\<And>c. exhausted (rd (Sock c fd)) \<Longrightarrow> waiter t c"
  shows "thread_safe q I N P waiter t
    (\<lambda>(r, b) u. anywhere q I N P t False u \<and> length b = length buf \<and>
      (\<forall>bs. r = R_Bytes bs \<longrightarrow> 0 < length bs \<and> length bs \<le> n - got \<and> take (got + length bs) b = take got buf @ bs \<and>
        has_read N t fd s bs u) \<and> ((\<forall>bs. r \<noteq> R_Bytes bs) \<longrightarrow> at_frame N t fd u)) (read_step fd n buf got) s"
proof -
  let ?A = "\<lambda>(r, b) x. length b = length buf \<and> (\<forall>bs. r = R_Bytes bs \<longrightarrow> 0 < length bs \<and> length bs \<le> n - got \<and>
    take (got + length bs) b = take got buf @ bs \<and>
    (readers N = {t} \<longrightarrow> stream_data (rd_of (mem s) fd) = bs @ stream_data (x fd))) \<and>
    ((\<forall>bs. r \<noteq> R_Bytes bs) \<longrightarrow> boundary N (stream_data (x fd)))"
  let ?f = "\<lambda>c. bindR (sock_read (n - got) (rd (Sock c fd))) (\<lambda>(r, es).
     case r of R_Error e \<Rightarrow> Inr ((r, buf), (set_rd fd es c)\<lparr>Errno := e\<rparr>)
     | R_Eof \<Rightarrow> Inr ((r, buf), set_rd fd es c)
     | R_Bytes bs \<Rightarrow> bindR (mem_write buf got bs) (\<lambda>buf'. Inr ((r, buf'), set_rd fd es c)))"
  have "case ?f c of Inl e \<Rightarrow> e = Blocked \<and> \<not> False \<and> waiter t c | Inr (a, c') \<Rightarrow> quiet N t c c' \<and> ?A a (rd_of c')"
    if net: "net_inv N g (net_of c)" and same: "readers N = {t} \<Longrightarrow> rd_of c = rd_of (mem s)" for c :: "'m word client" and g
  proof (cases "sock_read (n - got) (rd (Sock c fd))")
    case (Inl e)
    then show ?thesis using sock_read_waits [OF Inl] wait by simp
  next
    case (Inr x)
    obtain r es where x: "sock_read (n - got) (rd (Sock c fd)) = Inr (r, es)" using Inr by (cases x) simp
    have qt: "quiet N t c (set_rd fd es c)" by (rule quiet_read [OF net x t reads_on])
    have dry: "boundary N (stream_data es)" if "\<And>bs. r \<noteq> R_Bytes bs" by (rule no_data [OF known_net(3) [OF net] _ x that]) (use got in simp)
    show ?thesis
    proof (cases r)
      case (R_Bytes bs)
      have bs: "0 < length bs" "length bs \<le> n - got" using sock_read_bytes x R_Bytes by blast+
      then have "mem_write buf got bs = Inr (overwrite buf got bs)" "got + length bs \<le> length buf"
        using got by (simp_all add: mem_write_def)
      moreover have "readers N = {t} \<Longrightarrow> stream_data (rd_of (mem s) fd) = bs @ stream_data es"
        using same sock_read_stream [OF x] by (simp add: R_Bytes rd_of_def fun_eq_iff)
      ultimately show ?thesis using x R_Bytes bs qt by (simp add: overwrite_def rd_of_def)
    qed (use x qt dry in \<open>simp_all add: rd_of_def\<close>)
  qed
  then have "thread_safe q I N P waiter t
    (\<lambda>a u. anywhere q I N P t False u \<and> (\<exists>x. ?A a x \<and> (readers N = {t} \<longrightarrow> rd_of (mem u) = x)) \<and>
      (putters N = {t} \<longrightarrow> aux u = aux s)) (act ?f) s"
    by (intro safe_act [OF s]) simp_all
  then show ?thesis unfolding read_step_def by (rule sh.safe_post) (auto simp: has_read_def at_frame_def)
qed

text \<open>The exact read: what it leaves in the buffer when it succeeds is what it took from the stream.\<close>

lemma safe_ReadBytes_steps:
  fixes s :: "('m::len word, 'g) gworld"
  assumes P: "platform_ok P" and t: "t \<in> readers N" and wait: "\<And>c. exhausted (rd (Sock c fd)) \<Longrightarrow> waiter t c"
  shows "got \<le> n \<Longrightarrow> n - got \<le> k \<Longrightarrow> n \<le> length buf \<Longrightarrow> anywhere q I N P t False s \<Longrightarrow>
    thread_safe q I N P waiter t
      (\<lambda>r u. anywhere q I N P t False u \<and> length (snd r) = length buf \<and>
        (fst r = CFE_SUCCESS P \<longrightarrow> (\<exists>X. take n (snd r) = take got buf @ X \<and> has_read N t fd s X u)) \<and> (fst r \<noteq> CFE_SUCCESS P \<longrightarrow> at_frame N t fd u))
      (ReadBytes_steps P fd n k buf got) s"
proof (induction k arbitrary: buf got s)
  case 0
  show ?case
    unfolding ReadBytes_steps.simps
    by (rule safe_return [OF 0(4)]) (use 0 in \<open>auto intro: exI [of _ "[]"]\<close>)
next
  case (Suc k)
  let ?Q = "\<lambda>r u. anywhere q I N P t False u \<and> length (snd r) = length buf \<and>
        (fst r = CFE_SUCCESS P \<longrightarrow> (\<exists>X. take n (snd r) = take got buf @ X \<and> has_read N t fd s X u)) \<and> (fst r \<noteq> CFE_SUCCESS P \<longrightarrow> at_frame N t fd u)"
  show ?case
  proof (cases "got = n")
    case True
    have "thread_safe q I N P waiter t ?Q (Done (CFE_SUCCESS P, buf)) s"
      by (rule safe_return [OF Suc.prems(4)]) (use True Suc.prems in \<open>auto intro: exI [of _ "[]"]\<close>)
    then show ?thesis using True by simp
  next
    case False
    then have got: "got < n" using Suc.prems by simp
    have failed: "thread_safe q I N P waiter t ?Q (bindP (modify (\<lambda>c. Inr (log_message fmt (args c) c))) (\<lambda>_. Done (st, b))) u"
      if "anywhere q I N P t False u \<and> at_frame N t fd u" "length b = length buf" "st \<noteq> CFE_SUCCESS P" for fmt args st b and u :: "('m word, 'g) gworld"
      by (rule sh.safe_bind [OF safe_between [OF keeps_quiet that(1)]], simp, rule safe_return [where fd = fd], erule conjunct1)
        (use that(2,3) at_frame_unread in auto)
    have ne: "CFE_SBN_CLIENT_PIPE_BROKEN_ERR \<noteq> CFE_SUCCESS P" "CFE_SBN_CLIENT_PIPE_CLOSED_ERR \<noteq> CFE_SUCCESS P"
      using platform_okD(1) [OF P] by simp_all
    have more: "thread_safe q I N P waiter t ?Q (ReadBytes_steps P fd n k b (got + length bs)) u"
      if u: "anywhere q I N P t False u" "length b = length buf" and bs: "0 < length bs" "length bs \<le> n - got"
        "take (got + length bs) b = take got buf @ bs" "has_read N t fd s bs u" for b bs and u :: "('m word, 'g) gworld"
    proof (rule sh.safe_post [OF Suc.IH])
      fix r and v :: "('m word, 'g) gworld"
      assume "anywhere q I N P t False v \<and> length (snd r) = length b \<and>
        (fst r = CFE_SUCCESS P \<longrightarrow> (\<exists>X. take n (snd r) = take (got + length bs) b @ X \<and> has_read N t fd u X v)) \<and> (fst r \<noteq> CFE_SUCCESS P \<longrightarrow> at_frame N t fd v)"
      then show "?Q r v" using u bs has_read_trans [OF bs(4)] by (cases v) (auto split: if_splits)
    next
      show "n - (got + length bs) \<le> k" using bs(1) got Suc.prems(2) by linarith
    qed (use u bs got Suc.prems in auto)
    show ?thesis
      using False unfolding ReadBytes_steps.simps
      apply simp
      apply (rule sh.safe_bind [OF safe_read_step [where waiter = waiter and t = t, OF Suc.prems(4) t got Suc.prems(3) wait]], assumption)
      apply (use ne in \<open>auto split: read_result.split intro!: failed more\<close>)
      done
  qed
qed

lemma safe_ReadBytes:
  fixes s :: "('m::len word, 'g) gworld"
  assumes P: "platform_ok P" and t: "t \<in> readers N" and s: "anywhere q I N P t False s"
    and wait: "\<And>c. exhausted (rd (Sock c fd)) \<Longrightarrow> waiter t c"
    and buf: "n \<le> length buf \<or> CFE_SB_MAX_SB_MSG_SIZE P < n"
  shows "thread_safe q I N P waiter t
      (\<lambda>r u. anywhere q I N P t False u \<and> (fst r = CFE_SUCCESS P \<longrightarrow>
        n \<le> CFE_SB_MAX_SB_MSG_SIZE P \<and> length (snd r) = length buf \<and> has_read N t fd s (take n (snd r)) u) \<and>
        (fst r \<noteq> CFE_SUCCESS P \<longrightarrow> at_frame N t fd u \<or> CFE_SB_MAX_SB_MSG_SIZE P < n \<and> has_read N t fd s [] u))
      (ReadBytes_prog P fd buf n) s"
proof (cases "CFE_SB_MAX_SB_MSG_SIZE P < n")
  case True
  have "thread_safe q I N P waiter t
      (\<lambda>r u. anywhere q I N P t False u \<and> (fst r = CFE_SUCCESS P \<longrightarrow>
        n \<le> CFE_SB_MAX_SB_MSG_SIZE P \<and> length (snd r) = length buf \<and> has_read N t fd s (take n (snd r)) u) \<and>
        (fst r \<noteq> CFE_SUCCESS P \<longrightarrow> at_frame N t fd u \<or> CFE_SB_MAX_SB_MSG_SIZE P < n \<and> has_read N t fd s [] u))
      (bindP (modify (\<lambda>c. Inr (log_message fmt args c))) (\<lambda>_. Done (CFE_SBN_CLIENT_BAD_ARGUMENT P, buf))) s" for fmt args
    by (rule sh.safe_bind [OF safe_unread [where fd = fd, OF keeps_quiet s]], simp, rule safe_return [where fd = fd], erule conjunct1)
      (use True platform_okD(1,3) [OF P] in \<open>auto intro: has_read_skip\<close>)
  then show ?thesis using True by (simp add: ReadBytes_prog_def)
next
  case False
  then have n: "n \<le> length buf" using buf by simp
  have "thread_safe q I N P waiter t (\<lambda>r u. anywhere q I N P t False u \<and> length (snd r) = length buf \<and>
      (fst r = CFE_SUCCESS P \<longrightarrow> (\<exists>X. take n (snd r) = take 0 buf @ X \<and> has_read N t fd s X u)) \<and> (fst r \<noteq> CFE_SUCCESS P \<longrightarrow> at_frame N t fd u))
      (ReadBytes_steps P fd n n buf 0) s"
    by (rule safe_ReadBytes_steps [where waiter = waiter and t = t, OF P t wait]) (use s n in auto)
  then show ?thesis
    unfolding ReadBytes_prog_def CFE_SBN_CLIENT_MAX_MESSAGE_SIZE_def if_not_P [OF False]
    by (rule sh.safe_post) (use False in \<open>auto split: if_splits\<close>)
qed

end

section \<open>Every thread\<close>

text \<open>
  Where the messages come from. A message that any thread may put at any time, and the payload of a frame that
  thread \<open>t\<close> has read: from connection \<open>n\<close> to \<open>n'\<close>, when it is the only reader.
\<close>

definition rds :: "net \<Rightarrow> i32 \<Rightarrow> rd_event list" where
  "rds n = (\<lambda>fd. rd (snd (snd n) fd))"

lemma rds_net_of [simp]: "rds (net_of c) = rd_of c"
  by (simp add: rds_def net_of_def rd_of_def)

definition puts :: "'g net_rule \<Rightarrow> ('g \<Rightarrow> (i32 \<Rightarrow> rd_event list) \<Rightarrow> byte list \<Rightarrow> 'g \<Rightarrow> bool) \<Rightarrow> nat \<Rightarrow> byte list \<Rightarrow> bool" where
  "puts N offered t bs \<longleftrightarrow> t \<in> putters N \<and>
     (\<forall>g n. net_inv N g n \<longrightarrow> (\<exists>g'. offered g (rds n) bs g' \<and> net_inv N g' n))"

definition supplies :: "'g net_rule \<Rightarrow> platform \<Rightarrow> i32 \<Rightarrow> ('g \<Rightarrow> (i32 \<Rightarrow> rd_event list) \<Rightarrow> byte list \<Rightarrow> 'g \<Rightarrow> bool) \<Rightarrow> nat \<Rightarrow> bool" where
  "supplies N P fd offered t \<longleftrightarrow> t \<in> putters N \<and>
     (\<forall>g n g' n' sz who pl. net_inv N g n \<and> net_inv N g' n' \<and> length pl = unat sz \<and>
        (readers N = {t} \<longrightarrow> boundary N (stream_data (rds n fd)) \<and>
           stream_data (rds n fd) = sbn_header sz (SBN_APP_MSG P) who @ pl @ stream_data (rds n' fd)) \<and>
        (putters N = {t} \<longrightarrow> g' = g) \<longrightarrow>
        (\<exists>h. offered g' (rds n') pl h \<and> net_inv N h n'))"

lemma puts_still: "puts (still N) = puts N"
  by (simp add: puts_def fun_eq_iff)

text \<open>Whatever the receive buffer holds, the message in it fits the pipes where its id may be subscribed to.\<close>

definition sorts :: "'m::len itself \<Rightarrow> platform \<Rightarrow> 'g net_rule \<Rightarrow> (nat \<Rightarrow> byte list \<Rightarrow> bool) \<Rightarrow> bool" where
  "sorts T P N fits \<longleftrightarrow> (\<forall>b n. length b = CFE_SB_MAX_SB_MSG_SIZE P \<and> n \<le> CFE_SB_MAX_SB_MSG_SIZE P \<longrightarrow>
     placed N fits (unat (CFE_SBN_Client_GetMsgId P b :: 'm word)) (take n b))"

lemma may_subscribe_still: "may_subscribe (still N) = may_subscribe N"
  by (simp add: may_subscribe_def may_name_def fun_eq_iff)

text \<open>Nothing is asked where nothing is known of the entries and every message fits.\<close>

lemma unrestricted [simp]:
  "placed N (\<lambda>_ _. True) m bs" "sorts T P N (\<lambda>_ _. True)" "(\<And>i k. entry_ok N i k) \<Longrightarrow> may_subscribe N m pid"
  by (simp_all add: placed_def sorts_def may_subscribe_def)

text \<open>The frames a call writes, and the states in which it may have to wait without the mutex.\<close>

fun writes :: "platform \<Rightarrow> ('m::len word, 'k, 'u) packer \<Rightarrow> u32 \<Rightarrow> 'm word call \<Rightarrow> byte list \<Rightarrow> bool" where
  "writes P K cpu (Subscribe m pid) bs \<longleftrightarrow> bs = sub_bytes P K m"
| "writes P K cpu (Send got_block g msg) bs \<longleftrightarrow> bs = app_frame P cpu (CFE_SBN_Client_GetTotalMsgLength P msg) msg"
| "writes P K cpu (Heartbeat_minder n) bs \<longleftrightarrow> bs = sbn_header 0 0xA0 2"
| "writes P K cpu x bs \<longleftrightarrow> False"

definition waits :: "bool \<Rightarrow> i32 \<Rightarrow> 'm::len word call \<Rightarrow> 'm word client \<Rightarrow> bool" where
  "waits sp fd x c \<longleftrightarrow> pends x \<and> \<not> sp \<and> (\<exists>i < 5. pipe_empty (PipeTbl c ! i)) \<or> reads x \<and> exhausted (rd (Sock c fd))"

text \<open>
  What a call of thread \<open>t\<close> has to satisfy for the interface: proper arguments, what it may put into a ring, enter into
  a subscription slot and write to the wire, and that thread \<open>t\<close> may read.
\<close>

definition admits :: "platform \<Rightarrow> ('g \<Rightarrow> (i32 \<Rightarrow> rd_event list) \<Rightarrow> byte list \<Rightarrow> 'g \<Rightarrow> bool) \<Rightarrow> (nat \<Rightarrow> byte list \<Rightarrow> bool) \<Rightarrow> 'g net_rule \<Rightarrow> i32 \<Rightarrow>
    u32 \<Rightarrow> byte list set \<Rightarrow> ('m::len word, 'k, 'u) packer \<Rightarrow> bool \<Rightarrow> bool \<Rightarrow> nat \<Rightarrow> 'm word call \<Rightarrow> bool" where
  "admits P offered fits N fd cpu frames K q sp t x \<longleftrightarrow> proper_call P x \<and> (q \<longrightarrow> \<not> deletes x \<and> \<not> (sp \<and> pends x)) \<and>
     (\<forall>bs. q \<and> offers x bs \<longrightarrow> puts N offered t bs) \<and> (\<forall>bs. writes P K cpu x bs \<longrightarrow> bs \<in> frames) \<and>
     (\<forall>m pid. q \<and> x = Subscribe m pid \<longrightarrow> may_subscribe N (unat m) pid) \<and>
     (\<forall>buf sz m. q \<and> x = Ingest buf sz m \<longrightarrow> placed N fits (unat m) (take (unat sz) buf)) \<and>
     (reads x \<longrightarrow> t \<in> readers N \<and> (q \<longrightarrow> supplies N P fd offered t \<and> sorts TYPE('m) P N fits))"

text \<open>Calls that do not read, and all of them.\<close>

locale call_invariant = ring_invariant T P offered fits I + net_invariant N fd cpu frames
  for T :: "'m::len itself" and P :: platform
    and offered :: "'g \<Rightarrow> (i32 \<Rightarrow> rd_event list) \<Rightarrow> byte list \<Rightarrow> 'g \<Rightarrow> bool" and fits :: "nat \<Rightarrow> byte list \<Rightarrow> bool" and I :: "nat \<Rightarrow> 'g \<Rightarrow> ring \<Rightarrow> bool"
    and N :: "'g net_rule" and fd :: i32 and cpu :: u32 and frames :: "byte list set" +
  assumes puts_on: "\<not> no_put N" and claim_law: "entry_ok N i (k, ms) \<Longrightarrow> entry_ok N i (of_nat i, ms)"
begin

lemma puts_may_put: "q \<longrightarrow> puts N offered t bs \<Longrightarrow> may_put q N t bs (u :: ('m word, 'g) gworld)"
  using puts_on unfolding may_put_def puts_def by (metis rds_net_of)

lemma keeps_ingest:
  assumes "unat sz \<le> length buf" and "unat sz \<le> CFE_SB_MAX_SB_MSG_SIZE P" and "q \<longrightarrow> puts N offered t (take (unat sz) buf)"
    and "q \<longrightarrow> placed N fits (unat m) (take (unat sz) buf)"
  shows "keeps q I N P waiter t False (ingest_prog t buf sz m :: ('m word world, reply) prog)"
  by (rule keepsI, rule safe_ingest [OF assms(1,2)], assumption, rule puts_may_put [OF assms(3)], rule assms(4))

lemma keeps_call:
  assumes P: "platform_ok P" and K: "packer_ok (K :: ('m word, 'k, 'u) packer) enc" and call: "admits P offered fits N fd cpu frames K q sp t x"
    and "\<not> reads x" and wait: "\<And>c. waits sp fd x c \<Longrightarrow> waiter t c"
  shows "keeps q I N P waiter t False (call_prog sp P K t x)"
proof (cases x)
  case (Subscribe m pid)
  then show ?thesis
    using call by (auto simp: admits_def intro!: keeps_Subscribe quiet_SendSub)
next
  case (Receive w ptr pid TimeOut)
  then show ?thesis
    using call wait by (auto simp: admits_def waits_def intro!: keeps_RcvMsg P)
next
  case (Ingest buf sz m)
  then show ?thesis
    using call by (auto simp: admits_def intro!: keeps_ingest)
next
  case (Send got_block g msg)
  then show ?thesis
    using call keeps_SendMsg [OF P K, of got_block g msg] by (simp add: admits_def)
next
  case (Heartbeat_minder n)
  then show ?thesis
    using call by (auto simp: admits_def intro!: keeps_heartbeat [OF P K])
qed (use call \<open>\<not> reads x\<close> claim_law in \<open>auto simp: admits_def intro!: sbn_keeps\<close>)

text \<open>They keep the place in the stream.\<close>

lemma still_calls: "call_invariant TYPE('m) P offered fits I (still N) fd cpu frames"
  by (intro call_invariant.intro ring_invariant_axioms net_invariant.intro call_invariant_axioms.intro)
    (simp_all add: same_net read_law write_law puts_on claim_law)

end

locale thread_invariant = call_invariant T P offered fits I N fd cpu frames + framed_net N fd cpu frames P
  for T :: "'m::len itself" and P :: platform
    and offered :: "'g \<Rightarrow> (i32 \<Rightarrow> rd_event list) \<Rightarrow> byte list \<Rightarrow> 'g \<Rightarrow> bool" and fits :: "nat \<Rightarrow> byte list \<Rightarrow> bool" and I :: "nat \<Rightarrow> 'g \<Rightarrow> ring \<Rightarrow> bool"
    and N :: "'g net_rule" and fd :: i32 and cpu :: u32 and frames :: "byte list set"
begin

lemma read_may_put:
  assumes "between q I N P t fd (u :: ('m word, 'g) gworld)" and "has_read N t fd u (sbn_header sz (SBN_APP_MSG P) who @ pl) v"
    and "length pl = unat sz" and "q \<longrightarrow> supplies N P fd offered t"
  shows "may_put q N t pl v"
  unfolding may_put_def
proof (intro impI conjI allI)
  assume q: q
  show "t \<in> putters N" using assms(4) q by (simp add: supplies_def)
  show "\<not> no_put N" by (rule puts_on)
  fix c w g assume here: "same_place N t v ((c, w), g) \<and> net_inv N g (net_of c)"
  have "net_inv N (aux u) (net_of (mem u))" by (rule here_net [OF conjunct1 [OF assms(1)]])
  moreover have "readers N = {t} \<longrightarrow> boundary N (stream_data (rds (net_of (mem u)) fd)) \<and> stream_data (rds (net_of (mem u)) fd) =
      sbn_header sz (SBN_APP_MSG P) who @ pl @ stream_data (rds (net_of c) fd)"
    using here assms(1,2) by (simp add: has_read_def same_place_def at_frame_def)
  moreover have "putters N = {t} \<longrightarrow> g = aux u"
    using here assms(2) by (simp add: has_read_def same_place_def)
  ultimately show "\<exists>g'. offered g (rd_of c) pl g' \<and> net_inv N g' (net_of c)"
    using assms(3,4) q here unfolding supplies_def by (metis rds_net_of)
qed

lemma safe_ingest_app_message:
  fixes s u :: "('m word, 'g) gworld"
  assumes P: "platform_ok P" and t: "t \<in> readers N" and wait: "\<And>c :: 'm word client. exhausted (rd (Sock c fd)) \<Longrightarrow> waiter t c"
    and src: "q \<Longrightarrow> supplies N P fd offered t \<and> sorts TYPE('m) P N fits"
    and s: "between q I N P t fd s" and u: "anywhere q I N P t False u" "has_read N t fd s (sbn_header sz (SBN_APP_MSG P) who) u"
  shows "thread_safe q I N P waiter t (\<lambda>_. between q I N P t fd) (ingest_app_message_prog P t g fd sz) u"
proof -
  let ?buf = "uninit g (CFE_SB_MAX_SB_MSG_SIZE P)"
  have buf: "unat sz \<le> length ?buf \<or> CFE_SB_MAX_SB_MSG_SIZE P < unat sz" by auto
  have deliver: "thread_safe q I N P waiter t (\<lambda>_. between q I N P t fd) (ingest_prog t b sz m) v"
    if "anywhere q I N P t False v" "unat sz \<le> CFE_SB_MAX_SB_MSG_SIZE P" "length b = length ?buf"
      "has_read N t fd u (take (unat sz) b) v" "m = CFE_SBN_Client_GetMsgId P b" for b and m :: "'m word" and v :: "('m word, 'g) gworld"
  proof (rule safe_between_post)
    show "at_frame N t fd v" by (rule read_frame [OF conjunct2 [OF s] u(2) that(4)]) (use that(2,3) in simp)
    have placed: "q \<longrightarrow> placed N fits (unat m) (take (unat sz) b)" using src that(2,3,5) by (simp add: sorts_def)
    have "may_put q (still N) t (take (unat sz) b) v"
      using read_may_put [OF s has_read_trans [OF u(2) that(4)]] that(2,3) src by (simp add: may_put_def same_place_def)
    then show "thread_safe q I (still N) P waiter t (\<lambda>_. anywhere q I N P t False) (ingest_prog t b sz m) v"
      using safe_ingest [where N = "still N" and s = v and q = q and t = t and sz = sz and buf = b and m = m] that placed by simp
  qed
  have failed: "thread_safe q I N P waiter t (\<lambda>_. between q I N P t fd)
      (bindP (modify (\<lambda>c. Inr (log_message fmt args c))) (\<lambda>_. Done Ingested)) v"
    if "anywhere q I N P t False v" "at_frame N t fd v \<or> CFE_SB_MAX_SB_MSG_SIZE P < unat sz \<and> has_read N t fd u [] v"
    for fmt args and v :: "('m word, 'g) gworld"
  proof (rule safe_between [OF keeps_bind [OF keeps_quiet keeps_Done]])
    show "between q I N P t fd v"
      using that at_frame_unread skip_frame [OF conjunct2 [OF s] has_read_skip [OF u(2)]] by blast
  qed simp
  show ?thesis
    unfolding ingest_app_message_prog_def CFE_SBN_CLIENT_MAX_MESSAGE_SIZE_def
    apply (rule sh.safe_bind [OF safe_ReadBytes [where waiter = waiter and t = t, OF P t u(1) wait buf]], assumption)
    apply (auto intro!: deliver failed)
    done
qed

lemma between_done: "between q I N P t fd u \<Longrightarrow> thread_safe q I N P waiter t (\<lambda>_. between q I N P t fd) (Done r) u"
  unfolding safe.simps using here_stable at_frame_stable by (metis zero_less_numeral)

lemma safe_said:
  fixes u :: "('m word, 'g) gworld"
  assumes "between q I N P t fd u"
  shows "thread_safe q I N P waiter t (\<lambda>_. between q I N P t fd) (bindP (modify (\<lambda>c. Inr (log_message fmt args c))) (\<lambda>_. Done r)) u"
    "thread_safe q I N P waiter t (\<lambda>_. between q I N P t fd) (bindP (modify (\<lambda>c. Inr (printf fmt args c))) (\<lambda>_. Done r)) u"
  by (rule safe_between [OF keeps_bind [OF keeps_quiet keeps_Done] assms], simp)+

lemma safe_control:
  fixes s u :: "('m word, 'g) gworld"
  assumes P: "platform_ok P" and t: "t \<in> readers N" and wait: "\<And>c :: 'm word client. exhausted (rd (Sock c fd)) \<Longrightarrow> waiter t c"
    and s: "between q I N P t fd s" and u: "anywhere q I N P t False u" "has_read N t fd s (sbn_header sz ty who) u"
  shows "thread_safe q I N P waiter t (\<lambda>_. between q I N P t fd)
    (bindP (ReadBytes_prog P fd (uninit h (CFE_SB_MAX_SB_MSG_SIZE P)) (unat sz)) (\<lambda>(st, msg). Done st)) u"
proof (rule sh.safe_bind [OF safe_ReadBytes [where waiter = waiter and t = t and n = "unat sz", OF P t u(1) wait]], assumption)
  let ?h = "uninit h (CFE_SB_MAX_SB_MSG_SIZE P)"
  show "unat sz \<le> length ?h \<or> CFE_SB_MAX_SB_MSG_SIZE P < unat sz" by auto
  fix r and v :: "('m word, 'g) gworld"
  assume v: "anywhere q I N P t False v \<and> (fst r = CFE_SUCCESS P \<longrightarrow>
      unat sz \<le> CFE_SB_MAX_SB_MSG_SIZE P \<and> length (snd r) = length ?h \<and> has_read N t fd u (take (unat sz) (snd r)) v) \<and>
    (fst r \<noteq> CFE_SUCCESS P \<longrightarrow> at_frame N t fd v \<or> CFE_SB_MAX_SB_MSG_SIZE P < unat sz \<and> has_read N t fd u [] v)"
  have "at_frame N t fd v"
  proof (cases "fst r = CFE_SUCCESS P")
    case True
    then show ?thesis using v read_frame [OF conjunct2 [OF s] u(2), of "take (unat sz) (snd r)" v] by simp
  next
    case False
    then show ?thesis using v skip_frame [OF conjunct2 [OF s] has_read_skip [OF u(2)]] by blast
  qed
  then show "thread_safe q I N P waiter t (\<lambda>_. between q I N P t fd) (case r of (st, msg) \<Rightarrow> Done st) v"
    using v by (cases r) (simp add: between_done del: safe.simps)
qed

lemma safe_recv_msg:
  fixes s :: "('m word, 'g) gworld"
  assumes P: "platform_ok P" and K: "packer_ok (K :: ('m word, 'k, 'u) packer) enc" and t: "t \<in> readers N" and wait: "\<And>c :: 'm word client. exhausted (rd (Sock c fd)) \<Longrightarrow> waiter t c"
    and src: "q \<Longrightarrow> supplies N P fd offered t \<and> sorts TYPE('m) P N fits" and s: "between q I N P t fd s"
  shows "thread_safe q I N P waiter t (\<lambda>_. between q I N P t fd) (recv_msg_prog P K t g h fd) s"
proof -
  let ?S = "\<lambda>p. thread_safe q I N P waiter t (\<lambda>_. between q I N P t fd) p"
  have hdr: "SBN_PACKED_HDR_SZ P = 7" by (rule platform_okD(12) [OF P])
  have room: "7 \<le> length (uninit g 7) \<or> CFE_SB_MAX_SB_MSG_SIZE P < 7" by simp
  have control: "?S (bindP (ReadBytes_prog P fd (uninit h (CFE_SB_MAX_SB_MSG_SIZE P)) (unat sz)) (\<lambda>(st, msg). Done st)) u"
    if "anywhere q I N P t False u" "has_read N t fd s (sbn_header sz ty who) u"
    for sz ty who and u :: "('m word, 'g) gworld"
    by (rule safe_control [where waiter = waiter and t = t, OF P t wait s that])
  have app: "?S (bindP (ingest_app_message_prog P t h fd sz) (\<lambda>_. Done (CFE_SUCCESS P))) u"
    if "anywhere q I N P t False u" "has_read N t fd s (sbn_header sz (SBN_APP_MSG P) who) u"
    for sz who and u :: "('m word, 'g) gworld"
    by (rule sh.safe_bind [OF safe_ingest_app_message [where waiter = waiter and t = t, OF P t wait src s that] between_done])
  show ?thesis
    unfolding recv_msg_prog_def CFE_SBN_CLIENT_MAX_MESSAGE_SIZE_def hdr
  proof (rule sh.safe_bind [OF safe_ReadBytes [where waiter = waiter and t = t, OF P t conjunct1 [OF s] wait room]], assumption)
    fix r and u :: "('m word, 'g) gworld"
    assume u: "anywhere q I N P t False u \<and> (fst r = CFE_SUCCESS P \<longrightarrow>
        7 \<le> CFE_SB_MAX_SB_MSG_SIZE P \<and> length (snd r) = length (uninit g 7) \<and> has_read N t fd s (take 7 (snd r)) u) \<and>
      (fst r \<noteq> CFE_SUCCESS P \<longrightarrow> at_frame N t fd u \<or> CFE_SB_MAX_SB_MSG_SIZE P < 7 \<and> has_read N t fd s [] u)"
    obtain st b where r: "r = (st, b)" by (cases r)
    show "?S (case r of (status, hdr) \<Rightarrow>
         if status \<noteq> CFE_SUCCESS P then
           bindP (modify (\<lambda>c. Inr (printf
               (''SBN_CLIENT: recv_msg call to CFE_SBN_Client_ReadBytes returned status = %d'' @ [CHR 0x0A])
               [Int_arg status] c))) (\<lambda>_. Done status)
         else
           let (MsgSz, MsgType, CpuID) = unpack_header K hdr 7 in
           if MsgType = SBN_NO_MSG P \<or> MsgType = SBN_SUB_MSG P \<or> MsgType = SBN_UNSUB_MSG P \<or>
              MsgType = SBN_PROTO_MSG P \<or> MsgType = SBN_HEARTBEAT_MSG
           then bindP (ReadBytes_prog P fd (uninit h (CFE_SB_MAX_SB_MSG_SIZE P)) (unat MsgSz)) (\<lambda>(st, msg). Done st)
           else if MsgType = SBN_APP_MSG P
           then bindP (ingest_app_message_prog P t h fd MsgSz) (\<lambda>_. Done (CFE_SUCCESS P))
           else bindP (modify (\<lambda>c. Inr (log_message (''SBN_CLIENT: ERROR - recv_msg unrecognized type %d'' @ [CHR 0x0A])
               [Int_arg (ucast MsgType)] c))) (\<lambda>_. Done (CFE_EVS_ERROR P))) u"
    proof (cases "st = CFE_SUCCESS P")
      case True
      then have len: "length b = 7" using u r by simp
      then have "has_read N t fd s b u" using True u r by simp
      then obtain sz ty who where h: "unpack_header K b 7 = (sz, ty, who)" "has_read N t fd s (sbn_header sz ty who) u"
        using header_bytes [OF K len] by metis
      consider "control_type P ty" | "ty = SBN_APP_MSG P" | "\<not> control_type P ty" "ty \<noteq> SBN_APP_MSG P" by blast
      then show ?thesis
      proof cases
        case 1
        then show ?thesis using r True h(1) control [OF conjunct1 [OF u] h(2)] by (simp add: control_type_def)
      next
        case 2
        then have "?S (bindP (ingest_app_message_prog P t h fd sz) (\<lambda>_. Done (CFE_SUCCESS P))) u"
          by (intro app [OF conjunct1 [OF u]]) (use h(2) in simp)
        then show ?thesis using r True h(1) 2 app_type_not_control [OF P] by (simp add: control_type_def)
      next
        case 3
        then have "between q I N P t fd u" using u skip_frame [OF conjunct2 [OF s] h(2)] by blast
        then show ?thesis using r True h(1) 3 by (simp add: control_type_def safe_said)
      qed
    next
      case False
      then have "between q I N P t fd u" using u r s at_frame_unread [of N t fd s u] by auto
      then show ?thesis using False r by (simp add: safe_said)
    qed
  qed
qed

lemma safe_receive:
  fixes s :: "('m word, 'g) gworld"
  assumes P: "platform_ok P" and K: "packer_ok (K :: ('m word, 'k, 'u) packer) enc" and t: "t \<in> readers N" and wait: "\<And>c :: 'm word client. exhausted (rd (Sock c fd)) \<Longrightarrow> waiter t c"
    and src: "q \<Longrightarrow> supplies N P fd offered t \<and> sorts TYPE('m) P N fits"
  shows "between q I N P t fd s \<Longrightarrow>
    thread_safe q I N P waiter t (\<lambda>_. between q I N P t fd) (receive_prog P K t g h n k count) s"
proof (induction n arbitrary: k count s)
  case (Suc n)
  let ?S = "\<lambda>p. thread_safe q I N P waiter t (\<lambda>_. between q I N P t fd) p"
  have recv: "?S (recv_msg_prog P K t (g k) (h k) fd) u" if "between q I N P t fd u" for u :: "('m word, 'g) gworld"
    by (rule safe_recv_msg [where waiter = waiter and t = t, OF P K t wait src that])
  have counts: "keeps q I (still N) P waiter t False
      (if status \<noteq> CFE_SUCCESS P
       then bindP (modify (\<lambda>c. Inr (log_message (''Receive message returned error 0x%08X'' @ [CHR 0x0A])
              [Int_arg status] c))) (\<lambda>_. Done (count + 1))
       else Done 0 :: ('m word world, i32) prog)" for status
    by (auto intro!: keeps_bind keeps_quiet keeps_Done)
  have stops: "keeps q I (still N) P waiter t False
      (if b then sequence [modify (\<lambda>c. Inr (c\<lparr>continue_heartbeat := False\<rparr>)),
              modify (\<lambda>c. Inr (c\<lparr>continue_receive_check := False\<rparr>))]
       else (Done () :: ('m word world, unit) prog))" for b
    by (auto intro!: keeps_bind keeps_quiet keeps_Done)
  have fd: "thread_safe q I N P waiter t (\<lambda>f v. (anywhere q I N P t False v \<and> f = fd) \<and>
      (readers N = {t} \<longrightarrow> boundary N (stream_data (rd_of (mem v) fd)))) (get (\<lambda>c. Inr (sbn_client_sockfd c))) u"
    if "between q I N P t fd u" for u :: "('m word, 'g) gworld"
  proof (rule safe_still)
    have "thread_safe q I (still N) P waiter t (\<lambda>f v. anywhere q I (still N) P t False v \<and> f = fd)
        (get (\<lambda>c. Inr (sbn_client_sockfd c))) u"
      by (rule safe_know) (use that known_net in auto)
    then show "thread_safe q I (still N) P waiter t (\<lambda>f v. anywhere q I N P t False v \<and> f = fd)
        (get (\<lambda>c. Inr (sbn_client_sockfd c))) u" by simp
  qed (use that in \<open>simp add: at_frame_def\<close>)
  show ?case
    unfolding receive_prog.simps
    apply (rule sh.safe_bind [OF safe_between [OF keeps_know Suc.prems]], simp)
    apply (rule safe_if, erule between_done, rule sh.safe_bind [OF fd], assumption)
    apply (elim conjE, hypsubst, rule sh.safe_bind [OF recv], simp add: at_frame_def)
    apply (rule sh.safe_bind [OF safe_between [OF counts]], assumption)
    apply (rule sh.safe_bind [OF safe_between [OF stops]], assumption)
    apply (erule Suc.IH)
    done
qed (simp only: receive_prog.simps, rule between_done)

text \<open>Every call keeps the interface and the place at a boundary, and so does a thread of them.\<close>

lemma safe_call:
  fixes s :: "('m word, 'g) gworld"
  assumes P: "platform_ok P" and K: "packer_ok (K :: ('m word, 'k, 'u) packer) enc" and call: "admits P offered fits N fd cpu frames K q sp t x"
    and wait: "\<And>c. waits sp fd x c \<Longrightarrow> waiter t c" and s: "between q I N P t fd s"
  shows "thread_safe q I N P waiter t (\<lambda>_. between q I N P t fd) (call_prog sp P K t x) s"
proof (cases "reads x")
  case True
  then obtain n g h where x: "x = Receive_minder n g h" by (cases x) simp_all
  have "thread_safe q I N P waiter t (\<lambda>_. between q I N P t fd) (receive_prog P K t g h n 0 0) s"
    by (rule safe_receive [OF P K _ _ _ s]) (use call wait x in \<open>auto simp: admits_def waits_def\<close>)
  then show ?thesis by (simp add: x)
next
  case False
  have "admits P offered fits (still N) fd cpu frames K q sp t x"
    using call False by (simp add: admits_def puts_still may_subscribe_still)
  from call_invariant.keeps_call [where waiter = waiter and t = t, OF still_calls P K this False wait] show ?thesis
    using safe_between [OF _ s] by blast
qed

lemma safe_thread:
  fixes s :: "('m word, 'g) gworld"
  assumes P: "platform_ok P" and K: "packer_ok (K :: ('m word, 'k, 'u) packer) enc"
  shows "\<forall>x \<in> set xs. admits P offered fits N fd cpu frames K q sp t x \<Longrightarrow> (\<And>x c. x \<in> set xs \<Longrightarrow> waits sp fd x c \<Longrightarrow> waiter t c) \<Longrightarrow>
    between q I N P t fd s \<Longrightarrow> thread_safe q I N P waiter t (\<lambda>_. between q I N P t fd) (thread sp P K t xs) s"
proof (induction xs arbitrary: s)
  case Nil
  then show ?case by (simp add: between_done del: safe.simps)
next
  case (Cons x xs)
  have "thread_safe q I N P waiter t (\<lambda>_. between q I N P t fd) (call_prog sp P K t x) s"
    by (rule safe_call [OF P K]) (use Cons.prems in auto)
  moreover have "thread_safe q I N P waiter t (\<lambda>_. between q I N P t fd) (bindP (thread sp P K t xs) (\<lambda>rs. Done (r # rs))) v"
    if "between q I N P t fd v" for r v
    by (rule sh.safe_bind [OF Cons.IH [OF _ _ that] between_done]) (use Cons.prems in auto)
  ultimately show ?case by (auto intro: sh.safe_bind)
qed

end

end
