(* ===== verification/SBN_Streams.thy ===== *)
theory SBN_Streams
  imports SBN_Network
begin

text \<open>
  Five invariants of the connection, as interpretations of \<open>framed_net\<close>: nothing but the descriptor and the
  identity; the rest of a stream of bytes; the same with what was left at the last delivery; a stream of
  well-formed frames with the frames left at the last delivery; and the frames written.
\<close>

section \<open>Streams of bytes\<close>

text \<open>The connection stays the same one, and nothing more is known of it; there is no auxiliary value.\<close>

definition any_net :: "i32 \<Rightarrow> u32 \<Rightarrow> unit net_rule" where
  "any_net fd cpu = \<lparr>net_inv = (\<lambda>_ (f, k, S). f = fd \<and> k = cpu), readers = UNIV, putters = UNIV, no_read = False, no_put = False, boundary = \<lambda>_. True,
     entry_ok = \<lambda>_ _. True\<rparr>"

interpretation one_net: framed_net "any_net fd cpu" fd cpu UNIV P for fd cpu P
  by unfold_locales (auto simp: any_net_def)

text \<open>Messages of a set may be put at any time.\<close>

definition from_set :: "byte list set \<Rightarrow> unit \<Rightarrow> (i32 \<Rightarrow> rd_event list) \<Rightarrow> byte list \<Rightarrow> unit \<Rightarrow> bool" where
  "from_set A g x bs g' \<longleftrightarrow> bs \<in> A"

text \<open>Thread \<open>r\<close> is the only reader, and what is left of the stream is the end of \<open>st\<close>.\<close>

lemma sock_read_suffix: "sock_read n es = Inr (r, es') \<Longrightarrow> suffix (stream_data es') (stream_data es)"
  by (drule sock_read_stream) (auto simp: suffix_def)

definition stream_net :: "i32 \<Rightarrow> u32 \<Rightarrow> nat \<Rightarrow> byte list \<Rightarrow> unit net_rule" where
  "stream_net fd cpu r st = \<lparr>net_inv = (\<lambda>_ (f, k, S). f = fd \<and> k = cpu \<and> suffix (stream_data (rd (S fd))) st),
     readers = {r}, putters = UNIV, no_read = False, no_put = False, boundary = \<lambda>_. True,
     entry_ok = \<lambda>_ _. True\<rparr>"

interpretation stream: framed_net "stream_net fd cpu r st" fd cpu UNIV P for fd cpu r st P
  by unfold_locales (auto simp: stream_net_def intro: suffix_order.order_trans [OF sock_read_suffix])

lemma stream_supplies: "supplies (stream_net fd cpu r st) P fd (from_set (A \<union> app_payloads P st)) r"
  unfolding supplies_def
proof (intro conjI allI impI)
  fix g n g' n' sz who pl
  assume a: "net_inv (stream_net fd cpu r st) g n \<and> net_inv (stream_net fd cpu r st) g' n' \<and> length pl = unat (sz :: u16) \<and>
    (readers (stream_net fd cpu r st) = {r} \<longrightarrow> boundary (stream_net fd cpu r st) (stream_data (rds n fd)) \<and>
      stream_data (rds n fd) = sbn_header sz (SBN_APP_MSG P) who @ pl @ stream_data (rds n' fd)) \<and>
    (putters (stream_net fd cpu r st) = {r} \<longrightarrow> g' = g)"
  then have st: "suffix (stream_data (rds n fd)) st"
    "stream_data (rds n fd) = sbn_header sz (SBN_APP_MSG P) who @ pl @ stream_data (rds n' fd)"
    by (auto simp: stream_net_def rds_def)
  then have "sublist (sbn_header sz (SBN_APP_MSG P) who @ pl) (stream_data (rds n fd))"
    by (metis append_assoc sublist_append_rightI)
  then have "pl \<in> app_payloads P (stream_data (rds n fd))"
    using a unfolding app_payloads_def by blast
  then have "pl \<in> app_payloads P st"
    using app_payloads_mono [OF suffix_imp_sublist [OF st(1)]] by blast
  then show "\<exists>h. from_set (A \<union> app_payloads P st) g' (rds n') pl h \<and> net_inv (stream_net fd cpu r st) h n'"
    using a by (auto simp: from_set_def)
qed (simp add: stream_net_def)

text \<open>
  Thread \<open>r\<close> is also the only one that puts: the auxiliary value is what was left of the stream when it put last,
  and it puts the payload of an application frame that has come since, up to what is left now.
\<close>

definition order_net :: "i32 \<Rightarrow> u32 \<Rightarrow> nat \<Rightarrow> byte list \<Rightarrow> byte list net_rule" where
  "order_net fd cpu r st = \<lparr>net_inv = (\<lambda>g (f, k, S). f = fd \<and> k = cpu \<and> suffix (stream_data (rd (S fd))) g \<and> suffix g st),
     readers = {r}, putters = {r}, no_read = False, no_put = False, boundary = \<lambda>_. True,
     entry_ok = \<lambda>_ _. True\<rparr>"

interpretation order: framed_net "order_net fd cpu r st" fd cpu UNIV P for fd cpu r st P
  by unfold_locales (auto simp: order_net_def intro: suffix_order.order_trans [OF sock_read_suffix])

definition framed :: "platform \<Rightarrow> i32 \<Rightarrow> byte list \<Rightarrow> (i32 \<Rightarrow> rd_event list) \<Rightarrow> byte list \<Rightarrow> byte list \<Rightarrow> bool" where
  "framed P fd g x bs g' \<longleftrightarrow> g' = stream_data (x fd) \<and>
     (\<exists>gap sz who. length bs = unat sz \<and> g = gap @ sbn_header sz (SBN_APP_MSG P) who @ bs @ g')"

lemma order_supplies: "supplies (order_net fd cpu r st) P fd (framed P fd) r"
  unfolding supplies_def
proof (intro conjI allI impI)
  fix g n g' n' sz who pl
  assume a: "net_inv (order_net fd cpu r st) g n \<and> net_inv (order_net fd cpu r st) g' n' \<and> length pl = unat (sz :: u16) \<and>
    (readers (order_net fd cpu r st) = {r} \<longrightarrow> boundary (order_net fd cpu r st) (stream_data (rds n fd)) \<and>
      stream_data (rds n fd) = sbn_header sz (SBN_APP_MSG P) who @ pl @ stream_data (rds n' fd)) \<and>
    (putters (order_net fd cpu r st) = {r} \<longrightarrow> g' = g)"
  then have n: "suffix (stream_data (rds n fd)) g" "suffix g st" "g' = g"
    "stream_data (rds n fd) = sbn_header sz (SBN_APP_MSG P) who @ pl @ stream_data (rds n' fd)"
    by (auto simp: order_net_def rds_def)
  obtain gap where gap: "g = gap @ sbn_header sz (SBN_APP_MSG P) who @ pl @ stream_data (rds n' fd)"
    using n(1,4) by (auto simp: suffix_def)
  then have "framed P fd g' (rds n') pl (stream_data (rds n' fd))" using a n(3) by (auto simp: framed_def)
  moreover have "suffix (stream_data (rds n' fd)) g" using gap by (simp add: suffix_def)
  then have "net_inv (order_net fd cpu r st) (stream_data (rds n' fd)) n'"
    using a suffix_order.order_trans [OF _ n(2)] by (auto simp: order_net_def rds_def)
  ultimately show "\<exists>h. framed P fd g' (rds n') pl h \<and> net_inv (order_net fd cpu r st) h n'" by blast
qed (simp add: order_net_def)

lemma no_boundary [simp]: "boundary (any_net fd cpu) bs" "boundary (stream_net fd cpu r st) bs" "boundary (order_net fd cpu r st) bs"
  "entry_ok (any_net fd cpu) i k" "entry_ok (stream_net fd cpu r st) i k" "entry_ok (order_net fd cpu r st) i k"
  by (simp_all add: any_net_def stream_net_def order_net_def)

section \<open>Streams of frames\<close>

text \<open>A connection on which reads do not fail and nothing comes after the close, and the bytes of frames.\<close>

fun tidy :: "rd_event list \<Rightarrow> bool" where
  "tidy [] \<longleftrightarrow> True"
| "tidy (Rd_Data bs # es) \<longleftrightarrow> tidy es"
| "tidy (Rd_Error e # es) \<longleftrightarrow> False"
| "tidy (Rd_Close # es) \<longleftrightarrow> stream_data es = [] \<and> tidy es"

lemma sock_read_tidy:
  "sock_read n es = Inr (r, es') \<Longrightarrow> tidy es \<Longrightarrow> tidy es' \<and> (0 < n \<and> (\<forall>bs. r \<noteq> R_Bytes bs) \<longrightarrow> stream_data es' = [])"
  by (induction n es rule: sock_read.induct) (auto split: if_splits)

definition wire_bytes :: "frame list \<Rightarrow> byte list" where
  "wire_bytes fs = concat (map frame_bytes fs)"

lemma wire_bytes_simps [simp]:
  "wire_bytes [] = []" "wire_bytes (f # fs) = frame_bytes f @ wire_bytes fs" "wire_bytes (fs @ gs) = wire_bytes fs @ wire_bytes gs"
  by (simp_all add: wire_bytes_def)

lemma sbn_header_inj:
  assumes "sbn_header sz ty cpu = sbn_header sz' ty' cpu'"
  shows "sz = sz' \<and> ty = ty' \<and> cpu = cpu'"
proof -
  have "unpack_header list_packer (sbn_header sz ty cpu) 7 = (sz', ty', cpu')"
    unfolding assms by (rule unpack_sbn_header [OF packer_ok_list_packer])
  then show ?thesis by (simp add: unpack_sbn_header [OF packer_ok_list_packer])
qed

text \<open>A header at the front of frames is the header of the first.\<close>

lemma wire_bytes_header:
  assumes "wire_bytes fs = sbn_header sz ty who @ xs" and "\<forall>f \<in> set fs. frame_ok P f"
  obtains bs gs where "fs = (ty, who, bs) # gs" "unat sz = length bs" "xs = bs @ wire_bytes gs"
proof (cases fs)
  case Nil
  then show ?thesis using arg_cong [OF assms(1), of length] by simp
next
  case (Cons f gs)
  obtain ty' who' bs where f: "f = (ty', who', bs)" by (cases f)
  have "sbn_header (of_nat (length bs)) ty' who' = sbn_header sz ty who" "bs @ wire_bytes gs = xs"
    using assms(1) by (simp_all add: Cons f append_eq_append_conv)
  moreover have "unat (of_nat (length bs) :: u16) = length bs"
    using assms(2) frame_sz [of bs] by (simp add: Cons f frame_ok_def)
  ultimately show ?thesis using that Cons f sbn_header_inj by metis
qed

lemma wire_bytes_shorter:
  assumes "suffix gs fs" and "suffix hs fs" and "length (wire_bytes hs) \<le> length (wire_bytes gs)"
  shows "suffix hs gs"
proof (rule ccontr)
  assume "\<not> suffix hs gs"
  then have "suffix gs hs" using suffix_same_cases [OF assms(1,2)] by blast
  then obtain f zs where "hs = (zs @ [f]) @ gs" using \<open>\<not> suffix hs gs\<close> by (metis append_Nil rev_exhaust suffix_def)
  then show False using assms(3) by (cases f) simp
qed

text \<open>
  Thread \<open>r\<close> is the only one that reads and the only one that puts: the auxiliary value is the frames that were left
  when it put last, and it puts the payload of an application frame among them. An entry has its own index as id or none, and the
  subscriptions of entry \<open>i\<close> are in \<open>A i\<close>.
\<close>

definition frame_net :: "platform \<Rightarrow> (nat \<Rightarrow> 'm::len word set) \<Rightarrow> i32 \<Rightarrow> u32 \<Rightarrow> nat \<Rightarrow> frame list \<Rightarrow> frame list net_rule" where
  "frame_net P A fd cpu r fs = \<lparr>net_inv = (\<lambda>g (f, k, S). f = fd \<and> k = cpu \<and> tidy (rd (S fd)) \<and>
       suffix (stream_data (rd (S fd))) (wire_bytes g) \<and> suffix g fs),
     readers = {r}, putters = {r}, no_read = False, no_put = False,
     boundary = (\<lambda>bs. \<exists>gs. suffix gs fs \<and> (\<forall>f \<in> set gs. frame_ok P f) \<and> bs = wire_bytes gs),
     entry_ok = (\<lambda>i (k, ms). (k = of_nat i \<or> k = CFE_SBN_CLIENT_INVALID_PIPE) \<and> set ms \<subseteq> unat ` A i)\<rparr>"

interpretation framewise: framed_net "frame_net P A fd cpu r fs" fd cpu UNIV P for P fd cpu r fs
    and A :: "nat \<Rightarrow> 'm::len word set"
proof unfold_locales
  fix sz ty who pl rest
  assume "boundary (frame_net P A fd cpu r fs) (sbn_header sz ty who @ pl @ rest)" and len: "length pl = unat sz"
  then obtain gs where gs: "suffix gs fs" "\<forall>f \<in> set gs. frame_ok P f" "wire_bytes gs = sbn_header sz ty who @ pl @ rest"
    by (auto simp: frame_net_def)
  obtain bs hs where h: "gs = (ty, who, bs) # hs" "unat sz = length bs" "pl @ rest = bs @ wire_bytes hs"
    by (rule wire_bytes_header [OF gs(3,2)])
  then have "rest = wire_bytes hs" "suffix hs fs" using len gs(1) by (auto simp: append_eq_append_conv intro: suffix_ConsD)
  then show "boundary (frame_net P A fd cpu r fs) rest" using gs(2) h(1) by (auto simp: frame_net_def)
next
  fix sz ty who rest
  assume "boundary (frame_net P A fd cpu r fs) (sbn_header sz ty who @ rest)"
    and bad: "CFE_SB_MAX_SB_MSG_SIZE P < unat sz \<or> \<not> control_type P ty \<and> ty \<noteq> SBN_APP_MSG P"
  then obtain gs where gs: "\<forall>f \<in> set gs. frame_ok P f" "wire_bytes gs = sbn_header sz ty who @ rest"
    by (auto simp: frame_net_def)
  obtain bs hs where "gs = (ty, who, bs) # hs" "unat sz = length bs" by (rule wire_bytes_header [OF gs(2,1)])
  then have "False" using gs(1) bad by (auto simp: frame_ok_def)
  then show "boundary (frame_net P A fd cpu r fs) rest" ..
next
  fix g S k w es
  assume "net_inv (frame_net P A fd cpu r fs) g (fd, cpu, S)" "0 < k" "sock_read k (rd (S fd)) = Inr (w, es)" "\<And>bs. w \<noteq> R_Bytes bs"
  then have "stream_data es = []" using sock_read_tidy [of k "rd (S fd)" w es] by (auto simp: frame_net_def)
  then show "boundary (frame_net P A fd cpu r fs) (stream_data es)" by (auto simp: frame_net_def intro: exI [of _ "[]"])
qed (auto simp: frame_net_def sock_read_tidy intro: suffix_order.order_trans [OF sock_read_suffix])

text \<open>The payloads of the application frames, and what the receive thread puts.\<close>

definition app_messages :: "platform \<Rightarrow> frame list \<Rightarrow> byte list list" where
  "app_messages P fs = map (\<lambda>(ty, who, bs). bs) (filter (\<lambda>(ty, who, bs). ty = SBN_APP_MSG P) fs)"

lemma app_messages_simps [simp]:
  "app_messages P [] = []"
  "app_messages P ((ty, who, bs) # fs) = (if ty = SBN_APP_MSG P then bs # app_messages P fs else app_messages P fs)"
  "app_messages P (fs @ gs) = app_messages P fs @ app_messages P gs"
  by (simp_all add: app_messages_def)

text \<open>What fits pipe \<open>i\<close>: a message whose id, with some content of the buffer behind it, is in \<open>A i\<close>.\<close>

definition id_among :: "platform \<Rightarrow> (nat \<Rightarrow> 'm::len word set) \<Rightarrow> nat \<Rightarrow> byte list \<Rightarrow> bool" where
  "id_among P A i bs \<longleftrightarrow> (\<exists>h. app_msgid P h bs \<in> A i)"

lemma uninit_nth: "length b = n \<Longrightarrow> uninit (\<lambda>k. b ! k) n = b"
  by (auto simp: uninit_def map_nth)

lemma frame_sorts:
  fixes A :: "nat \<Rightarrow> 'm::len word set" and T :: "'m itself"
  shows "sorts T P (frame_net P A fd cpu r fs) (id_among P A)"
  unfolding sorts_def placed_def
proof (intro allI impI)
  fix b :: "byte list" and n i
  assume b: "length b = CFE_SB_MAX_SB_MSG_SIZE P \<and> n \<le> CFE_SB_MAX_SB_MSG_SIZE P"
    and "i < 5" and "topic (frame_net P A fd cpu r fs) i (unat (CFE_SBN_Client_GetMsgId P b :: 'm word))"
  then have "unat (CFE_SBN_Client_GetMsgId P b :: 'm word) \<in> unat ` A i" by (auto simp: topic_def frame_net_def)
  then have "CFE_SBN_Client_GetMsgId P b \<in> A i" by (auto simp: word_unat_eq_iff [symmetric])
  moreover have "overwrite b 0 (take n b) = b" using b by (simp add: overwrite_def)
  then have "app_msgid P (\<lambda>k. b ! k) (take n b) = (CFE_SBN_Client_GetMsgId P b :: 'm word)"
    using b by (simp add: app_msgid_def uninit_nth)
  ultimately show "id_among P A i (take n b)" unfolding id_among_def by metis
qed

text \<open>A subscription on pipe \<open>pid\<close> may enter the ids of \<open>A pid\<close>.\<close>

lemma frame_may_subscribe:
  fixes A :: "nat \<Rightarrow> 'm::len word set"
  assumes "m \<in> A (unat pid)" and "unat pid < 5"
  shows "may_subscribe (frame_net P A fd cpu r fs) (unat m) pid"
  unfolding may_subscribe_def
proof (intro allI impI)
  fix i k ms j
  assume i: "i < 5" "may_name (frame_net P A fd cpu r fs) pid i" and e: "entry_ok (frame_net P A fd cpu r fs) i (k, ms)"
  have "pid = of_nat i \<or> pid = CFE_SBN_CLIENT_INVALID_PIPE \<or> i = unat pid" using i(2) by (auto simp: may_name_def frame_net_def)
  then have "i = unat pid" using small_index_u8(1) [OF i(1)] assms(2) by auto
  then have "unat m \<in> unat ` A i" using assms(1) by blast
  moreover have "set ms \<subseteq> unat ` A i" "k = of_nat i \<or> k = CFE_SBN_CLIENT_INVALID_PIPE" using e by (simp_all add: frame_net_def)
  ultimately show "entry_ok (frame_net P A fd cpu r fs) i (k, ms[j := unat m])"
    using set_update_subset_insert [of ms j "unat m"] by (auto simp: frame_net_def)
qed

definition next_frame :: "platform \<Rightarrow> frame list \<Rightarrow> (i32 \<Rightarrow> rd_event list) \<Rightarrow> byte list \<Rightarrow> frame list \<Rightarrow> bool" where
  "next_frame P g x bs g' \<longleftrightarrow> (\<exists>skipped who. g = skipped @ (SBN_APP_MSG P, who, bs) # g')"

lemma frame_supplies: "supplies (frame_net P A fd cpu r fs) P fd (next_frame P) r"
  unfolding supplies_def
proof (intro conjI allI impI)
  fix g n g' n' sz who pl
  assume a: "net_inv (frame_net P A fd cpu r fs) g n \<and> net_inv (frame_net P A fd cpu r fs) g' n' \<and> length pl = unat (sz :: u16) \<and>
    (readers (frame_net P A fd cpu r fs) = {r} \<longrightarrow> boundary (frame_net P A fd cpu r fs) (stream_data (rds n fd)) \<and>
      stream_data (rds n fd) = sbn_header sz (SBN_APP_MSG P) who @ pl @ stream_data (rds n' fd)) \<and>
    (putters (frame_net P A fd cpu r fs) = {r} \<longrightarrow> g' = g)"
  then have n: "suffix (stream_data (rds n fd)) (wire_bytes g)" "suffix g fs" "g' = g" "length pl = unat sz"
    "stream_data (rds n fd) = sbn_header sz (SBN_APP_MSG P) who @ pl @ stream_data (rds n' fd)"
    by (auto simp: frame_net_def rds_def)
  obtain gs where gs: "suffix gs fs" "\<forall>f \<in> set gs. frame_ok P f" "stream_data (rds n fd) = wire_bytes gs"
    using a by (auto simp: frame_net_def)
  have w: "wire_bytes gs = sbn_header sz (SBN_APP_MSG P) who @ pl @ stream_data (rds n' fd)" using n(5) gs(3) by simp
  obtain bs hs where h: "gs = (SBN_APP_MSG P, who, bs) # hs" "unat sz = length bs" "pl @ stream_data (rds n' fd) = bs @ wire_bytes hs"
    by (rule wire_bytes_header [OF w gs(2)])
  then have pl: "pl = bs" "stream_data (rds n' fd) = wire_bytes hs" using n(4) by (simp_all add: append_eq_append_conv)
  have "length (wire_bytes gs) \<le> length (wire_bytes g)" using n(1) gs(3) suffix_length_le by metis
  then have "suffix gs g" by (rule wire_bytes_shorter [OF n(2) gs(1)])
  then have "next_frame P g' (rds n') pl hs" using h(1) pl(1) n(3) by (auto simp: next_frame_def suffix_def)
  moreover have "net_inv (frame_net P A fd cpu r fs) hs n'"
    using a pl(2) suffix_ConsD [of _ hs fs] gs(1) h(1) by (auto simp: frame_net_def rds_def)
  ultimately show "\<exists>h. next_frame P g' (rds n') pl h \<and> net_inv (frame_net P A fd cpu r fs) h n'" by blast
qed (simp add: frame_net_def)

section \<open>Frames written\<close>

text \<open>The kernel takes every write in full, and what has been sent since \<open>before\<close> is a sequence of frames.\<close>

definition wire_net :: "i32 \<Rightarrow> u32 \<Rightarrow> byte list set \<Rightarrow> byte list \<Rightarrow> unit net_rule" where
  "wire_net fd cpu frames before = \<lparr>net_inv = (\<lambda>_ (f, k, S). f = fd \<and> k = cpu \<and> wr (S fd) = [] \<and>
     (\<exists>fs. set fs \<subseteq> frames \<and> sent (S fd) = before @ concat fs)), readers = UNIV, putters = UNIV, no_read = False, no_put = False, boundary = \<lambda>_. True,
     entry_ok = \<lambda>_ _. True\<rparr>"

interpretation wire: framed_net "wire_net fd cpu frames before" fd cpu frames P for fd cpu frames before P
proof unfold_locales
  fix g S bs w ch
  assume "net_inv (wire_net fd cpu frames before) g (fd, cpu, S)" and bs: "bs \<in> frames" and w: "sock_write bs (S fd) = (w, ch)"
  then obtain fs where "wr (S fd) = []" "set fs \<subseteq> frames" "sent (S fd) = before @ concat fs"
    by (auto simp: wire_net_def)
  then have "wr ch = []" "set (fs @ [bs]) \<subseteq> frames" "sent ch = before @ concat (fs @ [bs])"
    using w bs by (auto simp: sock_write_def)
  then show "net_inv (wire_net fd cpu frames before) g (fd, cpu, S(fd := ch))"
    unfolding wire_net_def by (auto intro!: exI [of _ "fs @ [bs]"])
qed (auto simp: wire_net_def)

lemma no_boundary_wire [simp]: "boundary (wire_net fd cpu frames before) bs" "entry_ok (wire_net fd cpu frames before) i k"
  by (simp_all add: wire_net_def)

end
