(* ===== verification/SBN_Crews.thy ===== *)
theory SBN_Crews
  imports SBN_Streams
begin

text \<open>
  Threads that make calls, and the invariants of the rings the properties rest on: none, the history of a queue, and that
  history with its place in the stream, byte by byte and frame by frame. Each is put together with an invariant
  of the connection to an interface of the threads.
\<close>

section \<open>Crews\<close>

text \<open>Threads with the calls each of them makes, one after the other.\<close>

definition crew :: "bool \<Rightarrow> platform \<Rightarrow> ('m::len word, 'k, 'u) packer \<Rightarrow> 'm word call list list \<Rightarrow>
    ('m word world, reply list) prog list" where
  "crew sp P K css = map (\<lambda>t. thread sp P K t (css ! t)) [0..<length css]"

definition waiters :: "bool \<Rightarrow> i32 \<Rightarrow> 'm::len word call list list \<Rightarrow> nat \<Rightarrow> 'm word client \<Rightarrow> bool" where
  "waiters sp fd css t c \<longleftrightarrow> t < length css \<and> (\<exists>x \<in> set (css ! t). waits sp fd x c)"

context thread_invariant
begin

lemma crew_safe:
  fixes c :: "'m word client"
  assumes "platform_ok P" and "packer_ok K enc" and "\<forall>t < length css. \<forall>x \<in> set (css ! t). admits P offered fits N fd cpu frames K q sp t x"
    and "shared_ok q I N P ((c, None), g)" and "boundary N (stream_data (rd (Sock c fd)))"
  shows "sh.all_safe q I N P (waiters sp fd css) (\<lambda>t. between q I N P t fd) (crew sp P K css) ((c, None), g)"
proof -
  have "thread_safe q I N P (waiters sp fd css) t (\<lambda>_. between q I N P t fd) (thread sp P K t (css ! t)) ((c, None), g)"
    if t: "t < length css" for t
  proof (rule safe_thread [OF assms(1,2)])
    show "between q I N P t fd ((c, None), g)" using assms(4,5) by (simp add: here_def at_frame_def rd_of_def)
    show "\<forall>x \<in> set (css ! t). admits P offered fits N fd cpu frames K q sp t x" using assms(3) t by blast
    show "waiters sp fd css t d" if "x \<in> set (css ! t)" "waits sp fd x d" for x d
      using that t by (auto simp: waiters_def)
  qed
  then show ?thesis by (simp add: sh.all_safe_def crew_def)
qed

end

lemma crew_run:
  assumes safe: "sh.all_safe q I N P waiter Q ps (s, g)" and run: "isteps (ps, s) (ps', s')" and ok: "shared_ok q I N P (s, g)"
    and "snd s = None"
  shows "\<exists>h. sh.all_safe q I N P waiter Q ps' (s', h) \<and> shared_ok q I N P (s', h) \<and> length ps' = length ps \<and>
    (\<forall>t. snd s' = Some t \<longrightarrow> t < length ps)"
proof -
  have "\<exists>h. sh.all_safe q I N P waiter Q ps' (s', h) \<and> length ps' = length ps \<and>
      (shared_ok q I N P (s', h) \<and> (\<forall>t. owner (s', h) = Some t \<longrightarrow> t < length ps))"
    by (rule sh.all_safe_run [OF _ run safe, where J = "\<lambda>u. shared_ok q I N P u \<and> (\<forall>t. owner u = Some t \<longrightarrow> t < length ps)"])
      (use assms(3,4) in \<open>auto simp: own_step_def split: if_splits\<close>)
  then show ?thesis by auto
qed

lemma crew_run_plain:
  assumes "sh.all_safe q I N P waiter Q ps (s, ())" and "isteps (ps, s) (ps', s')" and "shared_ok q I N P (s, ())" and "snd s = None"
  shows "sh.all_safe q I N P waiter Q ps' (s', ()) \<and> shared_ok q I N P (s', ()) \<and> length ps' = length ps \<and>
    (\<forall>t. snd s' = Some t \<longrightarrow> t < length ps)"
  using crew_run [OF assms] by simp

section \<open>Four invariants of the rings\<close>

text \<open>No invariant at all, and the history of a queue: what was unread, what was stored and what was taken.\<close>

interpretation plain_ring: ring_invariant T P "from_set UNIV" "\<lambda>_ _. True" "\<lambda>_ _ _. True" for T :: "'m::len itself" and P
  by unfold_locales simp_all

definition ring_unread :: "ring \<Rightarrow> byte list list" where
  "ring_unread = (\<lambda>(r, n, ms). map (\<lambda>k. ms ! ((unat r + k) mod 32)) [1..<unat n])"

lemma ring_unread_of: "ring_unread (ring_of p) = pipe_unread p"
  by (simp add: ring_unread_def ring_of_def pipe_unread_def pipe_slot_def)

lemma ring_unread_put:
  assumes "pipe_wf P p" "ring_ok p" "\<not> pipe_full p" and "length bs \<le> CFE_SB_MAX_SB_MSG_SIZE P" and "pipe_put bs p = Inr r"
  obtains m where "ring_unread (ring_of r) = ring_unread (ring_of p) @ [m]" "slot_carries m bs"
  using pipe_put_law [of P p bs] assms by (auto simp: pipe_inv_def ring_unread_of)

lemma ring_unread_get:
  assumes "ring_ok p" and "\<not> pipe_empty p"
  obtains m where "ring_unread (ring_of p) = m # ring_unread (ring_of (pipe_get p))"
proof -
  have "pipe_unread p \<noteq> []" using assms by (simp add: pipe_empty_iff)
  then show ?thesis using that pipe_get_effect(2) [OF assms(1)] by (simp add: ring_unread_of) (metis list.collapse)
qed

definition queue_history :: "byte list set \<Rightarrow> (nat \<Rightarrow> byte list list) \<Rightarrow> nat \<Rightarrow> unit \<Rightarrow> ring \<Rightarrow> bool" where
  "queue_history offered before i g x \<longleftrightarrow> (\<exists>acc del stored. set acc \<subseteq> offered \<and> list_all2 slot_carries stored acc \<and>
     before i @ stored = del @ ring_unread x)"

interpretation queue_ring: ring_invariant T P "from_set offered" "\<lambda>_ _. True" "queue_history offered before" for T :: "'m::len itself" and P offered before
proof unfold_locales
  fix i g bs g' x and p r :: "'m word pipe"
  assume hist: "queue_history offered before i g (ring_of p)" and p: "pipe_wf P p" "ring_ok p" "\<not> pipe_full p"
    and bs: "from_set offered g x bs g'" "length bs \<le> CFE_SB_MAX_SB_MSG_SIZE P" and r: "pipe_put bs p = Inr r"
  obtain acc del stored where h: "set acc \<subseteq> offered" "list_all2 slot_carries stored acc"
    "before i @ stored = del @ ring_unread (ring_of p)"
    using hist by (auto simp: queue_history_def)
  obtain m where "ring_unread (ring_of r) = ring_unread (ring_of p) @ [m]" "slot_carries m bs"
    by (rule ring_unread_put [OF p bs(2) r])
  then have "set (acc @ [bs]) \<subseteq> offered" "list_all2 slot_carries (stored @ [m]) (acc @ [bs])"
    "before i @ (stored @ [m]) = del @ ring_unread (ring_of r)"
    using h bs(1) by (simp_all add: list_all2_appendI from_set_def)
  then show "queue_history offered before i g' (ring_of r)"
    unfolding queue_history_def by blast
next
  fix i g and p :: "'m word pipe"
  assume hist: "queue_history offered before i g (ring_of p)" and p: "ring_ok p" "\<not> pipe_empty p"
  obtain m where "ring_unread (ring_of p) = m # ring_unread (ring_of (pipe_get p))" by (rule ring_unread_get [OF p])
  then show "queue_history offered before i g (ring_of (pipe_get p))"
    using hist unfolding queue_history_def by (metis append.assoc append_Cons append_Nil)
qed (simp add: queue_history_def)

text \<open>
  The same history with the place in the stream: what was stored are the payloads of application frames one after the other
  in the part \<open>read\<close> of the stream before the auxiliary value.
\<close>

fun in_order :: "platform \<Rightarrow> byte list list \<Rightarrow> byte list \<Rightarrow> bool" where
  "in_order P [] bs \<longleftrightarrow> True"
| "in_order P (pl # pls) bs \<longleftrightarrow> (\<exists>gap sz who rest. length pl = unat sz \<and>
     bs = gap @ sbn_header sz (SBN_APP_MSG P) who @ pl @ rest \<and> in_order P pls rest)"

lemma in_order_later: "in_order P pls bs \<Longrightarrow> in_order P pls (gap @ bs)"
  by (cases pls) (auto, metis append_assoc)

lemma in_order_append: "in_order P pls bs \<Longrightarrow> in_order P pls' cs \<Longrightarrow> in_order P (pls @ pls') (bs @ cs)"
proof (induction pls arbitrary: bs)
  case (Cons pl pls)
  then obtain gap sz who rest where "length pl = unat sz" "bs = gap @ sbn_header sz (SBN_APP_MSG P) who @ pl @ rest"
    "in_order P pls rest" by auto
  then show ?case using Cons.IH [of rest] Cons.prems(2) by auto
qed (simp add: in_order_later)

lemma in_order_more: "in_order P pls bs \<Longrightarrow> in_order P pls (bs @ cs)"
  using in_order_append [of P pls bs "[]" cs] by simp

definition order_history :: "platform \<Rightarrow> byte list \<Rightarrow> (nat \<Rightarrow> byte list list) \<Rightarrow> nat \<Rightarrow> byte list \<Rightarrow> ring \<Rightarrow> bool" where
  "order_history P st before i g x \<longleftrightarrow> (\<exists>acc del stored done_part. st = done_part @ g \<and> in_order P acc done_part \<and>
     list_all2 slot_carries stored acc \<and> before i @ stored = del @ ring_unread x)"

interpretation order_ring: ring_invariant T P "framed P fd" "\<lambda>_ _. True" "order_history P st before" for T :: "'m::len itself" and P fd st before
proof unfold_locales
  fix i g bs g' x and p r :: "'m word pipe"
  assume hist: "order_history P st before i g (ring_of p)" and p: "pipe_wf P p" "ring_ok p" "\<not> pipe_full p"
    and bs: "framed P fd g x bs g'" "length bs \<le> CFE_SB_MAX_SB_MSG_SIZE P" and r: "pipe_put bs p = Inr r"
  obtain acc del stored rd where h: "st = rd @ g" "in_order P acc rd" "list_all2 slot_carries stored acc"
    "before i @ stored = del @ ring_unread (ring_of p)"
    using hist by (auto simp: order_history_def)
  obtain gap sz who where f: "length bs = unat sz" "g = gap @ sbn_header sz (SBN_APP_MSG P) who @ bs @ g'"
    using bs(1) by (auto simp: framed_def)
  have "in_order P [bs] (gap @ sbn_header sz (SBN_APP_MSG P) who @ bs)"
    unfolding in_order.simps
    by (rule exI [of _ gap], rule exI [of _ sz], rule exI [of _ who], rule exI [of _ "[]"]) (simp add: f(1))
  then have "in_order P (acc @ [bs]) (rd @ (gap @ sbn_header sz (SBN_APP_MSG P) who @ bs))"
    by (rule in_order_append [OF h(2)])
  moreover obtain m where "ring_unread (ring_of r) = ring_unread (ring_of p) @ [m]" "slot_carries m bs"
    by (rule ring_unread_put [OF p bs(2) r])
  then have "list_all2 slot_carries (stored @ [m]) (acc @ [bs])" "before i @ (stored @ [m]) = del @ ring_unread (ring_of r)"
    using h by (simp_all add: list_all2_appendI)
  moreover have "st = (rd @ (gap @ sbn_header sz (SBN_APP_MSG P) who @ bs)) @ g'" using h(1) f(2) by simp
  ultimately show "order_history P st before i g' (ring_of r)"
    unfolding order_history_def by blast
next
  fix i g y x bs g'
  assume "order_history P st before i g y" and bs: "framed P fd g x bs g'"
  then obtain acc del stored rd where h: "st = rd @ g" "in_order P acc rd" "list_all2 slot_carries stored acc"
    "before i @ stored = del @ ring_unread y"
    by (auto simp: order_history_def)
  obtain skipped where "g = skipped @ g'" using bs by (auto simp: framed_def)
  then have "st = (rd @ skipped) @ g'" "in_order P acc (rd @ skipped)" using h(1,2) in_order_more by auto
  then show "order_history P st before i g' y" unfolding order_history_def using h(3,4) by blast
next
  fix i g and p :: "'m word pipe"
  assume hist: "order_history P st before i g (ring_of p)" and p: "ring_ok p" "\<not> pipe_empty p"
  obtain m where "ring_unread (ring_of p) = m # ring_unread (ring_of (pipe_get p))" by (rule ring_unread_get [OF p])
  then show "order_history P st before i g (ring_of (pipe_get p))"
    using hist unfolding order_history_def by (metis append.assoc append_Cons append_Nil)
qed

text \<open>The same for a stream of frames: the auxiliary value is the frames that were left.\<close>

definition frame_history :: "platform \<Rightarrow> (nat \<Rightarrow> 'm::len word set) \<Rightarrow> frame list \<Rightarrow> (nat \<Rightarrow> byte list list) \<Rightarrow> nat \<Rightarrow> frame list \<Rightarrow> ring \<Rightarrow> bool" where
  "frame_history P A fs before i g x \<longleftrightarrow> (\<exists>acc del stored seen. fs = seen @ g \<and> subseq acc (app_messages P seen) \<and>
     (\<forall>bs \<in> set acc. id_among P A i bs) \<and> list_all2 slot_carries stored acc \<and> before i @ stored = del @ ring_unread x)"

interpretation frame_ring: ring_invariant T P "next_frame P" "id_among P A" "frame_history P A fs before"
  for T :: "'m::len itself" and P fs before and A :: "nat \<Rightarrow> 'm word set"
proof unfold_locales
  fix i g bs g' x and p r :: "'m word pipe"
  assume hist: "frame_history P A fs before i g (ring_of p)" and p: "pipe_wf P p" "ring_ok p" "\<not> pipe_full p"
    and bs: "next_frame P g x bs g'" "id_among P A i bs" "length bs \<le> CFE_SB_MAX_SB_MSG_SIZE P" and r: "pipe_put bs p = Inr r"
  obtain acc del stored seen where h: "fs = seen @ g" "subseq acc (app_messages P seen)" "list_all2 slot_carries stored acc"
    "before i @ stored = del @ ring_unread (ring_of p)" "\<forall>bs \<in> set acc. id_among P A i bs"
    using hist by (auto simp: frame_history_def)
  obtain skipped who where f: "g = skipped @ (SBN_APP_MSG P, who, bs) # g'" using bs(1) by (auto simp: next_frame_def)
  let ?seen = "seen @ skipped @ [(SBN_APP_MSG P, who, bs)]"
  have "subseq (acc @ [bs]) (app_messages P ?seen)"
    using list_emb_append_mono [OF h(2) list_emb_append2 [OF subseq_order.order_refl]] by simp
  moreover obtain m where "ring_unread (ring_of r) = ring_unread (ring_of p) @ [m]" "slot_carries m bs"
    by (rule ring_unread_put [OF p bs(3) r])
  then have "list_all2 slot_carries (stored @ [m]) (acc @ [bs])" "before i @ (stored @ [m]) = del @ ring_unread (ring_of r)"
    using h by (simp_all add: list_all2_appendI)
  moreover have "\<forall>b \<in> set (acc @ [bs]). id_among P A i b" using h(5) bs(2) by simp
  moreover have "fs = ?seen @ g'" using h(1) f by simp
  ultimately show "frame_history P A fs before i g' (ring_of r)"
    unfolding frame_history_def by blast
next
  fix i g y x bs g'
  assume "frame_history P A fs before i g y" and "next_frame P g x bs g'"
  then obtain acc del stored seen skipped where h: "fs = seen @ skipped @ g'" "subseq acc (app_messages P seen)"
    "list_all2 slot_carries stored acc" "before i @ stored = del @ ring_unread y" "\<forall>bs \<in> set acc. id_among P A i bs"
    by (auto simp: frame_history_def next_frame_def)
  then have "fs = (seen @ skipped) @ g'" "subseq acc (app_messages P (seen @ skipped))"
    by (simp_all add: list_emb_append2 subseq_rev_drop_many)
  then show "frame_history P A fs before i g' y" unfolding frame_history_def using h(3-5) by blast
next
  fix i g and p :: "'m word pipe"
  assume hist: "frame_history P A fs before i g (ring_of p)" and p: "ring_ok p" "\<not> pipe_empty p"
  obtain m where "ring_unread (ring_of p) = m # ring_unread (ring_of (pipe_get p))" by (rule ring_unread_get [OF p])
  then show "frame_history P A fs before i g (ring_of (pipe_get p))"
    using hist unfolding frame_history_def by (metis append.assoc append_Cons append_Nil)
qed

text \<open>The five interfaces of the threads that the properties below rest on.\<close>

interpretation plain: thread_invariant T P "from_set UNIV" "\<lambda>_ _. True" "\<lambda>_ _ _. True" "any_net fd cpu" fd cpu UNIV
  for T :: "'m::len itself" and P fd cpu
  by unfold_locales (simp_all add: any_net_def)

interpretation queue: thread_invariant T P "from_set offered" "\<lambda>_ _. True" "queue_history offered before" "stream_net fd cpu r st" fd cpu UNIV
  for T :: "'m::len itself" and P offered before fd cpu r st
  by unfold_locales (simp_all add: stream_net_def)

interpretation ordered: thread_invariant T P "framed P fd" "\<lambda>_ _. True" "order_history P st before" "order_net fd cpu r st" fd cpu UNIV
  for T :: "'m::len itself" and P before fd cpu r st
  by unfold_locales (simp_all add: order_net_def)

interpretation wired: thread_invariant T P "from_set UNIV" "\<lambda>_ _. True" "\<lambda>_ _ _. True" "wire_net fd cpu frames sent0" fd cpu frames
  for T :: "'m::len itself" and P fd cpu frames sent0
  by unfold_locales (simp_all add: wire_net_def)

interpretation framed: thread_invariant T P "next_frame P" "id_among P A" "frame_history P A fs before" "frame_net P A fd cpu r fs" fd cpu UNIV
  for T :: "'m::len itself" and P before fd cpu r fs and A :: "nat \<Rightarrow> 'm word set"
  by unfold_locales (auto simp: frame_net_def)

end
