(* ===== verification/SBN_Races.thy ===== *)
theory SBN_Races
  imports SBN_Crews
begin

text \<open>
  What holds of every interleaving of calls and minder threads, cut between any two statements, and three
  interleavings that no sequence of whole calls explains: the table is searched, filled and cleared without the mutex.
\<close>

section \<open>A call that runs alone\<close>

text \<open>The whole calls of the other theories, with the results of \<open>call_prog\<close>.\<close>

fun whole_call :: "platform \<Rightarrow> ('m::len word, 'k, 'u) packer \<Rightarrow> timespec \<Rightarrow> 'm word call \<Rightarrow> 'm word client \<Rightarrow>
    (reply \<times> 'm word client) run" where
  "whole_call P K now (Create ptr depth name) c =
     bindR (wrap_CFE_SB_CreatePipe P ptr depth name c) (\<lambda>(st, idp, c'). Inr (Created st idp, c'))"
| "whole_call P K now (Delete pid) c = (let (st, c') = wrap_CFE_SB_DeletePipe P pid c in Inr (Status st, c'))"
| "whole_call P K now (Subscribe m pid) c =
     bindR (wrap_CFE_SB_Subscribe P K m pid c) (\<lambda>(st, c'). Inr (Status st, c'))"
| "whole_call P K now (Ingest buf sz m) c =
     bindR (ingest_loop CFE_PLATFORM_SBN_CLIENT_MAX_PIPES buf sz m False (sync Mutex_lock c)) (\<lambda>c'. Inr (Ingested, c'))"
| "whole_call P K now (Receive w ptr pid TimeOut) c =
     bindR (wrap_CFE_SB_RcvMsg P (undisturbed now w) ptr pid TimeOut c) (\<lambda>(st, buf, c'). Inr (Got st buf, c'))"
| "whole_call P K now (Send got_block g msg) c =
     bindR (wrap_CFE_SB_SendMsg P K got_block g msg c) (\<lambda>(st, c'). Inr (Status st, c'))"
| "whole_call P K now (Receive_minder n g h) c =
     bindR (receive_rounds P K g h n 0 0 c) (\<lambda>(b, c'). Inr (Stopped b, c'))"
| "whole_call P K now (Heartbeat_minder n) c = (let (b, c') = heartbeat_rounds P K n c in Inr (Stopped b, c'))"

text \<open>
  C13. Statement by statement is call by call when nobody interferes: for each call, and for any number of
  rounds of each of the two minder threads, with any arguments and any table of the right shape, the program of
  its statements run without interruption faults, blocks, or returns with the same result, state, output and lock
  trace, exactly as the definition of the whole call or thread, and leaves the mutex free.
\<close>

theorem call_alone:
  assumes "platform_ok P" and "tbl_wf P (PipeTbl c)"
  shows "alone (call_prog True P K t x) (c, None) =
    bindR (whole_call P K now x c) (\<lambda>(r, c'). Inr (r, (c', None)))"
proof (cases x)
  case (Create ptr depth name)
  then show ?thesis using CreatePipe_alone [OF assms(2), of ptr depth name None]
    by (cases "wrap_CFE_SB_CreatePipe P ptr depth name c") (auto split: prod.splits)
next
  case (Delete pid)
  then show ?thesis using DeletePipe_alone [OF assms(2), of pid None] by (auto split: prod.splits)
next
  case (Subscribe m pid)
  then show ?thesis using Subscribe_alone [OF assms(2), of K m pid None]
    by (cases "wrap_CFE_SB_Subscribe P K m pid c") (auto split: prod.splits)
next
  case (Ingest buf sz m)
  then show ?thesis using ingest_alone [OF assms(2), of t buf sz m]
    by (cases "ingest_loop 5 buf sz m False (sync Mutex_lock c)") simp_all
next
  case (Receive w ptr pid TimeOut)
  then show ?thesis using RcvMsg_alone [OF assms(2,1), of w True t ptr pid TimeOut now]
    by (cases "wrap_CFE_SB_RcvMsg P (undisturbed now w) ptr pid TimeOut c") (auto split: prod.splits)
next
  case (Send got_block g msg)
  then show ?thesis using SendMsg_alone [of P K got_block g msg c None]
    by (cases "wrap_CFE_SB_SendMsg P K got_block g msg c") (auto split: prod.splits)
next
  case (Receive_minder n g h)
  then show ?thesis using receive_alone [OF assms(2), of K t g h n 0 0]
    by (cases "receive_rounds P K g h n 0 0 c") (auto split: prod.splits)
next
  case (Heartbeat_minder n)
  then show ?thesis using heartbeat_alone [of P K n c None] by (auto split: prod.splits)
qed

section \<open>Every interleaving\<close>

text \<open>Starting states, and calls of which nothing but proper arguments is asked.\<close>

lemma any_net_start:
  assumes "tbl_wf P (PipeTbl c)" and "mutex_free c" and "q \<longrightarrow> (\<forall>i < 5. ring_ok (PipeTbl c ! i))"
  shows "shared_ok q (\<lambda>_ _ _. True) (any_net (sbn_client_sockfd c) (sbn_client_cpuId c)) P ((c, None), ())"
  using assms by (simp add: shared_ok_def mutex_free_def any_net_def net_of_def keyed_def)

lemma plain_admits:
  "proper_call P x \<Longrightarrow> (q \<longrightarrow> \<not> deletes x \<and> \<not> (sp \<and> pends x)) \<Longrightarrow> admits P (from_set UNIV) (\<lambda>_ _. True) (any_net fd cpu) fd cpu UNIV K q sp t x"
  by (simp add: admits_def any_net_def supplies_def puts_def from_set_def)

text \<open>
  C3. The sizes of the objects survive every interleaving: any number of threads that create, delete,
  subscribe, send, deliver and receive with proper arguments, and of receive and heartbeat threads over any
  bytes that arrive and any outcome of a write, cut anywhere, with waits that may end at any
  time, keep the table and every array in it at its size, take and give up the mutex in turn, and never
  access anything outside an array: a thread that cannot move waits for the mutex, for a message or for the
  network, and does not hold the mutex meanwhile.
\<close>

theorem threads_memory_safe:
  assumes P: "platform_ok P" and K: "packer_ok K enc" and proper: "\<forall>xs \<in> set css. \<forall>x \<in> set xs. proper_call P x"
    and c: "tbl_wf P (PipeTbl c)" "mutex_free c"
    and run: "isteps (crew sp P K css, (c, None)) (ps, (c', w))"
  shows "tbl_wf P (PipeTbl c') \<and> mutex_run False (Sync c') = Some (w \<noteq> None) \<and>
    (\<forall>i < length ps. \<forall>k f. ps ! i = Step k \<and> k (c', w) = Inl f \<longrightarrow> f = Blocked \<and> w \<noteq> Some i)"
proof -
  let ?N = "any_net (sbn_client_sockfd c) (sbn_client_cpuId c)"
  have ok: "shared_ok False (\<lambda>_ _ _. True) ?N P ((c, None), ())" by (rule any_net_start [OF c]) simp
  have safe: "sh.all_safe False (\<lambda>_ _ _. True) ?N P (waiters sp (sbn_client_sockfd c) css)
      (\<lambda>t. between False (\<lambda>_ _ _. True) ?N P t (sbn_client_sockfd c)) (crew sp P K css) ((c, None), ())"
    by (rule plain.crew_safe [OF P K _ ok]) (use proper in \<open>auto intro!: plain_admits\<close>)
  note final = crew_run_plain [OF safe run ok snd_conv]
  have "f = Blocked \<and> w \<noteq> Some i" if "i < length ps" "ps ! i = Step k" "k (c', w) = Inl f" for i k f
    using sh.all_safe_stuck [OF conjunct1 [OF final] that] by (simp add: may_wait_def)
  then show ?thesis using final by (simp add: shared_ok_def)
qed



text \<open>
  C6. From the stream to the queues in order, under every interleaving: when the receive thread is the only one
  that delivers, and with no pipe deleted and no successful wait that ends early, then what has arrived is
  a part that has been read and what is left, and in every pipe, whenever the mutex is free, what was unread at the start
  followed by what was stored since is what has been taken followed by what is unread now, where the stored slots start with the
  payloads of application frames that follow one another, without overlap, in the part that has been
  read. So whatever the other threads do, and wherever they are cut, no frame of the stream is stored in a pipe twice, none overtakes another, and
  nothing is stored before it has been read.
\<close>

theorem threads_in_order:
  assumes P: "platform_ok P" and K: "packer_ok K enc"
    and proper: "\<forall>xs \<in> set css. \<forall>x \<in> set xs. proper_call P x \<and> \<not> deletes x \<and> \<not> (sp \<and> pends x) \<and> (\<forall>bs. \<not> offers x bs)"
    and one: "\<forall>t < length css. \<forall>x \<in> set (css ! t). reads x \<longrightarrow> t = r"
    and c: "tbl_wf P (PipeTbl c)" "mutex_free c" "\<forall>i < 5. ring_ok (PipeTbl c ! i)"
    and run: "isteps (crew sp P K css, (c, None)) (ps, (c', None))"
  shows "\<exists>already. stream_data (rd (Sock c (sbn_client_sockfd c))) = already @ stream_data (rd (Sock c' (sbn_client_sockfd c))) \<and>
    (\<forall>i < 5. \<exists>accepted taken stored. in_order P accepted already \<and> list_all2 slot_carries stored accepted \<and>
      pipe_unread (PipeTbl c ! i) @ stored = taken @ pipe_unread (PipeTbl c' ! i))"
proof -
  let ?fd = "sbn_client_sockfd c"
  let ?st = "stream_data (rd (Sock c ?fd))"
  let ?N = "order_net ?fd (sbn_client_cpuId c) r ?st"
  let ?I = "order_history P ?st (\<lambda>i. pipe_unread (PipeTbl c ! i))"
  have "?I i ?st (ring_of (PipeTbl c ! i))" for i
    unfolding order_history_def ring_unread_of
    by (rule exI [of _ "[]"], rule exI [of _ "[]"], rule exI [of _ "[]"], rule exI [of _ "[]"]) simp
  then have ok: "shared_ok True ?I ?N P ((c, None), ?st)"
    using c by (simp add: shared_ok_def mutex_free_def order_net_def net_of_def keyed_def)
  have "admits P (framed P ?fd) (\<lambda>_ _. True) ?N ?fd (sbn_client_cpuId c) UNIV K True sp t x" if "t < length css" "x \<in> set (css ! t)" for t x
  proof -
    have "css ! t \<in> set css" using that(1) by simp
    then have "proper_call P x \<and> \<not> deletes x \<and> \<not> (sp \<and> pends x) \<and> (\<forall>bs. \<not> offers x bs)" using proper that(2) by blast
    moreover have "reads x \<longrightarrow> t \<in> readers ?N \<and> supplies ?N P ?fd (framed P ?fd) t"
      using one that order_supplies [of ?fd "sbn_client_cpuId c" r ?st P] by (auto simp: order_net_def)
    ultimately show ?thesis by (simp add: admits_def)
  qed
  then have safe: "sh.all_safe True ?I ?N P (waiters sp ?fd css) (\<lambda>t. between True ?I ?N P t ?fd) (crew sp P K css) ((c, None), ?st)"
    by (intro ordered.crew_safe [OF P K _ ok]) (blast, simp)
  obtain h where h: "shared_ok True ?I ?N P ((c', None), h)" using crew_run [OF safe run ok snd_conv] by blast
  then obtain behind where net: "suffix h ?st" "h = behind @ stream_data (rd (Sock c' ?fd))"
    by (auto simp: shared_ok_def order_net_def net_of_def suffix_def)
  then obtain before where before: "?st = before @ h" by (auto simp: suffix_def)
  have "\<exists>accepted taken stored. in_order P accepted (before @ behind) \<and> list_all2 slot_carries stored accepted \<and>
      pipe_unread (PipeTbl c ! i) @ stored = taken @ pipe_unread (PipeTbl c' ! i)" if "i < 5" for i
  proof -
    have "?I i h (ring_of (PipeTbl c' ! i))" using h that by (simp add: shared_ok_def)
    then obtain acc del stored part where q: "?st = part @ h" "in_order P acc part" "list_all2 slot_carries stored acc"
      "pipe_unread (PipeTbl c ! i) @ stored = del @ pipe_unread (PipeTbl c' ! i)"
      unfolding order_history_def ring_unread_of by blast
    have "part = before" using q(1) before by simp
    then show ?thesis using q(2-4) in_order_more by blast
  qed
  moreover have "?st = (before @ behind) @ stream_data (rd (Sock c' ?fd))" using before net(2) by simp
  ultimately show ?thesis by blast
qed

text \<open>The message ids a pipe can have: those in its slots at the start, and those the threads subscribe on it.\<close>

definition topics :: "'m::len word pipe list \<Rightarrow> 'm word call list list \<Rightarrow> nat \<Rightarrow> 'm word set" where
  "topics tbl css i = set (SubscribedMsgIds (tbl ! i)) \<union> {m. \<exists>xs \<in> set css. \<exists>pid. Subscribe m pid \<in> set xs \<and> unat pid = i}"

lemma frame_admits:
  assumes "proper_call P x \<and> \<not> deletes x \<and> \<not> (sp \<and> pends x) \<and> (\<forall>bs. \<not> offers x bs)" and "reads x \<longrightarrow> t = r"
    and "xs \<in> set css" "x \<in> set xs"
  shows "admits P (next_frame P) (id_among P (topics tbl css)) (frame_net P (topics tbl css) fd cpu r fs) fd cpu UNIV K True sp t x"
proof -
  let ?N = "frame_net P (topics tbl css) fd cpu r fs"
  have "reads x \<longrightarrow> t \<in> readers ?N \<and> supplies ?N P fd (next_frame P) t"
    using assms(2) frame_supplies [of P "topics tbl css" fd cpu r fs] by (auto simp: frame_net_def)
  moreover have "may_subscribe ?N (unat m) pid" if "x = Subscribe m pid" for m pid
    by (rule frame_may_subscribe) (use that assms in \<open>auto simp: topics_def\<close>)
  ultimately show ?thesis using assms(1) by (auto simp: admits_def frame_sorts)
qed

text \<open>
  C7. From frames to queues, exactly, under every interleaving: when the stream is a sequence of well-formed frames, however it
  is cut into reads and whether or not the connection is then closed, and the receive thread is the only one that
  delivers, with no pipe deleted and no successful wait that ends early, then at any time the mutex is free the frames are some that
  have been read in full and the others, and what was stored in a pipe are payloads of application frames that have been read,
  each starting its own slot, in the order of the stream and none twice, and each with a message id that stood in a slot of
  this pipe at the start or that some thread subscribes on this pipe, wherever the subscriptions are cut (the id of a payload
  shorter than its header depends on what the buffer holds behind it). The thread never loses its place: whenever it has
  returned, what is left in the connection starts at the start of a frame.
\<close>

theorem threads_deliver_frames:
  assumes P: "platform_ok P" and K: "packer_ok K enc"
    and proper: "\<forall>xs \<in> set css. \<forall>x \<in> set xs. proper_call P x \<and> \<not> deletes x \<and> \<not> (sp \<and> pends x) \<and> (\<forall>bs. \<not> offers x bs)"
    and one: "\<forall>t < length css. \<forall>x \<in> set (css ! t). reads x \<longrightarrow> t = r"
    and c: "tbl_wf P (PipeTbl c)" "mutex_free c" "\<forall>i < 5. ring_ok (PipeTbl c ! i)"
      "\<forall>i < 5. PipeId (PipeTbl c ! i) = of_nat i \<or> PipeId (PipeTbl c ! i) = CFE_SBN_CLIENT_INVALID_PIPE"
    and fs: "tidy (rd (Sock c (sbn_client_sockfd c)))" "\<forall>f \<in> set fs. frame_ok P f"
      "stream_data (rd (Sock c (sbn_client_sockfd c))) = wire_bytes fs"
    and run: "isteps (crew sp P K css, (c, None)) (ps, (c', None))"
  shows "\<exists>seen left. fs = seen @ left \<and> suffix (stream_data (rd (Sock c' (sbn_client_sockfd c)))) (wire_bytes left) \<and>
    (\<forall>i < 5. \<exists>accepted taken stored. subseq accepted (app_messages P seen) \<and>
      (\<forall>bs \<in> set accepted. id_among P (topics (PipeTbl c) css) i bs) \<and> list_all2 slot_carries stored accepted \<and>
      pipe_unread (PipeTbl c ! i) @ stored = taken @ pipe_unread (PipeTbl c' ! i)) \<and>
    (r < length ps \<and> (\<exists>rs. ps ! r = Done rs) \<longrightarrow>
      (\<exists>later. suffix later left \<and> stream_data (rd (Sock c' (sbn_client_sockfd c))) = wire_bytes later))"
proof -
  let ?fd = "sbn_client_sockfd c"
  let ?A = "topics (PipeTbl c) css"
  let ?N = "frame_net P ?A ?fd (sbn_client_cpuId c) r fs"
  let ?I = "frame_history P ?A fs (\<lambda>i. pipe_unread (PipeTbl c ! i))"
  have "?I i fs (ring_of (PipeTbl c ! i))" for i
    unfolding frame_history_def ring_unread_of
    by (rule exI [of _ "[]"], rule exI [of _ "[]"], rule exI [of _ "[]"], rule exI [of _ "[]"]) simp
  moreover have "\<forall>i < 5. keyed ?N i (PipeTbl c ! i)" using c(4) by (auto simp: keyed_def key_of_def frame_net_def topics_def)
  ultimately have ok: "shared_ok True ?I ?N P ((c, None), fs)"
    using c(1-3) fs by (simp add: shared_ok_def mutex_free_def frame_net_def net_of_def)
  have "\<forall>t < length css. \<forall>x \<in> set (css ! t). admits P (next_frame P) (id_among P ?A) ?N ?fd (sbn_client_cpuId c) UNIV K True sp t x"
    using frame_admits proper one by (metis nth_mem)
  moreover have "boundary ?N (stream_data (rd (Sock c ?fd)))" using fs(2,3) by (auto simp: frame_net_def)
  ultimately have safe: "sh.all_safe True ?I ?N P (waiters sp ?fd css) (\<lambda>t. between True ?I ?N P t ?fd) (crew sp P K css) ((c, None), fs)"
    by (intro framed.crew_safe [OF P K _ ok])
  obtain h where h: "sh.all_safe True ?I ?N P (waiters sp ?fd css) (\<lambda>t. between True ?I ?N P t ?fd) ps ((c', None), h)"
    "shared_ok True ?I ?N P ((c', None), h)" using crew_run [OF safe run ok snd_conv] by blast
  then have net: "suffix h fs" "suffix (stream_data (rd (Sock c' ?fd))) (wire_bytes h)"
    by (auto simp: shared_ok_def frame_net_def net_of_def)
  then obtain seen where seen: "fs = seen @ h" by (auto simp: suffix_def)
  have hist: "\<exists>accepted taken stored. subseq accepted (app_messages P seen) \<and>
      (\<forall>bs \<in> set accepted. id_among P ?A i bs) \<and> list_all2 slot_carries stored accepted \<and>
      pipe_unread (PipeTbl c ! i) @ stored = taken @ pipe_unread (PipeTbl c' ! i)" if "i < 5" for i
  proof -
    have "?I i h (ring_of (PipeTbl c' ! i))" using h(2) that by (simp add: shared_ok_def)
    then show ?thesis using seen unfolding frame_history_def ring_unread_of by auto
  qed
  have "\<exists>later. suffix later h \<and> stream_data (rd (Sock c' ?fd)) = wire_bytes later" if "r < length ps" "ps ! r = Done rs" for rs
  proof -
    have "between True ?I ?N P r ?fd ((c', None), h)" by (rule sh.all_safe_done [OF h(1) that])
    then obtain gs where gs: "suffix gs fs" "stream_data (rd (Sock c' ?fd)) = wire_bytes gs"
      by (auto simp: at_frame_def frame_net_def rd_of_def)
    then have "length (wire_bytes gs) \<le> length (wire_bytes h)" using suffix_length_le [OF net(2)] by simp
    then show ?thesis using wire_bytes_shorter [OF net(1) gs(1)] gs(2) by blast
  qed
  then show ?thesis using seen net(2) hist by blast
qed


text \<open>
  C9. Frames are not mixed on the wire: while the kernel takes every write in full, what all threads together
  have sent, in every state of every interleaving, is a sequence of whole frames, each of them the heartbeat, the
  subscription frame of one of the subscribe calls, or the frame of one of the messages sent.
\<close>

theorem wire_frames:
  fixes css :: "'m::len word call list list" and c :: "'m word client"
  assumes P: "platform_ok P" and K: "packer_ok K enc" and proper: "\<forall>xs \<in> set css. \<forall>x \<in> set xs. proper_call P x"
    and fits: "\<forall>m. 7 + length (sub_payload P enc m 0 0) \<le> SBN_PACKED_SUB_SZ P"
    and c: "tbl_wf P (PipeTbl c)" "mutex_free c" "wr (Sock c (sbn_client_sockfd c)) = []"
    and run: "isteps (crew sp P K css, (c, None)) (ps, (c', w))"
  shows "\<exists>fs. sent (Sock c' (sbn_client_sockfd c)) = sent (Sock c (sbn_client_sockfd c)) @ concat fs \<and>
    (\<forall>f \<in> set fs. \<exists>xs \<in> set css.
       f = sbn_header 0 0xA0 2 \<and> (\<exists>n. Heartbeat_minder n \<in> set xs) \<or>
       (\<exists>m pid. Subscribe m pid \<in> set xs \<and> f = sbn_header 54 (SBN_SUB_MSG P) 2 @ sub_payload P enc m 0 0) \<or>
       (\<exists>got_block g msg. Send got_block g msg \<in> set xs \<and>
          f = app_frame P (sbn_client_cpuId c) (CFE_SBN_Client_GetTotalMsgLength P msg) msg))"
proof -
  let ?fd = "sbn_client_sockfd c" and ?cpu = "sbn_client_cpuId c"
  let ?F = "{f. \<exists>xs \<in> set css. \<exists>x \<in> set xs. writes P K ?cpu x f}"
  let ?N = "wire_net ?fd ?cpu ?F (sent (Sock c ?fd))"
  have ok: "shared_ok False (\<lambda>_ _ _. True) ?N P ((c, None), ())"
    using c by (auto simp: shared_ok_def mutex_free_def wire_net_def net_of_def intro: exI [of _ "[]"])
  have "admits P (from_set UNIV) (\<lambda>_ _. True) ?N ?fd ?cpu ?F K False sp t x" if "t < length css" "x \<in> set (css ! t)" for t x
    using proper that nth_mem [OF that(1)] by (auto simp: admits_def wire_net_def)
  then have safe: "sh.all_safe False (\<lambda>_ _ _. True) ?N P (waiters sp ?fd css)
      (\<lambda>t. between False (\<lambda>_ _ _. True) ?N P t ?fd) (crew sp P K css) ((c, None), ())"
    by (intro wired.crew_safe [OF P K _ ok]) (blast, simp)
  obtain fs where fs: "set fs \<subseteq> ?F" "sent (Sock c' ?fd) = sent (Sock c ?fd) @ concat fs"
    using crew_run_plain [OF safe run ok snd_conv] by (auto simp: shared_ok_def wire_net_def net_of_def)
  have "\<exists>xs \<in> set css. f = sbn_header 0 0xA0 2 \<and> (\<exists>n. Heartbeat_minder n \<in> set xs) \<or>
       (\<exists>m pid. Subscribe m pid \<in> set xs \<and> f = sbn_header 54 (SBN_SUB_MSG P) 2 @ sub_payload P enc m 0 0) \<or>
       (\<exists>got_block g msg. Send got_block g msg \<in> set xs \<and>
          f = app_frame P ?cpu (CFE_SBN_Client_GetTotalMsgLength P msg) msg)" if "f \<in> set fs" for f
  proof -
    obtain xs x where x: "xs \<in> set css" "x \<in> set xs" "writes P K ?cpu x f" using fs(1) \<open>f \<in> set fs\<close> by blast
    then show ?thesis using sub_bytes_frame [OF K] fits by (intro bexI [OF _ x(1)]) (cases x; simp; blast)
  qed
  then show ?thesis using fs(2) by blast
qed

section \<open>Following one interleaving\<close>

lemma crew_two: "crew sp P K [xs, ys] = [thread sp P K 0 xs, thread sp P K 1 ys]"
  by (simp add: crew_def upt_rec)

lemma move_read:
  "move (bindP (get f) g) (c, w) = bindR (f c) (\<lambda>a. Inr (g a, (c, w)))"
  "move (bindP (entry_get i h) g) (c, w) = bindR (bindR (arr_get (PipeTbl c) i) h) (\<lambda>a. Inr (g a, (c, w)))"
  by (cases "f c", simp_all add: move_stmt get_def)
    (cases "bindR (arr_get (PipeTbl c) i) h", simp_all add: move_stmt get_def entry_get_def)

lemma move_change:
  "move (bindP (modify h) g) (c, w) = bindR (h c) (\<lambda>c'. Inr (g (), (c', w)))"
  by (cases "h c") (simp_all add: move_stmt modify_def)

lemma move_set:
  "move (bindP (entry_set i e) g) (c, w) =
    bindR (bindR (arr_get (PipeTbl c) i) (\<lambda>p. bindR (e p) (\<lambda>q. Inr (with_entry i q c)))) (\<lambda>c'. Inr (g (), (c', w)))"
  by (simp add: move_change entry_set_def)

lemma move_sync:
  "move (bindP (mutex_lock t) g) (c, None) = Inr (g (), (sync Mutex_lock c, Some t))"
  "move (bindP mutex_unlock g) (c, w) = Inr (g (), (sync Mutex_unlock c, None))"
  by (simp_all add: move_stmt mutex_lock_def mutex_unlock_def)

lemma pipe_scan_start:
  "0 < n \<Longrightarrow> pipe_scan buf sz m n used =
     bindP (entry_get (CFE_PLATFORM_SBN_CLIENT_MAX_PIPES - n) (\<lambda>p. Inr (InUse p = CFE_SBN_CLIENT_IN_USE))) (\<lambda>in_use.
        if in_use then slot_scan buf sz m (CFE_PLATFORM_SBN_CLIENT_MAX_PIPES - n) (pipe_scan buf sz m (n - 1) True)
        else pipe_scan buf sz m (n - 1) used)"
  by (cases n) (simp_all add: Let_def cong: if_cong)

lemma move_act:
  "move (bindP (act f) g) (c, w) = bindR (f c) (\<lambda>(a, c'). Inr (g a, (c', w)))"
  by (cases "f c") (auto simp: move_stmt act_def)

lemma move_release: "move (bindP cond_release g) (c, w) = Inr (g (), (sync Cond_wait c, None))"
  by (simp add: move_stmt cond_release_def)

lemma ReadBytes_start:
  "0 < k \<Longrightarrow> ReadBytes_steps P fd n k buf got =
     (if got = n then Done (CFE_SUCCESS P, buf)
      else bindP (read_step fd n buf got) (\<lambda>(r, buf').
        case r of
          R_Error e \<Rightarrow>
            bindP (modify (\<lambda>c. Inr (log_message (''SBN_CLIENT: ERROR CFE_SBN_CLIENT_PIPE_BROKEN_ERR'' @ [CHR 0x0A]) [] c)))
              (\<lambda>_. Done (CFE_SBN_CLIENT_PIPE_BROKEN_ERR, buf'))
        | R_Eof \<Rightarrow>
            bindP (modify (\<lambda>c. Inr (log_message (''SBN_CLIENT: ERROR CFE_SBN_CLIENT_PIPE_CLOSED_ERR: %s'' @ [CHR 0x0A])
                [Str_arg (strerror P (Errno c))] c)))
              (\<lambda>_. Done (CFE_SBN_CLIENT_PIPE_CLOSED_ERR, buf'))
        | R_Bytes bs \<Rightarrow> ReadBytes_steps P fd n (k - 1) buf' (got + length bs)))"
proof (cases k)
  case (Suc m)
  show ?thesis unfolding Suc ReadBytes_steps.simps diff_Suc_1 by (rule refl)
qed simp

lemmas moving = pipe_scan_start search_start ReadBytes_start ReadBytes_steps.simps(1) follow_move move_read move_change
  move_set move_sync move_act move_release
declare follow.simps(2) [simp del] search.simps [simp del] ReadBytes_steps.simps [simp del]

text \<open>The client of two of the races: pipe 0 in use, subscribed to \<open>m\<close>, nothing unread, the other entries free.\<close>

lemma client_subscribed_fields:
  fixes m :: "16 word"
  defines "p \<equiv> PipeTbl (client_subscribed cfs_small m) ! 0"
  shows "InUse p = 1" "PipeId p = 0" "ReadMessage p = 31" "NumberOfMessages p = 1" "SubscribedMsgIds p = [m, 0, 0, 0]"
    "pipe_wf cfs_small p"
proof -
  have inv: "tbl_inv cfs_small (PipeTbl (client_subscribed cfs_small m))" by (rule client_subscribed_inv)
  show "pipe_wf cfs_small p" using entry_inv_wf [OF tbl_invD(2) [OF inv, of 0]] by (simp add: p_def)
qed (simp_all add: p_def client_subscribed_entry fresh_pipe_def invalidate_pipe_def static_pipe_def overwrite_def
    numeral_eq_Suc)

lemma client_subscribed_shared: "mutex_free (client_subscribed P m)"
  by (simp add: mutex_free_def client_subscribed_def client_with_pipe_def ready_client_def
      CFE_SBN_Client_InitPipeTbl_def client_start_def)

section \<open>Three races\<close>

lemmas programs = ingest_prog_def slot_scan_def deliver_prog_def pipe_copy_def Let_def
  DeletePipe_prog_def delete_entry_def invalidate_prog_def CreatePipe_prog_def create_scan_def create_entry_def
  RcvMsg_prog_def GetPipeIdx_prog_def finish_prog_def pipe_full_def pipe_empty_def pipe_next_def
  read_step_def recv_msg_prog_def ReadBytes_prog_def ingest_app_message_prog_def mem_write_def mem_read_def

lemma ready_client_fields:
  fixes i :: nat
  assumes "i < 5"
  defines "p \<equiv> PipeTbl (ready_client cfs_small :: 16 word client) ! i"
  shows "InUse p = 0" "pipe_wf cfs_small p"
proof -
  have e: "p = fresh_pipe cfs_small" using ready_client_entry [OF assms(1)] by (simp add: p_def)
  have "pipe_inv cfs_small p" unfolding e by simp
  then show "pipe_wf cfs_small p" by (simp add: pipe_inv_def)
  show "InUse p = 0" unfolding e by (simp add: fresh_pipe_def)
qed

text \<open>
  C15. Two threads that create a pipe can be given the same one: \<open>__wrap_CFE_SB_CreatePipe\<close> looks for a
  free entry and claims it without the mutex, so when the second thread looks before the first has set
  \<open>InUse\<close>, both calls succeed with id 0. One after the other they get 0 and 1.
\<close>

theorem create_race:
  fixes K :: "(16 word, 'k, 'u) packer"
  defines "start \<equiv> (crew False cfs_small K [[Create True 8 (Some [0x61])], [Create True 8 (Some [0x62])]],
    (ready_client cfs_small, None))"
  shows "(\<exists>c'. isteps start ([Done [Created 0 (Some 0)], Done [Created 0 (Some 0)]], (c', None))) \<and>
    (\<exists>c'. isteps start ([Done [Created 0 (Some 0)], Done [Created 0 (Some 1)]], (c', None)))"
proof -
  have len: "length (PipeTbl (ready_client cfs_small :: 16 word client)) = 5" by (rule tbl_invD(1) [OF tbl_inv_ready])
  note fields = ready_client_fields [of 0] ready_client_fields [of 1]
  have "\<exists>c'. follow [0, 1, 0, 0, 0, 0, 1, 1, 1, 1] start =
      Some ([Done [Created 0 (Some 0)], Done [Created 0 (Some 0)]], (c', None))"
    using fields len by (simp add: start_def crew_two programs moving pipe_wf_def cong: bindP_weak_cong)
  moreover have "\<exists>c'. follow [0, 0, 0, 0, 0, 1, 1, 1, 1, 1, 1] start =
      Some ([Done [Created 0 (Some 0)], Done [Created 0 (Some 1)]], (c', None))"
    using fields len by (simp add: start_def crew_two programs moving pipe_wf_def cong: bindP_weak_cong)
  ultimately show ?thesis by (blast intro: follow_isteps)
qed

text \<open>
  C16. Of two subscriptions made to a pipe at the same time one can be lost: \<open>__wrap_CFE_SB_Subscribe\<close> looks for a free
  slot and fills it without the mutex, so when both threads find the same slot, both calls succeed and
  announce their message id to the peer, but the pipe has only one of the two ids. One after the other both are there.
\<close>

theorem subscribe_race:
  fixes K :: "(16 word, 'k, 'u) packer"
  defines "start \<equiv> (crew False cfs_small K [[Subscribe 0x1801 0], [Subscribe 0x1802 0]],
    (client_subscribed cfs_small 0x1800, None))"
  shows "(\<exists>c'. isteps start ([Done [Status 0], Done [Status 0]], (c', None)) \<and>
      SubscribedMsgIds (PipeTbl c' ! 0) = [0x1800, 0x1801, 0, 0]) \<and>
    (\<exists>c'. isteps start ([Done [Status 0], Done [Status 0]], (c', None)) \<and>
      SubscribedMsgIds (PipeTbl c' ! 0) = [0x1800, 0x1801, 0x1802, 0])"
proof -
  have len: "length (PipeTbl (client_subscribed cfs_small (0x1800 :: 16 word))) = 5" by (rule tbl_invD(1) [OF client_subscribed_inv])
  note fields = client_subscribed_fields [of "0x1800"]
  note rules = start_def crew_two programs Subscribe_prog_def SubscribeIndex_prog_def moving search_start
  have "\<exists>c'. follow [0, 0, 0, 1, 1, 1, 1, 1, 0, 0] start = Some ([Done [Status 0], Done [Status 0]], (c', None)) \<and>
      SubscribedMsgIds (PipeTbl c' ! 0) = [0x1800, 0x1801, 0, 0]"
    using fields len by (simp add: rules cong: bindP_weak_cong)
  moreover have "\<exists>c'. follow [0, 0, 0, 0, 0, 1, 1, 1, 1, 1, 1] start = Some ([Done [Status 0], Done [Status 0]], (c', None)) \<and>
      SubscribedMsgIds (PipeTbl c' ! 0) = [0x1800, 0x1801, 0x1802, 0]"
    using fields len by (simp add: rules cong: bindP_weak_cong)
  ultimately show ?thesis by (blast intro: follow_isteps)
qed

text \<open>
  C14. A pipe can be born with a message of its predecessor: \<open>__wrap_CFE_SB_DeletePipe\<close> clears an entry
  without the mutex. When it does so while the receive thread is between \<open>memcpy\<close> and the increment of
  \<open>NumberOfMessages\<close>, the entry is left free with a counter of 2; the next pipe created in it, subscribed
  to nothing, hands out the old message. With the delivery first the same calls end with no message.
\<close>

theorem delete_race:
  fixes K :: "(16 word, 'k, 'u) packer" and m :: "16 word"
  defines "start \<equiv> (crew False cfs_small K [[Ingest [7, 9] 2 m], [Delete 0, Create True 8 (Some [0x62]), Receive 0 True 0 0]],
    (client_subscribed cfs_small m, None))"
  shows "(\<exists>c'. isteps start ([Done [Ingested], Done [Status 0, Created 0 (Some 0), Got 0 (Slot 0 0)]], (c', None)) \<and>
      take 2 (Messages (PipeTbl c' ! 0) ! 0) = [7, 9] \<and> SubscribedMsgIds (PipeTbl c' ! 0) = [0, 0, 0, 0]) \<and>
    (\<exists>c'. isteps start ([Done [Ingested], Done [Status 0, Created 0 (Some 0), Got (CFE_SB_NO_MESSAGE cfs_small) Null_ptr]],
      (c', None)))"
proof -
  let ?p = "PipeTbl (client_subscribed cfs_small m) ! 0"
  have len: "length (PipeTbl (client_subscribed cfs_small m)) = 5" by (rule tbl_invD(1) [OF client_subscribed_inv])
  note fields = client_subscribed_fields [of m]
  have upt: "[0..<4] = [0, 1, 2, 3 :: nat]" by (simp add: upt_rec)
  have e: "unat (message_entry_point ?p) = 0" by (simp add: message_entry_point_unat fields)
  have slot: "length (Messages ?p ! 0) = 16" using pipe_wf_slot [OF fields(6), of 0] by simp
  have bs: "take 2 (overwrite (Messages ?p ! 0) 0 [7, 9]) = [7, 9]"
    by (simp add: overwrite_def)
  have race: "\<exists>c'. follow [0,0,0,0,0,0, 1,1,1,1,1,1,1,1,1,1,1,1, 0,0,0, 1,1,1,1,1, 1,1,1,1,1,1,1] start =
      Some ([Done [Ingested], Done [Status 0, Created 0 (Some 0), Got 0 (Slot 0 0)]], (c', None)) \<and>
      take 2 (Messages (PipeTbl c' ! 0) ! 0) = [7, 9] \<and> SubscribedMsgIds (PipeTbl c' ! 0) = [0, 0, 0, 0]"
    using fields len slot
    by (simp add: start_def crew_two programs moving pipe_wf_def upt e bs cong: bindP_weak_cong)
  have seq: "\<exists>c'. follow [0,0,0,0,0,0,0,0,0, 1,1,1,1,1,1,1,1,1,1,1,1, 1,1,1,1,1, 1,1,1,1] start =
      Some ([Done [Ingested], Done [Status 0, Created 0 (Some 0), Got (CFE_SB_NO_MESSAGE cfs_small) Null_ptr]], (c', None))"
    using fields len slot
    by (simp add: start_def crew_two programs moving pipe_wf_def upt e cong: bindP_weak_cong)
  show ?thesis using race seq by (blast intro: follow_isteps)
qed

section \<open>A concrete crew\<close>

text \<open>
  The program as it runs: the receive thread reads one frame that arrives in three chunks, the application waits for
  its message, and the heartbeat thread makes one round, all on descriptor 4.
\<close>

definition connected :: "rd_event list \<Rightarrow> 16 word client" where
  "connected es = (set_rd 4 es (client_subscribed cfs_small 0x1801))\<lparr>sbn_client_sockfd := 4\<rparr>"

definition three_threads :: "16 word call list list" where
  "three_threads = [[Receive_minder 1 (\<lambda>_ _. 0) (\<lambda>_ _. 0)], [Receive 0 True 0 (-1)], [Heartbeat_minder 1]]"

definition live :: "16 word client" where
  "live = connected [Rd_Data [0, 2, 3], Rd_Data [0, 0, 0, 1, 24], Rd_Data [1]]"

lemma crew_three: "crew sp P K [xs, ys, zs] = [thread sp P K 0 xs, thread sp P K 1 ys, thread sp P K 2 zs]"
  by (simp add: crew_def upt_rec numeral_2_eq_2)

lemma three_threads_proper:
  "\<forall>xs \<in> set three_threads. \<forall>x \<in> set xs. proper_call cfs_small x \<and> \<not> deletes x \<and> \<not> (False \<and> pends x)"
  by (simp add: three_threads_def)

lemma three_threads_calls: "\<forall>xs \<in> set three_threads. \<forall>x \<in> set xs. proper_call cfs_small x"
  using three_threads_proper by blast

lemma live_fields [simp]:
  "PipeTbl live = PipeTbl (client_subscribed cfs_small 0x1801)" "sbn_client_sockfd live = 4"
  "rd (Sock live 4) = [Rd_Data [0, 2, 3], Rd_Data [0, 0, 0, 1, 24], Rd_Data [1]]" "wr (Sock live 4) = []" "sent (Sock live 4) = []"
  "continue_receive_check live" "continue_heartbeat live" "mutex_free live"
  using client_subscribed_shared
  by (simp_all add: live_def connected_def mutex_free_def client_subscribed_def client_with_pipe_def ready_client_def
      CFE_SBN_Client_InitPipeTbl_def client_start_def)

lemma tbl_inv_ids:
  assumes "tbl_inv P tbl" and "i < 5"
  shows "PipeId (tbl ! i) = of_nat i \<or> PipeId (tbl ! i) = CFE_SBN_CLIENT_INVALID_PIPE"
proof (cases "InUse (tbl ! i) = CFE_SBN_CLIENT_IN_USE")
  case False
  then have "invalidate_pipe P (tbl ! i) = tbl ! i" using tbl_invD(2) [OF assms] by (simp add: entry_inv_def)
  then have "PipeId (tbl ! i) = PipeId (invalidate_pipe P (tbl ! i))" by simp
  then show ?thesis by (simp add: invalidate_pipe_def)
qed (use tbl_invD(2) [OF assms] in \<open>simp add: entry_inv_def\<close>)

lemma live_table: "tbl_wf cfs_small (PipeTbl live)" "\<forall>i < 5. ring_ok (PipeTbl live ! i)"
  "\<forall>i < 5. PipeId (PipeTbl live ! i) = of_nat i \<or> PipeId (PipeTbl live ! i) = CFE_SBN_CLIENT_INVALID_PIPE"
proof -
  show "tbl_wf cfs_small (PipeTbl live)" using tbl_inv_wf [OF client_subscribed_inv] by simp
  show "\<forall>i < 5. ring_ok (PipeTbl live ! i)"
    using entry_inv_wf tbl_invD(2) [OF client_subscribed_inv] unfolding live_fields by blast
  show "\<forall>i < 5. PipeId (PipeTbl live ! i) = of_nat i \<or> PipeId (PipeTbl live ! i) = CFE_SBN_CLIENT_INVALID_PIPE"
    using tbl_inv_ids [OF client_subscribed_inv] unfolding live_fields by blast
qed

lemma frame_read:
  "unpack_header list_packer (overwrite (overwrite (uninit (\<lambda>_. 0) 7) 0 [0, 2, 3]) (Suc (Suc (Suc 0))) [0, 0, 0, 1]) 7 = (2, 3, 1)"
  "CFE_SBN_Client_GetMsgId cfs_small (overwrite (overwrite (uninit (\<lambda>_. 0) 16) 0 [24]) (Suc 0) [1]) = (0x1801 :: 16 word)"
proof -
  have u: "uninit (\<lambda>_. 0) 7 = replicate 7 0" "uninit (\<lambda>_. 0) 16 = replicate 16 0"
    by (simp_all add: uninit_def map_replicate_const)
  show "unpack_header list_packer (overwrite (overwrite (uninit (\<lambda>_. 0) 7) 0 [0, 2, 3]) (Suc (Suc (Suc 0))) [0, 0, 0, 1]) 7 = (2, 3, 1)"
    unfolding u by code_simp
  have "overwrite (overwrite (replicate 16 0) 0 [24]) (Suc 0) [1] = [24, 1] @ (replicate 14 0 :: byte list)" by code_simp
  then show "CFE_SBN_Client_GetMsgId cfs_small (overwrite (overwrite (uninit (\<lambda>_. 0) 16) 0 [24]) (Suc 0) [1]) = (0x1801 :: 16 word)"
    unfolding u by (simp add: CFE_SBN_Client_GetMsgId_def)
qed

lemma heartbeat_sent:
  "wr (Sock c fd) = [] \<Longrightarrow> snd (send_heartbeat cfs_small list_packer fd c) =
    set_chan fd ((Sock c fd)\<lparr>sent := sent (Sock c fd) @ [0, 0, 0xA0, 0, 0, 0, 2]\<rparr>) c"
  by (simp add: heartbeat_bytes [OF platform_ok_cfs(2) packer_ok_list_packer])

text \<open>
  A run of it: the application looks, finds nothing and waits; the receive thread reads the frame while the heartbeat
  is sent, takes the mutex and copies the message; then it counts it and gives up the mutex.
\<close>

lemma live_run:
  obtains ps c' qs d where "isteps (crew False cfs_small list_packer three_threads, (live, None)) (ps, (c', Some 0))"
    "isteps (crew False cfs_small list_packer three_threads, (live, None)) (qs, (d, None))"
    "NumberOfMessages (PipeTbl d ! 0) = 2" "sent (Sock d 4) = [0, 0, 0xA0, 0, 0, 0, 2]"
proof -
  have len: "length (PipeTbl (client_subscribed cfs_small (0x1801 :: 16 word))) = 5" by (rule tbl_invD(1) [OF client_subscribed_inv])
  note fields = client_subscribed_fields [of "0x1801"]
  have e: "unat (message_entry_point (PipeTbl (client_subscribed cfs_small (0x1801 :: 16 word)) ! 0)) = 0"
    by (simp add: message_entry_point_unat fields)
  have slot: "length (Messages (PipeTbl (client_subscribed cfs_small (0x1801 :: 16 word)) ! 0) ! 0) = 16"
    using pipe_wf_slot [OF fields(6), of 0] by simp
  note rules = three_threads_def crew_three programs moving pipe_wf_def frame_read heartbeat_sent e
  have "\<exists>ps c'. follow [1,1,1,1, 2,0,0,0,0,2,0,0,2,2,0,0,0,0,0,0]
      (crew False cfs_small list_packer three_threads, (live, None)) = Some (ps, (c', Some 0))"
    using fields len slot by (simp add: rules cong: bindP_weak_cong)
  moreover have "\<exists>qs d. follow [1,1,1,1, 2,0,0,0,0,2,0,0,2,2,0,0,0,0,0,0,2,0,0]
      (crew False cfs_small list_packer three_threads, (live, None)) = Some (qs, (d, None)) \<and>
      NumberOfMessages (PipeTbl d ! 0) = 2 \<and> sent (Sock d 4) = [0, 0, 0xA0, 0, 0, 0, 2]"
    using fields len slot by (simp add: rules cong: bindP_weak_cong)
  ultimately show thesis using that by (blast intro: follow_isteps)
qed

theorem threads_memory_safe_witness:
  "\<exists>ps c'. isteps (crew False cfs_small list_packer three_threads, (live, None)) (ps, (c', Some 0)) \<and>
    tbl_wf cfs_small (PipeTbl c') \<and> mutex_run False (Sync c') = Some True \<and>
    (\<forall>i < length ps. \<forall>k f. ps ! i = Step k \<and> k (c', Some 0) = Inl f \<longrightarrow> f = Blocked \<and> i \<noteq> 0)"
proof -
  obtain ps c' where run: "isteps (crew False cfs_small list_packer three_threads, (live, None)) (ps, (c', Some 0))"
    by (rule live_run)
  from threads_memory_safe [OF platform_ok_cfs(2) packer_ok_list_packer three_threads_calls live_table(1) live_fields(8) run]
  show ?thesis using run by auto
qed



theorem threads_in_order_witness:
  "\<exists>qs d already accepted taken stored.
    isteps (crew False cfs_small list_packer three_threads, (live, None)) (qs, (d, None)) \<and>
    length (pipe_unread (PipeTbl d ! 0)) = 1 \<and>
    [0, 2, 3, 0, 0, 0, 1, 24, 1] = already @ stream_data (rd (Sock d 4)) \<and>
    in_order cfs_small accepted already \<and> list_all2 slot_carries stored accepted \<and>
    pipe_unread (PipeTbl live ! 0) @ stored = taken @ pipe_unread (PipeTbl d ! 0)"
proof -
  obtain ps c' qs d where run: "isteps (crew False cfs_small list_packer three_threads, (live, None)) (qs, (d, None))"
    and n: "NumberOfMessages (PipeTbl d ! 0) = 2" by (rule live_run)
  have proper: "\<forall>xs \<in> set three_threads. \<forall>x \<in> set xs. proper_call cfs_small x \<and> \<not> deletes x \<and> \<not> (False \<and> pends x) \<and>
      (\<forall>bs. \<not> offers x bs)"
    by (simp add: three_threads_def)
  have one: "\<forall>t < length three_threads. \<forall>x \<in> set (three_threads ! t). reads x \<longrightarrow> t = 0"
    by (auto simp: three_threads_def less_Suc_eq numeral_3_eq_3)
  note ordered = threads_in_order [OF platform_ok_cfs(2) packer_ok_list_packer proper one live_table(1)
      live_fields(8) live_table(2) run]
  obtain already where a: "stream_data (rd (Sock live (sbn_client_sockfd live))) =
      already @ stream_data (rd (Sock d (sbn_client_sockfd live)))"
    and q: "\<forall>i < 5. \<exists>accepted taken stored. in_order cfs_small accepted already \<and> list_all2 slot_carries stored accepted \<and>
      pipe_unread (PipeTbl live ! i) @ stored = taken @ pipe_unread (PipeTbl d ! i)"
    using ordered by blast
  have "(0 :: nat) < 5" by simp
  then obtain accepted taken stored where "in_order cfs_small accepted already" "list_all2 slot_carries stored accepted"
    "pipe_unread (PipeTbl live ! 0) @ stored = taken @ pipe_unread (PipeTbl d ! 0)"
    using q by blast
  moreover have "[0, 2, 3, 0, 0, 0, 1, 24, 1] = already @ stream_data (rd (Sock d 4))" using a by simp
  moreover have "length (pipe_unread (PipeTbl d ! 0)) = 1" using n by simp
  ultimately show ?thesis using run by blast
qed

theorem threads_deliver_frames_witness:
  "\<exists>qs d seen left accepted taken stored.
    isteps (crew False cfs_small list_packer three_threads, (live, None)) (qs, (d, None)) \<and>
    length (pipe_unread (PipeTbl d ! 0)) = 1 \<and> [(3, 1, [24, 1])] = seen @ left \<and>
    suffix (stream_data (rd (Sock d 4))) (wire_bytes left) \<and>
    subseq accepted (app_messages cfs_small seen) \<and>
    (\<forall>bs \<in> set accepted. id_among cfs_small (topics (PipeTbl live) three_threads) 0 bs) \<and> list_all2 slot_carries stored accepted \<and>
    pipe_unread (PipeTbl live ! 0) @ stored = taken @ pipe_unread (PipeTbl d ! 0)"
proof -
  obtain ps c' qs d where run: "isteps (crew False cfs_small list_packer three_threads, (live, None)) (qs, (d, None))"
    and n: "NumberOfMessages (PipeTbl d ! 0) = 2" by (rule live_run)
  have proper: "\<forall>xs \<in> set three_threads. \<forall>x \<in> set xs. proper_call cfs_small x \<and> \<not> deletes x \<and> \<not> (False \<and> pends x) \<and>
      (\<forall>bs. \<not> offers x bs)"
    by (simp add: three_threads_def)
  have one: "\<forall>t < length three_threads. \<forall>x \<in> set (three_threads ! t). reads x \<longrightarrow> t = 0"
    by (auto simp: three_threads_def less_Suc_eq numeral_3_eq_3)
  have fs: "tidy (rd (Sock live (sbn_client_sockfd live)))" "\<forall>f \<in> set [(3, 1, [24, 1])]. frame_ok cfs_small f"
    "stream_data (rd (Sock live (sbn_client_sockfd live))) = wire_bytes [(3, 1, [24, 1])]"
    by (simp_all add: frame_ok_def control_type_def sbn_header_def be16_def be32_def)
  have "\<exists>seen left. [(3, 1, [24, 1])] = seen @ left \<and> suffix (stream_data (rd (Sock d (sbn_client_sockfd live)))) (wire_bytes left) \<and>
      (\<forall>i < 5. \<exists>accepted taken stored. subseq accepted (app_messages cfs_small seen) \<and>
        (\<forall>bs \<in> set accepted. id_among cfs_small (topics (PipeTbl live) three_threads) i bs) \<and> list_all2 slot_carries stored accepted \<and>
        pipe_unread (PipeTbl live ! i) @ stored = taken @ pipe_unread (PipeTbl d ! i))"
    using threads_deliver_frames [OF platform_ok_cfs(2) packer_ok_list_packer proper one live_table(1)
      live_fields(8) live_table(2,3) fs run] by blast
  then obtain seen left where a: "[(3, 1, [24, 1])] = seen @ left" "suffix (stream_data (rd (Sock d (sbn_client_sockfd live)))) (wire_bytes left)"
    and q: "\<forall>i < 5. \<exists>accepted taken stored. subseq accepted (app_messages cfs_small seen) \<and>
        (\<forall>bs \<in> set accepted. id_among cfs_small (topics (PipeTbl live) three_threads) i bs) \<and> list_all2 slot_carries stored accepted \<and>
        pipe_unread (PipeTbl live ! i) @ stored = taken @ pipe_unread (PipeTbl d ! i)"
    by blast
  have "(0 :: nat) < 5" by simp
  then obtain accepted taken stored where "subseq accepted (app_messages cfs_small seen)"
    "\<forall>bs \<in> set accepted. id_among cfs_small (topics (PipeTbl live) three_threads) 0 bs" "list_all2 slot_carries stored accepted"
    "pipe_unread (PipeTbl live ! 0) @ stored = taken @ pipe_unread (PipeTbl d ! 0)"
    using q by blast
  moreover have "suffix (stream_data (rd (Sock d 4))) (wire_bytes left)" using a(2) by simp
  moreover have "length (pipe_unread (PipeTbl d ! 0)) = 1" using n by simp
  ultimately show ?thesis using run a(1) by blast
qed


theorem wire_frames_witness:
  "\<exists>qs d fs. isteps (crew False cfs_small list_packer three_threads, (live, None)) (qs, (d, None)) \<and>
    sent (Sock d 4) = [0, 0, 0xA0, 0, 0, 0, 2] \<and> sent (Sock d 4) = concat fs \<and> set fs \<subseteq> {sbn_header 0 0xA0 2}"
proof -
  obtain ps c' qs d where run: "isteps (crew False cfs_small list_packer three_threads, (live, None)) (qs, (d, None))"
    and bytes: "sent (Sock d 4) = [0, 0, 0xA0, 0, 0, 0, 2]" by (rule live_run)
  have fits: "\<forall>m :: 16 word. 7 + length (sub_payload cfs_small be16 m 0 0) \<le> SBN_PACKED_SUB_SZ cfs_small"
    by (simp add: sub_payload_def be16_def)
  have "wr (Sock live (sbn_client_sockfd live)) = []" by simp
  from wire_frames [OF platform_ok_cfs(2) packer_ok_list_packer three_threads_calls fits live_table(1) live_fields(8) this run]
  obtain fs where "sent (Sock d 4) = concat fs" "\<forall>f \<in> set fs. f = sbn_header 0 0xA0 2"
    by (auto simp: three_threads_def)
  then show ?thesis using run bytes by blast
qed

theorem call_alone_witness:
  "alone (call_prog True cfs_small list_packer 0 (Receive 0 True 0xFF 0)) (client_subscribed cfs_small (0x1801 :: 16 word), None) =
    Inl OutOfBounds"
proof -
  let ?c = "client_subscribed cfs_small (0x1801 :: 16 word)"
  have "whole_call cfs_small list_packer (Timespec 5 0) (Receive 0 True 0xFF 0) ?c = Inl OutOfBounds"
    by (simp add: RcvMsg_wild [OF client_subscribed_inv])
  then show ?thesis
    unfolding call_alone [OF platform_ok_cfs(2) tbl_inv_wf [OF client_subscribed_inv], where now = "Timespec 5 0"] by simp
qed

end
