(* ===== verification/SBN_Signals.thy ===== *)
theory SBN_Signals
  imports SBN_System
begin

text \<open>
  The condition variable as it is: a signal wakes one thread that waits at that moment, whichever pipe
  it waits for, and is lost when nobody waits. \<open>ingest_app_message\<close> signals after it has given up the
  mutex, so a delivery is two steps. Any number of threads receive frames and take messages.
\<close>

section \<open>The step relation\<close>

text \<open>Where a thread is: outside a call, asleep in the wait of a receive on entry \<open>i\<close>, woken, or about to signal.\<close>

datatype phase = Idle | Asleep nat | Awake nat | Signalling

text \<open>The client, the threads, and what the receive calls of each thread have returned.\<close>

type_synonym 'i scene = "'i client \<times> (nat \<Rightarrow> phase) \<times> (nat \<Rightarrow> (i32 \<times> bufptr) list)"

definition signalled :: "'i client \<Rightarrow> 'i client \<Rightarrow> bool" where
  "signalled c c' \<longleftrightarrow> length (Sync c) < length (Sync c') \<and> last (Sync c') = Cond_signal"

definition before_signal :: "'i client \<Rightarrow> 'i client" where
  "before_signal c = c\<lparr>Sync := butlast (Sync c)\<rparr>"

text \<open>A receive with these arguments gets to the wait, for entry \<open>i\<close>.\<close>

definition sleeps :: "platform \<Rightarrow> 'm::len word client \<Rightarrow> u8 \<Rightarrow> i32 \<Rightarrow> nat \<Rightarrow> bool" where
  "sleeps P c pid TimeOut i \<longleftrightarrow>
     (case rcv_args P True pid TimeOut c of
        Inl f \<Rightarrow> False
      | Inr (st, idx, c1) \<Rightarrow> st = CFE_SUCCESS P \<and> unat idx = i \<and> i < length (PipeTbl c) \<and>
          pipe_empty (PipeTbl c ! i) \<and> TimeOut \<noteq> CFE_SB_POLL P)"

text \<open>\<open>R\<close> are the threads that call \<open>CFE_SB_RcvMsg\<close>; locking and unlocking succeed.\<close>

inductive wake_step :: "nat set \<Rightarrow> platform \<Rightarrow> ('m::len word, 'k, 'u) packer \<Rightarrow>
    'm word scene \<Rightarrow> 'm word scene \<Rightarrow> bool" for R P K where
  Frame: "ph t = Idle \<Longrightarrow> recv_msg P K g h (sbn_client_sockfd c) c = Inr (st, c') \<Longrightarrow>
    wake_step R P K (c, ph, out)
      (if signalled c c' then (before_signal c', ph(t := Signalling), out) else (c', ph, out))"
| Signal_one: "ph t = Signalling \<Longrightarrow> ph u = Asleep i \<Longrightarrow>
    wake_step R P K (c, ph, out) (sync Cond_signal c, ph(t := Idle, u := Awake i), out)"
| Signal_none: "ph t = Signalling \<Longrightarrow> \<forall>u i. ph u \<noteq> Asleep i \<Longrightarrow>
    wake_step R P K (c, ph, out) (sync Cond_signal c, ph(t := Idle), out)"
| Heart: "ph t = Idle \<Longrightarrow> wake_step R P K (c, ph, out) (heartbeat_round P K c, ph, out)"
| Create_pipe: "ph t = Idle \<Longrightarrow> wrap_CFE_SB_CreatePipe P ptr depth name c = Inr (st, idp, c') \<Longrightarrow>
    wake_step R P K (c, ph, out) (c', ph, out)"
| Delete_pipe: "ph t = Idle \<Longrightarrow> wrap_CFE_SB_DeletePipe P pid c = (st, c') \<Longrightarrow>
    wake_step R P K (c, ph, out) (c', ph, out)"
| Subscribe_pipe: "ph t = Idle \<Longrightarrow> wrap_CFE_SB_Subscribe P K m pid c = Inr (st, c') \<Longrightarrow>
    wake_step R P K (c, ph, out) (c', ph, out)"
| Send_msg: "ph t = Idle \<Longrightarrow> wrap_CFE_SB_SendMsg P K got g msg c = Inr (st, c') \<Longrightarrow>
    wake_step R P K (c, ph, out) (c', ph, out)"
| Take: "t \<in> R \<Longrightarrow> ph t = Idle \<Longrightarrow> lock_ret e = 0 \<Longrightarrow> unlock_ret e = 0 \<Longrightarrow>
    \<not> (ptr \<and> (\<exists>i. sleeps P c pid TimeOut i)) \<Longrightarrow>
    wrap_CFE_SB_RcvMsg P e ptr pid TimeOut c = Inr (st, b, c') \<Longrightarrow>
    wake_step R P K (c, ph, out) (c', ph, out(t := out t @ [(st, b)]))"
| Sleep: "t \<in> R \<Longrightarrow> ph t = Idle \<Longrightarrow> sleeps P c pid TimeOut i \<Longrightarrow>
    wake_step R P K (c, ph, out) (sync Cond_wait (sync Mutex_lock c), ph(t := Asleep i), out)"
| Wake: "ph t = Awake i \<Longrightarrow> unlock_ret e = 0 \<Longrightarrow>
    rcv_finish P e i (CFE_SUCCESS P) 0 (sync Mutex_lock c) = Inr (st, b, c') \<Longrightarrow>
    wake_step R P K (c, ph, out) (c', ph(t := Idle), out(t := out t @ [(st, b)]))"
| Expire: "ph t = Asleep i \<Longrightarrow> w \<noteq> 0 \<Longrightarrow> unlock_ret e = 0 \<Longrightarrow>
    rcv_finish P e i (CFE_SUCCESS P) w (sync Mutex_lock c) = Inr (st, b, c') \<Longrightarrow>
    wake_step R P K (c, ph, out) (c', ph(t := Idle), out(t := out t @ [(st, b)]))"

inductive_cases wake_step_cases: "wake_step R P K s s'"

section \<open>What makes a pipe non-empty\<close>

text \<open>Only a delivery does, and then it signals: every other call leaves an empty pipe empty.\<close>

definition still_empty :: "'i client \<Rightarrow> 'i client \<Rightarrow> bool" where
  "still_empty c c' \<longleftrightarrow> length (PipeTbl c') = length (PipeTbl c) \<and>
     (\<forall>i < length (PipeTbl c). pipe_empty (PipeTbl c ! i) \<longrightarrow> pipe_empty (PipeTbl c' ! i))"

lemma still_empty_same: "PipeTbl c' = PipeTbl c \<Longrightarrow> still_empty c c'"
  by (simp add: still_empty_def)

lemma still_empty_entry:
  assumes "PipeTbl c' = (PipeTbl c)[i := p]"
    and "i < length (PipeTbl c) \<Longrightarrow> pipe_empty (PipeTbl c ! i) \<Longrightarrow> pipe_empty p"
  shows "still_empty c c'"
  unfolding still_empty_def
proof (intro conjI allI impI)
  fix j assume "j < length (PipeTbl c)" "pipe_empty (PipeTbl c ! j)"
  then show "pipe_empty (PipeTbl c' ! j)" using assms by (cases "j = i") simp_all
qed (use assms in simp)

lemma ingest_loop_signals:
  "ingest_loop n buf sz m used c = Inr c' \<Longrightarrow>
   length (PipeTbl c') = length (PipeTbl c) \<and> (PipeTbl c' = PipeTbl c \<or> signalled c c')"
proof (induction n arbitrary: used)
  case 0
  then show ?case by auto
next
  case (Suc n)
  then show ?case
    by (auto simp: Let_def bindR_Inr_iff ingest_into_def signalled_def split: if_splits option.splits)
qed

lemma recv_msg_signals:
  fixes c c' :: "'m::len word client"
  assumes run: "recv_msg P K g h fd c = Inr (st, c')"
  shows "length (PipeTbl c') = length (PipeTbl c) \<and> (PipeTbl c' = PipeTbl c \<or> signalled c c')"
proof -
  have rd: "PipeTbl t = PipeTbl s \<and> Sync t = Sync s"
    if "CFE_SBN_Client_ReadBytes P fd buf n s = Inr (st, buf', t)" "n \<le> length buf \<or> CFE_SB_MAX_SB_MSG_SIZE P < n"
    for buf n s st buf' and t :: "'m word client"
    using ReadBytes_only_read [OF that] by (simp add: only_read_def)
  have ingest: "length (PipeTbl v) = length (PipeTbl t) \<and> (PipeTbl v = PipeTbl t \<or> signalled t v)"
    if "ingest_app_message P h fd sz t = Inr v" for sz and t v :: "'m word client"
  proof -
    obtain st buf u where r: "CFE_SBN_Client_ReadBytes P fd (uninit h (CFE_SB_MAX_SB_MSG_SIZE P)) (unat sz) t = Inr (st, buf, u)"
      using \<open>ingest_app_message P h fd sz t = Inr v\<close> by (auto simp: ingest_app_message_def bindR_Inr_iff)
    have "PipeTbl u = PipeTbl t \<and> Sync u = Sync t" by (rule rd [OF r]) (simp add: linorder_not_less [symmetric])
    then show ?thesis
      using that ingest_loop_signals [of 5 buf sz "CFE_SBN_Client_GetMsgId P buf" False "sync Mutex_lock u" v]
      by (auto simp: ingest_app_message_def bindR_Inr_iff r signalled_def split: if_splits)
  qed
  obtain st1 hdr t where hd: "CFE_SBN_Client_ReadBytes P fd (uninit g (SBN_PACKED_HDR_SZ P)) (SBN_PACKED_HDR_SZ P) c
      = Inr (st1, hdr, t)" using run by (auto simp: recv_msg_def bindR_Inr_iff)
  have t: "PipeTbl t = PipeTbl c \<and> Sync t = Sync c" by (rule rd [OF hd]) simp
  obtain sz ty cpu where u: "unpack_header K hdr (SBN_PACKED_HDR_SZ P) = (sz, ty, cpu)"
    by (cases "unpack_header K hdr (SBN_PACKED_HDR_SZ P)")
  have payload: "PipeTbl v = PipeTbl t"
    if "CFE_SBN_Client_ReadBytes P fd (uninit h (CFE_SB_MAX_SB_MSG_SIZE P)) (unat sz) t = Inr (st2, b, v)" for st2 b v
    using rd [OF that] by (simp add: linorder_not_less [symmetric])
  show ?thesis
    using run payload ingest [of sz t] t
    by (auto simp: recv_msg_def hd u bindR_Inr_iff signalled_def split: if_splits)
qed

lemma recv_msg_fills:
  assumes run: "recv_msg P K g h fd c = Inr (st, c')"
  shows "length (PipeTbl c') = length (PipeTbl c) \<and> (signalled c c' \<or> still_empty c c')"
  using recv_msg_signals [OF run] still_empty_same by blast

lemma heartbeat_fills: "still_empty c (heartbeat_round P K c)"
  by (rule still_empty_same) (simp add: heartbeat_round_def send_heartbeat_def Let_def case_prod_beta)

lemma CreatePipe_fills:
  assumes "wrap_CFE_SB_CreatePipe P ptr depth name c = Inr (st, idp, c')"
  shows "still_empty c c'"
  using CreatePipe_state [OF assms]
proof (elim disjE exE conjE)
  fix i nm assume "c' = c\<lparr>PipeTbl := (PipeTbl c)[i := created_pipe P i nm (PipeTbl c ! i)]\<rparr>"
  then show ?thesis
    by (intro still_empty_entry [where i = i and p = "created_pipe P i nm (PipeTbl c ! i)"]) (simp_all add: pipe_empty_def)
qed (auto intro: still_empty_same)

lemma DeletePipe_fills: "wrap_CFE_SB_DeletePipe P pid c = (st, c') \<Longrightarrow> still_empty c c'"
  by (auto simp: wrap_CFE_SB_DeletePipe_def pipe_empty_def intro: still_empty_same intro!: still_empty_entry
      split: if_splits option.splits)

lemma Subscribe_fills:
  assumes "wrap_CFE_SB_Subscribe P K m pid c = Inr (st, c')"
  shows "still_empty c c'"
proof -
  consider "c' = c" | i ms where "i < length (PipeTbl c)" "PipeTbl c' = (PipeTbl c)[i := (PipeTbl c ! i)\<lparr>SubscribedMsgIds := ms\<rparr>]"
    using assms by (auto simp: wrap_CFE_SB_Subscribe_def set_subscription_def bindR_Inr_iff arr_get_def split: if_splits)
  then show ?thesis
    by cases (auto intro: still_empty_same intro!: still_empty_entry simp: pipe_empty_def)
qed

lemma rcv_finish_length:
  "rcv_finish P e i st w c = Inr (st', b, c') \<Longrightarrow> length (PipeTbl c') = length (PipeTbl c)"
  by (auto simp: rcv_finish_def Let_def bindR_Inr_iff split: if_splits)

lemma Take_length:
  assumes P: "platform_ok P" and "lock_ret e = 0" and now: "\<not> (ptr \<and> (\<exists>i. sleeps P c pid TimeOut i))"
    and run: "wrap_CFE_SB_RcvMsg P e ptr pid TimeOut c = Inr (st, b, c')"
  shows "length (PipeTbl c') = length (PipeTbl c)"
proof -
  obtain st1 idx c1 where a: "rcv_args P ptr pid TimeOut c = Inr (st1, idx, c1)"
    using run by (auto simp: wrap_CFE_SB_RcvMsg_def bindR_Inr_iff)
  show ?thesis
  proof (cases "st1 = CFE_SUCCESS P")
    case True
    then have ptr: ptr "c1 = c"
      using a platform_okD(1,3) [OF P] by (auto simp: rcv_args_def bindR_Inr_iff split: if_splits)
    then have a: "rcv_args P True pid TimeOut c = Inr (CFE_SUCCESS P, idx, c)" using a True by simp
    have "unat idx < length (PipeTbl c)"
      using run ptr by (auto simp: wrap_CFE_SB_RcvMsg_def a Let_def bindR_Inr_iff arr_get_def split: if_splits)
    then have i: "arr_get (PipeTbl c) (unat idx) = Inr (PipeTbl c ! unat idx)"
      "pipe_empty (PipeTbl c ! unat idx) \<longrightarrow> TimeOut = CFE_SB_POLL P"
      using now a ptr by (auto simp: sleeps_def)
    have "\<exists>st2. rcv_finish P e (unat idx) st2 0 (sync Mutex_lock c) = Inr (st, b, c')"
      using run i(2) assms(2) ptr
      by (auto simp: wrap_CFE_SB_RcvMsg_def a Let_def i(1) rcv_wait_def split: if_splits)
    then show ?thesis using rcv_finish_length by fastforce
  next
    case False
    then have "c' = c1" using run by (auto simp: wrap_CFE_SB_RcvMsg_def a)
    then show ?thesis using a by (auto simp: rcv_args_def bindR_Inr_iff split: if_splits)
  qed
qed

section \<open>No wake-up is lost for a single receiver\<close>

text \<open>While the receiver sleeps, its pipe is empty or the signal for the message in it is still to come.\<close>

definition wake_due :: "nat \<Rightarrow> 'i scene \<Rightarrow> bool" where
  "wake_due r s \<longleftrightarrow> (case s of (c, ph, out) \<Rightarrow>
     (\<forall>u i. ph u = Asleep i \<longrightarrow> u = r \<and> i < length (PipeTbl c) \<and>
       (pipe_empty (PipeTbl c ! i) \<or> (\<exists>t. ph t = Signalling))) \<and>
     (\<forall>u i. ph u = Awake i \<longrightarrow> u = r))"

lemma wake_dueI:
  assumes "\<And>u i. ph u = Asleep i \<Longrightarrow> u = r \<and> i < length (PipeTbl c) \<and>
      (pipe_empty (PipeTbl c ! i) \<or> (\<exists>t. ph t = Signalling))"
    and "\<And>u i. ph u = Awake i \<Longrightarrow> u = r"
  shows "wake_due r (c, ph, out)"
  using assms unfolding wake_due_def by blast

lemma wake_dueD:
  assumes "wake_due r (c, ph, out)"
  shows "ph u = Asleep i \<Longrightarrow> u = r" "ph u = Asleep i \<Longrightarrow> i < length (PipeTbl c)"
    "ph u = Asleep i \<Longrightarrow> \<not> pipe_empty (PipeTbl c ! i) \<Longrightarrow> \<exists>t. ph t = Signalling" "ph u = Awake i \<Longrightarrow> u = r"
  using assms unfolding wake_due_def by blast+

lemma wake_due_quiet:
  assumes inv: "wake_due r (c, ph, out)" and "still_empty c c'"
  shows "wake_due r (c', ph, out')"
proof (rule wake_dueI)
  fix u i assume "ph u = Asleep i"
  then show "u = r \<and> i < length (PipeTbl c') \<and> (pipe_empty (PipeTbl c' ! i) \<or> (\<exists>t. ph t = Signalling))"
    using wake_dueD(1-3) [OF inv] assms(2) unfolding still_empty_def by metis
qed (rule wake_dueD(4) [OF inv])

text \<open>A step that leaves nobody asleep.\<close>

lemma wake_due_none:
  assumes "\<And>u i. ph u \<noteq> Asleep i" and "\<And>u i. ph u = Awake i \<Longrightarrow> u = r"
  shows "wake_due r (c, ph, out)"
  by (rule wake_dueI) (use assms in blast)+

lemma wake_due_step:
  assumes P: "platform_ok P" and step: "wake_step {r} P K s s'" and inv: "wake_due r s"
  shows "wake_due r s'"
  using step
proof cases
  case (Frame ph t g h c st c' out)
  note fill = recv_msg_fills [OF Frame(4)]
  note w = wake_dueD [OF inv [unfolded Frame(1)]]
  show ?thesis
  proof (cases "signalled c c'")
    case True
    have "wake_due r (before_signal c', ph(t := Signalling), out)"
      by (rule wake_dueI) (use w(1,2,4) fill in \<open>auto simp: before_signal_def split: if_splits\<close>)
    then show ?thesis using True Frame(2) by simp
  next
    case False
    then show ?thesis using fill inv Frame(1,2) wake_due_quiet [of r c ph out c' out] by simp
  qed
next
  case (Signal_one ph t u i c out)
  note w = wake_dueD [OF inv [unfolded Signal_one(1)]]
  show ?thesis
    unfolding Signal_one(2)
    by (rule wake_due_none) (use w(1) [OF Signal_one(4)] w(1,4) in \<open>auto split: if_splits\<close>)
next
  case (Signal_none ph t c out)
  note w = wake_dueD [OF inv [unfolded Signal_none(1)]]
  show ?thesis
    unfolding Signal_none(2) by (rule wake_due_none) (use w(4) Signal_none(4) in \<open>auto split: if_splits\<close>)
next
  case (Heart ph t c out)
  then show ?thesis using wake_due_quiet [OF inv [unfolded Heart(1)] heartbeat_fills] by simp
next
  case (Create_pipe ph t ptr depth name c st idp c' out)
  then show ?thesis using wake_due_quiet [OF inv [unfolded Create_pipe(1)] CreatePipe_fills] by simp
next
  case (Delete_pipe ph t pid c st c' out)
  then show ?thesis using wake_due_quiet [OF inv [unfolded Delete_pipe(1)] DeletePipe_fills] by simp
next
  case (Subscribe_pipe ph t m pid c st c' out)
  then show ?thesis using wake_due_quiet [OF inv [unfolded Subscribe_pipe(1)] Subscribe_fills] by simp
next
  case (Send_msg ph t got g msg c st c' out)
  have "PipeTbl c' = PipeTbl c" using SendMsg_keeps [OF Send_msg(4)] by simp
  then show ?thesis
    using wake_due_quiet [OF inv [unfolded Send_msg(1)] still_empty_same] unfolding Send_msg(2) by blast
next
  case (Take t ph e ptr c pid TimeOut st b c' out)
  note w = wake_dueD [OF inv [unfolded Take(1)]]
  have "ph u \<noteq> Asleep i" for u i using w(1) [of u i] Take(3,4) by auto
  then show ?thesis unfolding Take(2) by (rule wake_due_none) (rule w(4))
next
  case (Sleep t ph c pid TimeOut i out)
  note w = wake_dueD [OF inv [unfolded Sleep(1)]]
  have "t = r" "i < length (PipeTbl c)" "pipe_empty (PipeTbl c ! i)"
    using Sleep(3,5) by (auto simp: sleeps_def split: sum.splits)
  then show ?thesis
    unfolding Sleep(2) by (intro wake_dueI) (use w(1,4) Sleep(4) in \<open>auto split: if_splits\<close>)
next
  case (Wake ph t i e c st b c' out)
  note w = wake_dueD [OF inv [unfolded Wake(1)]]
  have t: "t = r" by (rule w(4) [OF Wake(3)])
  have "ph u \<noteq> Asleep j" if "u \<noteq> r" for u j using w(1) that by blast
  then show ?thesis
    unfolding Wake(2) t by (intro wake_due_none) (use w(4) in \<open>auto split: if_splits\<close>)
next
  case (Expire ph t i w e c st b c' out)
  note w = wake_dueD [OF inv [unfolded Expire(1)]]
  have t: "t = r" by (rule w(1) [OF Expire(3)])
  have "ph u \<noteq> Asleep j" if "u \<noteq> r" for u j using w(1) that by blast
  then show ?thesis
    unfolding Expire(2) t by (intro wake_due_none) (use w(4) in \<open>auto split: if_splits\<close>)
qed

interpretation wk: transition_system "wake_step {r} P K" "\<lambda>s. platform_ok P \<and> wake_due r s" for r P K
  by unfold_locales (blast intro: wake_due_step)

lemma wake_due_start: "wake_due r (c, \<lambda>_. Idle, out)"
  by (simp add: wake_due_def)

text \<open>
  C10. No wake-up is lost for a single receiver: any number of threads receive frames and create, delete,
  subscribe and send, one thread calls \<open>CFE_SB_RcvMsg\<close>, and no wait ends without a signal. Whenever the
  receiver sleeps on a pipe with an unread message, a delivery is about to signal; it wakes the receiver, whose call
  then returns success with the next slot.
\<close>

theorem no_lost_wakeup:
  assumes P: "platform_ok P" and run: "steps (wake_step {r} P K) (c0, \<lambda>_. Idle, out0) (c, ph, out)"
    and asleep: "ph r = Asleep i" and message: "\<not> pipe_empty (PipeTbl c ! i)"
  shows "\<exists>t c'. ph t = Signalling \<and>
    wake_step {r} P K (c, ph, out) (sync Cond_signal c, ph(t := Idle, r := Awake i), out) \<and>
    wake_step {r} P K (sync Cond_signal c, ph(t := Idle, r := Awake i), out)
      (c', ph(t := Idle, r := Idle), out(r := out r @ [(CFE_SUCCESS P, Slot i (unat (pipe_next (PipeTbl c ! i))))])) \<and>
    PipeTbl c' = (PipeTbl c)[i := pipe_get (PipeTbl c ! i)]"
proof -
  have "platform_ok P \<and> wake_due r (c, ph, out)" by (rule wk.run_inv [OF run]) (simp add: P wake_due_start)
  then obtain t where t: "ph t = Signalling" "i < length (PipeTbl c)"
    using wake_dueD(2,3) asleep message by metis
  let ?c = "sync Mutex_lock (sync Cond_signal c)" and ?ph = "ph(t := Idle, r := Awake i)"
  let ?c' = "sync Mutex_unlock (with_entry i (pipe_get (PipeTbl c ! i)) ?c)"
  have "rcv_finish P calm i (CFE_SUCCESS P) 0 ?c =
      Inr (CFE_SUCCESS P, Slot i (unat (pipe_next (PipeTbl c ! i))), ?c')"
    using rcv_finish_take [of i ?c calm P] t(2) by simp
  from Wake [where ph = ?ph and t = r and R = "{r}" and K = K and out = out, OF _ _ this]
  have w: "wake_step {r} P K (sync Cond_signal c, ?ph, out)
      (?c', ?ph(r := Idle), out(r := out r @ [(CFE_SUCCESS P, Slot i (unat (pipe_next (PipeTbl c ! i))))]))" by simp
  show ?thesis
    by (intro exI [of _ t] exI [of _ ?c'] conjI, rule t(1), rule Signal_one [OF t(1) asleep]) (use w t(2) in simp_all)
qed

section \<open>Deliveries, step by step\<close>

text \<open>The effect of each step on the table, whatever the state of the rings; \<open>i\<close> is an entry in use.\<close>

definition in_use :: "platform \<Rightarrow> 'm::len word client \<Rightarrow> nat \<Rightarrow> bool" where
  "in_use P c i \<longleftrightarrow> length (PipeTbl c) = 5 \<and> i < 5 \<and> pipe_wf P (PipeTbl c ! i) \<and> InUse (PipeTbl c ! i) = 1 \<and>
     PipeId (PipeTbl c ! i) = of_nat i"

lemma in_use_args:
  "in_use P c i \<Longrightarrow> \<not> sint TimeOut < -1 \<Longrightarrow> rcv_args P True (of_nat i) TimeOut c = Inr (CFE_SUCCESS P, of_nat i, c)"
  by (simp add: in_use_def rcv_args_def CFE_SBN_Client_GetPipeIdx_def small_index_u8)

lemma take_step:
  assumes P: "platform_ok P" and use: "in_use P c i" and "\<not> pipe_empty (PipeTbl c ! i)" and "t \<in> R" "ph t = Idle"
  shows "\<exists>c'. wake_step R P K (c, ph, out)
      (c', ph, out(t := out t @ [(CFE_SUCCESS P, Slot i (unat (pipe_next (PipeTbl c ! i))))])) \<and>
    PipeTbl c' = (PipeTbl c)[i := pipe_get (PipeTbl c ! i)] \<and> Sock c' = Sock c \<and>
    sbn_client_sockfd c' = sbn_client_sockfd c"
proof -
  have args: "rcv_args P True (of_nat i) (-1) c = Inr (CFE_SUCCESS P, of_nat i, c)"
    using use by (rule in_use_args) simp
  have i: "unat (of_nat i :: u8) = i" "i < length (PipeTbl c)"
    using use small_index_u8(1) [of i] by (simp_all add: in_use_def)
  let ?c' = "sync Mutex_unlock (with_entry i (pipe_get (PipeTbl c ! i)) (sync Mutex_lock c))"
  have "wrap_CFE_SB_RcvMsg P calm True (of_nat i) (-1) c =
      Inr (CFE_SUCCESS P, Slot i (unat (pipe_next (PipeTbl c ! i))), ?c')"
    using assms(3) i rcv_finish_take [of i "sync Mutex_lock c" calm P]
    by (simp add: wrap_CFE_SB_RcvMsg_def args Let_def)
  then have "wake_step R P K (c, ph, out)
      (?c', ph, out(t := out t @ [(CFE_SUCCESS P, Slot i (unat (pipe_next (PipeTbl c ! i))))]))"
    by (intro Take [where e = calm] assms(4,5)) (use assms(3) args i(1) in \<open>simp_all add: sleeps_def\<close>)
  then show ?thesis by (intro exI [of _ ?c']) (simp add: with_entry_def)
qed

lemma sleep_step:
  assumes P: "platform_ok P" and use: "in_use P c i" and "pipe_empty (PipeTbl c ! i)" and "t \<in> R" "ph t = Idle"
  shows "wake_step R P K (c, ph, out) (sync Cond_wait (sync Mutex_lock c), ph(t := Asleep i), out)"
proof (rule Sleep [where t = t and ph = ph, OF assms(4,5)])
  have args: "rcv_args P True (of_nat i) (-1) c = Inr (CFE_SUCCESS P, of_nat i, c)"
    using use by (rule in_use_args) simp
  show "sleeps P c (of_nat i) (-1) i"
    using args use assms(3) small_index_u8(1) [of i] platform_okD(10) [OF P] by (simp add: sleeps_def in_use_def)
qed

lemma woken_step:
  assumes "ph t = Awake i" and "i < length (PipeTbl c)"
  shows "\<exists>c'. wake_step R P K (c, ph, out)
      (c', ph(t := Idle), out(t := out t @ [(CFE_SUCCESS P, Slot i (unat (pipe_next (PipeTbl c ! i))))])) \<and>
    PipeTbl c' = (PipeTbl c)[i := pipe_get (PipeTbl c ! i)] \<and> Sock c' = Sock c \<and>
    sbn_client_sockfd c' = sbn_client_sockfd c"
proof -
  let ?c' = "sync Mutex_unlock (with_entry i (pipe_get (PipeTbl c ! i)) (sync Mutex_lock c))"
  have "rcv_finish P calm i (CFE_SUCCESS P) 0 (sync Mutex_lock c) =
      Inr (CFE_SUCCESS P, Slot i (unat (pipe_next (PipeTbl c ! i))), ?c')"
    using rcv_finish_take [of i "sync Mutex_lock c" calm P] assms(2) by simp
  from Wake [where R = R and K = K and out = out and t = t and ph = ph, OF assms(1) _ this]
  have "wake_step R P K (c, ph, out)
      (?c', ph(t := Idle), out(t := out t @ [(CFE_SUCCESS P, Slot i (unat (pipe_next (PipeTbl c ! i))))]))" by simp
  then show ?thesis by (intro exI [of _ ?c']) (simp add: with_entry_def)
qed

text \<open>A delivery whatever the state of the rings, where \<open>recv_msg_app\<close> asks for the invariant of the table.\<close>

lemma recv_msg_into:
  fixes s :: "'m::len word client"
  assumes P: "platform_ok P" and K: "packer_ok K enc"
    and stream: "incoming (rd (Sock s fd)) = sbn_header sz (SBN_APP_MSG P) cpu @ bs @ rest"
    and len: "length bs = unat sz" "unat sz \<le> CFE_SB_MAX_SB_MSG_SIZE P"
    and tbl: "length (PipeTbl s) = 5" "route (PipeTbl s) (app_msgid P h bs) = Some i" "i < 5"
      "\<not> pipe_full (PipeTbl s ! i)" "pipe_put bs (PipeTbl s ! i) = Inr q"
  shows "\<exists>s'. recv_msg P K g h fd s = Inr (CFE_SUCCESS P, s') \<and> signalled s s' \<and>
    incoming (rd (Sock s' fd)) = rest \<and> PipeTbl s' = (PipeTbl s)[i := q] \<and>
    sbn_client_sockfd s' = sbn_client_sockfd s"
proof -
  obtain t where t: "only_read fd s t" "incoming (rd (Sock t fd)) = bs @ rest"
    and run: "recv_msg P K g h fd s = bindR (ingest_app_message P h fd sz t) (\<lambda>s2. Inr (CFE_SUCCESS P, s2))"
    using recv_msg_header [OF P K stream, of g h] app_type_not_control [OF P] by auto
  let ?u = "uninit h (CFE_SB_MAX_SB_MSG_SIZE P)"
  obtain v where v: "CFE_SBN_Client_ReadBytes P fd ?u (unat sz) t = Inr (CFE_SUCCESS P, overwrite ?u 0 bs, v)"
    "incoming (rd (Sock v fd)) = rest" "only_read fd t v"
    using ReadBytes_enough [OF len(2), of ?u t fd] t(2) len by auto
  have same: "PipeTbl v = PipeTbl s" "Sync v = Sync s" "sbn_client_sockfd v = sbn_client_sockfd s"
    using t(1) v(3) by (simp_all add: only_read_def)
  have "take (unat sz) (overwrite ?u 0 bs) = bs" using take_overwrite_0 [of bs ?u] len by simp
  moreover have "unat sz \<le> length (overwrite ?u 0 bs)" using len by simp
  ultimately have "ingest_into i (overwrite ?u 0 bs) sz (app_msgid P h bs) (sync Mutex_lock v) =
      Inr (sync Cond_signal (sync Mutex_unlock (with_entry i q
        (log_message ''App message received: MsgId 0x%08X'' [Int_arg (ucast (app_msgid P h bs :: 'm word))] (sync Mutex_lock v)))))"
    using tbl same(1) by (simp add: ingest_into_def with_entry_def)
  then show ?thesis
    using run v(1,2) tbl same ingest_loop_route [of "sync Mutex_lock v"]
    by (simp add: ingest_app_message_def app_msgid_def ingest_rest_def signalled_def)
qed

lemma frame_step:
  fixes c :: "'m::len word client"
  assumes P: "platform_ok P" and K: "packer_ok K enc" and use: "in_use P c i" and "ph t = Idle"
    and stream: "incoming (rd (Sock c (sbn_client_sockfd c))) = frame_bytes (SBN_APP_MSG P, cpu, bs) @ rest"
    and len: "length bs < 65536" "length bs \<le> CFE_SB_MAX_SB_MSG_SIZE P"
    and route: "route (PipeTbl c) (app_msgid P h bs) = Some i" and room: "NumberOfMessages (PipeTbl c ! i) \<noteq> 32"
  shows "\<exists>c' q. wake_step R P K (c, ph, out) (c', ph(t := Signalling), out) \<and> pipe_put bs (PipeTbl c ! i) = Inr q \<and>
    PipeTbl c' = (PipeTbl c)[i := q] \<and> sbn_client_sockfd c' = sbn_client_sockfd c \<and>
    incoming (rd (Sock c' (sbn_client_sockfd c))) = rest"
proof -
  have u: "in_use P c i" by (rule use)
  obtain q where q: "pipe_put bs (PipeTbl c ! i) = Inr q"
    using pipe_put_eq [OF _ len(2), of "PipeTbl c ! i"] u by (auto simp: in_use_def)
  have sz: "length bs = unat (of_nat (length bs) :: u16)" using len(1) by (rule frame_sz [symmetric])
  have "\<exists>s'. recv_msg P K h h (sbn_client_sockfd c) c = Inr (CFE_SUCCESS P, s') \<and> signalled c s' \<and>
    incoming (rd (Sock s' (sbn_client_sockfd c))) = rest \<and> PipeTbl s' = (PipeTbl c)[i := q] \<and>
    sbn_client_sockfd s' = sbn_client_sockfd c"
    by (rule recv_msg_into [OF P K _ sz, where cpu = cpu and rest = rest])
      (use stream u sz len route room q in \<open>simp_all add: in_use_def pipe_full_def\<close>)
  then obtain s' where s': "recv_msg P K h h (sbn_client_sockfd c) c = Inr (CFE_SUCCESS P, s')" "signalled c s'"
    "incoming (rd (Sock s' (sbn_client_sockfd c))) = rest" "PipeTbl s' = (PipeTbl c)[i := q]"
    "sbn_client_sockfd s' = sbn_client_sockfd c" by blast
  have "wake_step R P K (c, ph, out) (before_signal s', ph(t := Signalling), out)"
    using Frame [where t = t and ph = ph and R = R and out = out, OF assms(4) s'(1)] s'(2) by simp
  then show ?thesis using q s'(3-5) by (intro exI [of _ "before_signal s'"]) (simp add: before_signal_def)
qed

section \<open>Two races over a signal\<close>

lemma steps_one: "step s t \<Longrightarrow> steps step s t"
  by (rule steps_trans [OF steps_refl])

lemma steps_append: "steps step t u \<Longrightarrow> steps step s t \<Longrightarrow> steps step s u"
  by (induction rule: steps.induct) (blast intro: steps.intros)+

lemma route_zero: "0 < length tbl \<Longrightarrow> wants m (tbl ! 0) \<Longrightarrow> route tbl m = Some 0"
  by (cases tbl) (simp_all add: route_def scan_def)

text \<open>One pipe, one receiver (thread 1), two messages in the stream that thread 0 reads.\<close>

definition two_messages :: "16 word client" where
  "two_messages = listening [Rd_Data [0, 3, 3, 0, 0, 0, 1, 24, 1, 7, 0, 3, 3, 0, 0, 0, 1, 24, 1, 9]]
     (client_subscribed cfs_small 0x1801)"

lemma two_messages_facts:
  "PipeTbl two_messages ! 0 = subscribed_entry 0 0x1801 (created_pipe cfs_small 0 [0x61] (fresh_pipe cfs_small))"
  "length (PipeTbl two_messages) = 5" "sbn_client_sockfd two_messages = 0"
  "incoming (rd (Sock two_messages 0)) = frame_bytes (3, 1, [24, 1, 7]) @ frame_bytes (3, 1, [24, 1, 9])"
  by (simp_all add: two_messages_def client_subscribed_entry tbl_invD(1) [OF client_subscribed_inv]
      sbn_header_def be16_def be32_def)

text \<open>The pipe through the run: its counters and the slots that matter.\<close>

definition pipe_is :: "16 word pipe \<Rightarrow> u32 \<Rightarrow> u32 \<Rightarrow> bool" where
  "pipe_is p r n \<longleftrightarrow> pipe_wf cfs_small p \<and> InUse p = 1 \<and> PipeId p = 0 \<and> 0x1801 \<in> set (SubscribedMsgIds p) \<and>
     ReadMessage p = r \<and> NumberOfMessages p = n"

lemma pipe_is_get: "pipe_is p r n \<Longrightarrow> pipe_is (pipe_get p) ((r + 1) mod 32) (n - 1)"
  by (simp add: pipe_is_def pipe_get_def pipe_next_def pipe_wf_def)

lemma pipe_is_put:
  assumes "pipe_is p r n" and "length bs \<le> 16" and "pipe_put bs p = Inr q"
  shows "pipe_is q r (n + 1) \<and> take (length bs) (Messages q ! (unat ((r + n) mod 32))) = bs"
proof -
  have wf: "pipe_wf cfs_small p" and len: "length bs \<le> CFE_SB_MAX_SB_MSG_SIZE cfs_small"
    using assms(1,2) by (simp_all add: pipe_is_def cfs_small_def)
  have e: "unat ((r + n) mod 32) < length (Messages p)"
    using wf assms(1) message_entry_point_bound [of p] by (simp add: pipe_wf_def pipe_is_def message_entry_point_def)
  show ?thesis
    using pipe_put_eq [OF wf len] pipe_put_wf [OF wf len assms(3)] assms(1,3) e take_overwrite_0 [of bs]
    by (auto simp: pipe_is_def message_entry_point_def)
qed

lemma app_id_1801: "app_msgid cfs_small (\<lambda>_. 0) [24, 1, x] = (0x1801 :: 16 word)"
  by (subst app_msgid_v1) simp_all

text \<open>The client with pipe 0 in that state, and the steps from it.\<close>

definition at_pipe :: "16 word client \<Rightarrow> u32 \<Rightarrow> u32 \<Rightarrow> bool" where
  "at_pipe c r n \<longleftrightarrow> length (PipeTbl c) = 5 \<and> pipe_is (PipeTbl c ! 0) r n \<and> sbn_client_sockfd c = 0"

abbreviation two_step :: "16 word scene \<Rightarrow> 16 word scene \<Rightarrow> bool" where
  "two_step \<equiv> wake_step {1} cfs_small list_packer"

lemmas run_on = steps_trans [where step = two_step]

lemma at_pipe_use: "at_pipe c r n \<Longrightarrow> in_use cfs_small c 0"
  by (simp add: at_pipe_def in_use_def pipe_is_def)

lemma frame_at:
  assumes at: "at_pipe c r n" and n: "n \<noteq> 32" and "ph 0 = Idle"
    and stream: "incoming (rd (Sock c 0)) = frame_bytes (3, 1, [24, 1, x]) @ rest"
  obtains c' where "two_step (c, ph, out) (c', ph(0 := Signalling), out)" "at_pipe c' r (n + 1)"
    "incoming (rd (Sock c' 0)) = rest" "take 3 (Messages (PipeTbl c' ! 0) ! unat ((r + n) mod 32)) = [24, 1, x]"
proof -
  have fd: "sbn_client_sockfd c = 0" "0 < length (PipeTbl c)" and p: "pipe_is (PipeTbl c ! 0) r n"
    using at by (simp_all add: at_pipe_def)
  have route: "route (PipeTbl c) (app_msgid cfs_small (\<lambda>_. 0) [24, 1, x]) = Some 0"
    unfolding app_id_1801 using p fd(2) by (intro route_zero) (simp_all add: wants_def pipe_is_def)
  have "\<exists>c' q. two_step (c, ph, out) (c', ph(0 := Signalling), out) \<and> pipe_put [24, 1, x] (PipeTbl c ! 0) = Inr q \<and>
    PipeTbl c' = (PipeTbl c)[0 := q] \<and> sbn_client_sockfd c' = sbn_client_sockfd c \<and>
    incoming (rd (Sock c' (sbn_client_sockfd c))) = rest"
    by (rule frame_step [where ph = ph and t = 0 and cpu = 1 and h = "\<lambda>_. 0",
        OF platform_ok_cfs(2) packer_ok_list_packer at_pipe_use [OF at] assms(3)])
      (use stream route p n fd in \<open>simp_all add: pipe_is_def\<close>)
  then obtain c' q where c': "two_step (c, ph, out) (c', ph(0 := Signalling), out)"
    "pipe_put [24, 1, x] (PipeTbl c ! 0) = Inr q" "PipeTbl c' = (PipeTbl c)[0 := q]"
    "sbn_client_sockfd c' = sbn_client_sockfd c" "incoming (rd (Sock c' (sbn_client_sockfd c))) = rest" by blast
  have "pipe_is q r (n + 1) \<and> take (length [24, 1, x]) (Messages q ! (unat ((r + n) mod 32))) = [24, 1, x]"
    by (rule pipe_is_put [OF p _ c'(2)]) simp
  then show thesis
    using at c' by (intro that [of c']) (simp_all add: at_pipe_def numeral_3_eq_3)
qed

lemma at_pipe_get:
  assumes "at_pipe c r n" and "PipeTbl c' = (PipeTbl c)[0 := pipe_get (PipeTbl c ! 0)]"
    and "sbn_client_sockfd c' = sbn_client_sockfd c"
  shows "at_pipe c' ((r + 1) mod 32) (n - 1)"
  using assms pipe_is_get [of "PipeTbl c ! 0" r n] by (simp add: at_pipe_def)

lemma take_at:
  assumes at: "at_pipe c r n" and "\<not> n < 2" and "ph 1 = Idle"
  obtains c' where "two_step (c, ph, out) (c', ph, out(1 := out 1 @ [(0, Slot 0 (unat ((r + 1) mod 32)))]))"
    "at_pipe c' ((r + 1) mod 32) (n - 1)" "Sock c' = Sock c"
proof -
  have p: "pipe_is (PipeTbl c ! 0) r n" using at by (simp add: at_pipe_def)
  have "\<not> pipe_empty (PipeTbl c ! 0)" using p assms(2) by (simp add: pipe_empty_def pipe_is_def)
  from take_step [OF platform_ok_cfs(2) at_pipe_use [OF at] this, of 1 "{1}" ph list_packer out] assms(3)
  obtain c' where "two_step (c, ph, out)
      (c', ph, out(1 := out 1 @ [(CFE_SUCCESS cfs_small, Slot 0 (unat (pipe_next (PipeTbl c ! 0))))]))"
    "PipeTbl c' = (PipeTbl c)[0 := pipe_get (PipeTbl c ! 0)]" "Sock c' = Sock c" "sbn_client_sockfd c' = sbn_client_sockfd c"
    by auto
  then show thesis using at_pipe_get [OF at] p by (intro that [of c']) (simp_all add: pipe_next_def pipe_is_def)
qed

lemma woken_at:
  assumes at: "at_pipe c r n" and "ph 1 = Awake 0"
  obtains c' where "two_step (c, ph, out) (c', ph(1 := Idle), out(1 := out 1 @ [(0, Slot 0 (unat ((r + 1) mod 32)))]))"
    "at_pipe c' ((r + 1) mod 32) (n - 1)" "Sock c' = Sock c"
proof -
  have p: "pipe_is (PipeTbl c ! 0) r n" and "0 < length (PipeTbl c)" using at by (simp_all add: at_pipe_def)
  from woken_step [where ph = ph and t = 1, OF assms(2) this(2), of "{1}" cfs_small list_packer out]
  obtain c' where "two_step (c, ph, out)
      (c', ph(1 := Idle), out(1 := out 1 @ [(CFE_SUCCESS cfs_small, Slot 0 (unat (pipe_next (PipeTbl c ! 0))))]))"
    "PipeTbl c' = (PipeTbl c)[0 := pipe_get (PipeTbl c ! 0)]" "Sock c' = Sock c" "sbn_client_sockfd c' = sbn_client_sockfd c"
    by auto
  then show thesis using at_pipe_get [OF at] p by (intro that [of c']) (simp_all add: pipe_next_def pipe_is_def)
qed

lemma sleep_at:
  assumes at: "at_pipe c r n" and "n < 2" and "ph 1 = Idle"
  shows "two_step (c, ph, out) (sync Cond_wait (sync Mutex_lock c), ph(1 := Asleep 0), out)"
proof -
  have "pipe_empty (PipeTbl c ! 0)" using at assms(2) by (simp add: at_pipe_def pipe_empty_def pipe_is_def)
  then show ?thesis by (intro sleep_step [OF platform_ok_cfs(2) at_pipe_use [OF at]] assms(3)) simp_all
qed

lemma at_pipe_sync [simp]: "at_pipe (sync e c) r n = at_pipe c r n"
  by (simp add: at_pipe_def)

lemma two_messages_at: "at_pipe two_messages 31 1"
  using entry_inv_wf [OF tbl_invD(2) [OF client_subscribed_inv [of cfs_small "0x1801 :: 16 word"], of 0]]
  by (simp add: at_pipe_def pipe_is_def two_messages_facts client_subscribed_entry fresh_pipe_def numeral_eq_Suc
    invalidate_pipe_def static_pipe_def overwrite_def)

text \<open>
  C11. A signal that comes late breaks the pipe, with one receiver and one pipe: \<open>ingest_app_message\<close> signals after it has
  given up the mutex. The receiver takes the message in between, calls again, waits, and the late signal
  ends that wait: after one frame two calls have returned success, the second with a slot that was never filled, and the counter is 0. The
  next frame is then written into the slot already handed out, and the receiver sleeps with no signal to come.
\<close>

theorem late_signal:
  defines "got_two \<equiv> (\<lambda>_. [])(1 := [(0, Slot 0 0), (0, Slot 0 1)])"
  shows "\<exists>c1 c2. steps two_step (two_messages, \<lambda>_. Idle, \<lambda>_. []) (c1, \<lambda>_. Idle, got_two) \<and>
    NumberOfMessages (PipeTbl c1 ! 0) = 0 \<and>
    incoming (rd (Sock c1 (sbn_client_sockfd c1))) = frame_bytes (SBN_APP_MSG cfs_small, 1, [24, 1, 9]) \<and>
    steps two_step (c1, \<lambda>_. Idle, got_two) (c2, (\<lambda>_. Idle)(1 := Asleep 0), got_two) \<and>
    incoming (rd (Sock c2 (sbn_client_sockfd c2))) = [] \<and> take 3 (Messages (PipeTbl c2 ! 0) ! 1) = [24, 1, 9]"
proof -
  let ?idle = "\<lambda>_ :: nat. Idle" and ?none = "\<lambda>_ :: nat. [] :: (i32 \<times> bufptr) list"
  have stream: "incoming (rd (Sock two_messages 0)) = frame_bytes (3, 1, [24, 1, 7]) @ frame_bytes (3, 1, [24, 1, 9])"
    by (rule two_messages_facts)
  obtain a where a: "two_step (two_messages, ?idle, ?none) (a, ?idle(0 := Signalling), ?none)"
    "at_pipe a 31 2" "incoming (rd (Sock a 0)) = frame_bytes (3, 1, [24, 1, 9])"
    by (rule frame_at [OF two_messages_at _ _ stream, of ?idle ?none]) simp_all
  obtain b where b: "two_step (a, ?idle(0 := Signalling), ?none) (b, ?idle(0 := Signalling), ?none(1 := [(0, Slot 0 0)]))"
    "at_pipe b 0 1" "Sock b = Sock a"
    by (rule take_at [OF a(2), of "?idle(0 := Signalling)" ?none]) simp_all
  let ?b = "sync Cond_wait (sync Mutex_lock b)"
  have c: "two_step (b, ?idle(0 := Signalling), ?none(1 := [(0, Slot 0 0)]))
      (?b, ?idle(0 := Signalling, 1 := Asleep 0), ?none(1 := [(0, Slot 0 0)]))"
    by (rule sleep_at [OF b(2)]) simp_all
  have d: "two_step (?b, ?idle(0 := Signalling, 1 := Asleep 0), ?none(1 := [(0, Slot 0 0)]))
      (sync Cond_signal ?b, ?idle(0 := Signalling, 1 := Asleep 0, 0 := Idle, 1 := Awake 0), ?none(1 := [(0, Slot 0 0)]))"
    by (rule Signal_one) simp_all
  have "?idle(0 := Signalling, 1 := Asleep 0, 0 := Idle, 1 := Awake 0) = ?idle(1 := Awake 0)" by (rule ext) simp
  note d = d [unfolded this]
  have at_b: "at_pipe (sync Cond_signal ?b) 0 1" using b(2) by simp
  obtain c1 where e: "two_step (sync Cond_signal ?b, ?idle(1 := Awake 0), ?none(1 := [(0, Slot 0 0)]))
      (c1, ?idle(1 := Awake 0, 1 := Idle), ?none(1 := [(0, Slot 0 0)], 1 := [(0, Slot 0 0), (0, Slot 0 1)]))"
    "at_pipe c1 1 0" "Sock c1 = Sock (sync Cond_signal ?b)"
    by (rule woken_at [OF at_b, of "?idle(1 := Awake 0)" "?none(1 := [(0, Slot 0 0)])"]) simp_all
  have "?idle(1 := Idle) = ?idle" by (rule ext) simp
  note e = e(1) [unfolded this fun_upd_upd, folded got_two_def] e(2,3)
  have first: "steps two_step (two_messages, ?idle, ?none) (c1, ?idle, got_two)"
    by (rule run_on [OF run_on [OF run_on [OF run_on [OF run_on [OF steps_refl a(1)] b(1)] c] d] e(1)])
  have rest: "incoming (rd (Sock c1 0)) = frame_bytes (3, 1, [24, 1, 9]) @ []" using a(3) b(3) e(3) by simp
  obtain c2 where f: "two_step (c1, ?idle, got_two) (c2, ?idle(0 := Signalling), got_two)" "at_pipe c2 1 1"
    "incoming (rd (Sock c2 0)) = []" "take 3 (Messages (PipeTbl c2 ! 0) ! 1) = [24, 1, 9]"
    by (rule frame_at [OF e(2) _ _ rest, of ?idle got_two]) simp_all
  have g: "two_step (c2, ?idle(0 := Signalling), got_two) (sync Cond_signal c2, ?idle(0 := Signalling, 0 := Idle), got_two)"
    by (rule Signal_none) simp_all
  have "?idle(0 := Signalling, 0 := Idle) = ?idle" by (rule ext) simp
  note g = g [unfolded this]
  let ?c2 = "sync Cond_wait (sync Mutex_lock (sync Cond_signal c2))"
  have h: "two_step (sync Cond_signal c2, ?idle, got_two) (?c2, ?idle(1 := Asleep 0), got_two)"
    by (rule sleep_at [of _ 1 1]) (use f(2) in simp_all)
  have "steps two_step (c1, ?idle, got_two) (?c2, ?idle(1 := Asleep 0), got_two)"
    by (rule run_on [OF run_on [OF run_on [OF steps_refl f(1)] g] h])
  moreover have "NumberOfMessages (PipeTbl c1 ! 0) = 0" "sbn_client_sockfd c1 = 0" "sbn_client_sockfd c2 = 0"
    using e(2) f(2) by (simp_all add: at_pipe_def pipe_is_def)
  ultimately show ?thesis
    using first rest f(3,4) by (intro exI [of _ c1] exI [of _ ?c2]) simp
qed

text \<open>The receiver waits first, then the first frame arrives.\<close>

theorem no_lost_wakeup_witness:
  "\<exists>c ph t. steps two_step (two_messages, \<lambda>_. Idle, \<lambda>_. []) (c, ph, \<lambda>_. []) \<and> ph 1 = Asleep 0 \<and>
    \<not> pipe_empty (PipeTbl c ! 0) \<and> ph t = Signalling \<and>
    two_step (c, ph, \<lambda>_. []) (sync Cond_signal c, ph(t := Idle, 1 := Awake 0), \<lambda>_. [])"
proof -
  let ?idle = "\<lambda>_ :: nat. Idle" and ?none = "\<lambda>_ :: nat. [] :: (i32 \<times> bufptr) list"
  let ?a = "sync Cond_wait (sync Mutex_lock two_messages)"
  have a: "two_step (two_messages, ?idle, ?none) (?a, ?idle(1 := Asleep 0), ?none)"
    by (rule sleep_at [OF two_messages_at]) simp_all
  have at: "at_pipe ?a 31 1" using two_messages_at by simp
  obtain c where c: "two_step (?a, ?idle(1 := Asleep 0), ?none) (c, ?idle(1 := Asleep 0, 0 := Signalling), ?none)"
    "at_pipe c 31 2"
    by (rule frame_at [OF at, of "?idle(1 := Asleep 0)" 7 "frame_bytes (3, 1, [24, 1, 9])" ?none])
      (simp_all add: two_messages_facts(4))
  have run: "steps two_step (two_messages, ?idle, ?none) (c, ?idle(1 := Asleep 0, 0 := Signalling), ?none)"
    by (rule run_on [OF run_on [OF steps_refl a] c(1)])
  have asleep: "(?idle(1 := Asleep 0, 0 := Signalling)) 1 = Asleep 0" by simp
  have message: "\<not> pipe_empty (PipeTbl c ! 0)" using c(2) by (simp add: at_pipe_def pipe_is_def pipe_empty_def)
  from no_lost_wakeup [OF platform_ok_cfs(2) run asleep message] show ?thesis using run asleep message by blast
qed

text \<open>
  C12. With two receivers a wake-up goes to the wrong one: threads 1 and 2 wait on pipes 0 and 1, a message for pipe 1 is
  delivered, and its signal wakes thread 1. Thread 1 returns success with a slot that was never filled; thread 2 goes on
  sleeping although its pipe holds the message, and no signal is to come.
\<close>

theorem wrong_receiver:
  fixes start :: "16 word client"
  defines "start \<equiv> listening [Rd_Data [0, 2, 3, 0, 0, 0, 1, 24, 1]] (client_cross cfs_small 0x1801)"
  shows "\<exists>c slot. steps (wake_step {1, 2} cfs_small list_packer) (start, \<lambda>_. Idle, \<lambda>_. [])
      (c, (\<lambda>_. Idle)(2 := Asleep 1), (\<lambda>_. [])(1 := [(0, Slot 0 0)])) \<and>
    pipe_unread (PipeTbl c ! 1) = [slot] \<and> slot_carries slot [24, 1] \<and> NumberOfMessages (PipeTbl c ! 0) = 0"
proof -
  let ?step = "wake_step {1 :: nat, 2} cfs_small list_packer" and ?idle = "\<lambda>_ :: nat. Idle"
    and ?none = "\<lambda>_ :: nat. [] :: (i32 \<times> bufptr) list"
  have inv: "tbl_inv cfs_small (PipeTbl start)" by (simp add: start_def client_cross_inv)
  have len: "length (PipeTbl start) = 5" by (rule tbl_invD(1) [OF inv])
  have entries: "PipeTbl start ! 0 = created_pipe cfs_small 0 [0x61] (fresh_pipe cfs_small)"
    "PipeTbl start ! Suc 0 = subscribed_entry 0 0x1801 (created_pipe cfs_small 1 [0x62] (fresh_pipe cfs_small))"
    by (simp_all add: start_def client_cross_entries)
  have fresh: "NumberOfMessages (fresh_pipe cfs_small :: 16 word pipe) = 1" "ReadMessage (fresh_pipe cfs_small :: 16 word pipe) = 31"
    by (simp_all add: fresh_pipe_def invalidate_pipe_def)
  have wf: "pipe_wf cfs_small (PipeTbl start ! i) \<and> ring_ok (PipeTbl start ! i)" if "i < 5" for i
    using entry_inv_wf [OF tbl_invD(2) [OF inv that]] .
  have use: "in_use cfs_small start 0" "in_use cfs_small start 1"
    using wf [of 0] wf [of 1] len by (simp_all add: in_use_def entries)
  let ?a = "sync Cond_wait (sync Mutex_lock start)" and ?b = "sync Cond_wait (sync Mutex_lock (sync Cond_wait (sync Mutex_lock start)))"
  have a: "?step (start, ?idle, ?none) (?a, ?idle(1 := Asleep 0), ?none)"
    by (rule sleep_step [OF platform_ok_cfs(2) use(1)]) (simp_all add: pipe_empty_def entries fresh)
  have "in_use cfs_small ?a 1" using use(2) by (simp add: in_use_def)
  then have b: "?step (?a, ?idle(1 := Asleep 0), ?none) (?b, ?idle(1 := Asleep 0, 2 := Asleep 1), ?none)"
    by (rule sleep_step [OF platform_ok_cfs(2)]) (simp_all add: pipe_empty_def entries fresh)
  let ?ph = "?idle(1 := Asleep 0, 2 := Asleep 1)"
  have use_b: "in_use cfs_small ?b 1" using use(2) by (simp add: in_use_def)
  have id: "app_msgid cfs_small (\<lambda>_. 0) [24, 1] = (0x1801 :: 16 word)" by (subst app_msgid_v1) simp_all
  have "\<exists>c' q. ?step (?b, ?ph, ?none) (c', ?ph(0 := Signalling), ?none) \<and> pipe_put [24, 1] (PipeTbl ?b ! 1) = Inr q \<and>
    PipeTbl c' = (PipeTbl ?b)[1 := q] \<and> sbn_client_sockfd c' = sbn_client_sockfd ?b \<and>
    incoming (rd (Sock c' (sbn_client_sockfd ?b))) = []"
    by (rule frame_step [where ph = ?ph and t = 0 and cpu = 1 and h = "\<lambda>_. 0",
          OF platform_ok_cfs(2) packer_ok_list_packer use_b])
      (simp_all add: start_def id route_client_cross sbn_header_def be16_def be32_def client_cross_entries fresh)
  then obtain c q where c: "?step (?b, ?ph, ?none) (c, ?ph(0 := Signalling), ?none)"
    "pipe_put [24, 1] (PipeTbl start ! 1) = Inr q" "PipeTbl c = (PipeTbl start)[1 := q]" by auto
  obtain slot where q: "pipe_unread q = pipe_unread (PipeTbl start ! 1) @ [slot]" "slot_carries slot [24, 1]"
    using pipe_put_law [of cfs_small "PipeTbl start ! 1" "[24, 1]"] wf [of 1] c(2)
    by (auto simp: pipe_inv_def pipe_full_def entries fresh)
  have d: "?step (c, ?ph(0 := Signalling), ?none) (sync Cond_signal c, ?ph(0 := Signalling, 0 := Idle, 1 := Awake 0), ?none)"
    by (rule Signal_one) simp_all
  have awake: "(?ph(0 := Signalling, 0 := Idle, 1 := Awake 0)) 1 = Awake 0" by simp
  have "0 < length (PipeTbl (sync Cond_signal c))" using c(3) len by simp
  from woken_step [where t = 1 and ph = "?ph(0 := Signalling, 0 := Idle, 1 := Awake 0)", OF awake this, of "{1, 2}" cfs_small list_packer ?none]
  obtain c' where e: "?step (sync Cond_signal c, ?ph(0 := Signalling, 0 := Idle, 1 := Awake 0), ?none)
      (c', ?ph(0 := Signalling, 0 := Idle, 1 := Awake 0, 1 := Idle),
       ?none(1 := ?none 1 @ [(CFE_SUCCESS cfs_small, Slot 0 (unat (pipe_next (PipeTbl (sync Cond_signal c) ! 0))))]))"
    "PipeTbl c' = (PipeTbl c)[0 := pipe_get (PipeTbl c ! 0)]" by auto
  have ph: "?ph(0 := Signalling, 0 := Idle, 1 := Awake 0, 1 := Idle) = ?idle(2 := Asleep 1)" by (rule ext) simp
  have out: "?none(1 := ?none 1 @ [(CFE_SUCCESS cfs_small, Slot 0 (unat (pipe_next (PipeTbl (sync Cond_signal c) ! 0))))]) =
      ?none(1 := [(0, Slot 0 0)])"
    using len by (simp add: c(3) pipe_next_def entries fresh)
  note run = steps_trans [where step = ?step]
  have "steps ?step (start, ?idle, ?none) (c', ?idle(2 := Asleep 1), ?none(1 := [(0, Slot 0 0)]))"
    by (rule run [OF run [OF run [OF run [OF run [OF steps_refl a] b] c(1)] d] e(1) [unfolded ph out]])
  moreover have "pipe_unread (PipeTbl c' ! 1) = [slot]" "NumberOfMessages (PipeTbl c' ! 0) = 0"
    using q(1) len by (simp_all add: e(2) c(3) entries pipe_get_def fresh)
  ultimately show ?thesis using q(2) by blast
qed

end
