(* ===== verification/SBN_Doubles.thy ===== *)
theory SBN_Doubles
  imports SBN_Minders
begin

text \<open>
  The test doubles of \<open>unit-test/helpers/sbn_client_wrapped_functions.c\<close> and the logger stub. The linker
  sends every call of a wrapped function from another file to its double, which counts it, checks it or
  answers in its place. Their globals are the record \<open>doubles\<close>; they work on it and on the client
  together. What a \<open>__real_\<close> symbol stands for (the code under test or the C library, whose own calls go through
  doubles again) is an argument \<open>real\<close>.
\<close>

section \<open>The globals\<close>

definition INT_MIN :: i32 where
  [simp]: "INT_MIN = 0x80000000"

definition UCHAR_MAX :: u8 where
  [simp]: "UCHAR_MAX = 255"

text \<open>The one function that a test of this file can have called by \<open>sleep\<close>, and the assertions that failed.\<close>

datatype sleep_fn = wrap_sleep_set_continue_heartbeat_false_fn

record 'i doubles =
  use_wrap_ingest_app_message :: bool
  wrap_ingest_app_message_was_called :: bool
  wrap_ingest_app_message_call_count :: i32
  use_wrap_CFE_SBN_Client_ReadBytes :: bool
  wrap_CFE_SBN_Client_ReadBytes_msg_buffer :: "byte list option"
  wrap_CFE_SBN_Client_ReadBytes_return_value :: i32
  wrap_CFE_SBN_Client_ReadBytes_was_called :: bool
  wrap_CFE_SBN_Client_ReadBytes_call_count :: i32
  wrap_pthread_mutex_lock_should_be_called :: bool
  wrap_pthread_mutex_lock_was_called :: bool
  wrap_pthread_mutex_lock_return_value :: i32
  wrap_pthread_mutex_unlock_should_be_called :: bool
  wrap_pthread_mutex_unlock_was_called :: bool
  wrap_pthread_mutex_unlock_return_value :: i32
  wrap_pthread_cond_wait_should_be_called :: bool
  wrap_pthread_cond_wait_was_called :: bool
  use_wrap_pthread_cond_wait :: bool
  wrap_pthread_cond_wait_return_value :: i32
  wrap_pthread_cond_signal_should_be_called :: bool
  wrap_pthread_cond_signal_was_called :: bool
  use_wrap_CFE_SBN_Client_GetMsgId :: bool
  wrap_CFE_SBN_Client_GetMsgId_return_value :: 'i
  wrap_pthread_cond_timedwait_should_be_called :: bool
  use_wrap_pthread_cond_timedwait :: bool
  wrap_pthread_cond_timedwait_was_called :: bool
  wrap_pthread_cond_timedwait_return_value :: i32
  use_wrap_CFE_SBN_Client_GetPipeIdx :: bool
  wrap_CFE_SBN_Client_GetPipeIdx_return_value :: u8
  use_wrap_connect_to_server :: bool
  wrap_connect_to_server_return_value :: i32
  wrap_exit_expected_status :: i32
  use_wrap_CFE_SBN_Client_InitPipeTbl :: bool
  pthread_create_errors_on_call_number :: i32
  pthread_create_call_number :: u8
  pthread_create_error_value :: i32
  use_wrap_check_pthread_create_status :: bool
  wrap_check_pthread_create_status_fail_call :: bool
  check_pthread_create_status_call_number :: u8
  check_pthread_create_status_errors_on_call_number :: i32
  use_wrap_send_heartbeat :: bool
  wrap_send_heartbeat_return_value :: i32
  send_hearbeat_call_number :: u8
  send_heartbeat_discontinue_on_call_number :: u8
  use_wrap_recv_msg :: bool
  wrap_recv_msg_return_value :: i32
  recv_msg_call_number :: u8
  recv_msg_discontiue_on_call_number :: u8
  perror_expected_string :: string
  wrap_socket_return_value :: i32
  wrap_htons_return_value :: u16
  wrap_inet_pton_return_value :: i32
  wrap_connect_return_value :: i32
  wrap_read_return_value :: size_t
  wrap_sleep_call_func :: "sleep_fn option"
  log_message_was_called :: bool
  error_message :: string
  Failed :: "string list"

type_synonym 'i bench = "'i doubles \<times> 'i client"

definition doubles_start :: "platform \<Rightarrow> 'm::len word doubles" where
  "doubles_start P = \<lparr>
     use_wrap_ingest_app_message = False, wrap_ingest_app_message_was_called = False,
     wrap_ingest_app_message_call_count = 0,
     use_wrap_CFE_SBN_Client_ReadBytes = False, wrap_CFE_SBN_Client_ReadBytes_msg_buffer = None,
     wrap_CFE_SBN_Client_ReadBytes_return_value = INT_MIN, wrap_CFE_SBN_Client_ReadBytes_was_called = False,
     wrap_CFE_SBN_Client_ReadBytes_call_count = 0,
     wrap_pthread_mutex_lock_should_be_called = False, wrap_pthread_mutex_lock_was_called = False,
     wrap_pthread_mutex_lock_return_value = 0,
     wrap_pthread_mutex_unlock_should_be_called = False, wrap_pthread_mutex_unlock_was_called = False,
     wrap_pthread_mutex_unlock_return_value = 0,
     wrap_pthread_cond_wait_should_be_called = False, wrap_pthread_cond_wait_was_called = False,
     use_wrap_pthread_cond_wait = False, wrap_pthread_cond_wait_return_value = INT_MIN,
     wrap_pthread_cond_signal_should_be_called = False, wrap_pthread_cond_signal_was_called = False,
     use_wrap_CFE_SBN_Client_GetMsgId = False, wrap_CFE_SBN_Client_GetMsgId_return_value = 0xFFFF,
     wrap_pthread_cond_timedwait_should_be_called = False, use_wrap_pthread_cond_timedwait = False,
     wrap_pthread_cond_timedwait_was_called = False, wrap_pthread_cond_timedwait_return_value = 0,
     use_wrap_CFE_SBN_Client_GetPipeIdx = False, wrap_CFE_SBN_Client_GetPipeIdx_return_value = UCHAR_MAX,
     use_wrap_connect_to_server = False, wrap_connect_to_server_return_value = INT_MIN,
     wrap_exit_expected_status = INT_MIN, use_wrap_CFE_SBN_Client_InitPipeTbl = False,
     pthread_create_errors_on_call_number = INT_MIN, pthread_create_call_number = 0,
     pthread_create_error_value = INT_MIN,
     use_wrap_check_pthread_create_status = False, wrap_check_pthread_create_status_fail_call = False,
     check_pthread_create_status_call_number = 0,
     check_pthread_create_status_errors_on_call_number = INT_MIN,
     use_wrap_send_heartbeat = False, wrap_send_heartbeat_return_value = SBN_CLIENT_SUCCESS P,
     send_hearbeat_call_number = 0, send_heartbeat_discontinue_on_call_number = 0,
     use_wrap_recv_msg = False, wrap_recv_msg_return_value = SBN_CLIENT_SUCCESS P,
     recv_msg_call_number = 0, recv_msg_discontiue_on_call_number = 0,
     perror_expected_string = [],
     wrap_socket_return_value = 0, wrap_htons_return_value = 0, wrap_inet_pton_return_value = 0,
     wrap_connect_return_value = 0, wrap_read_return_value = 0,
     wrap_sleep_call_func = None, log_message_was_called = False, error_message = [], Failed = []\<rparr>"

text \<open>The assertions of the test framework: a failed one is recorded and the test goes on.\<close>

definition UtAssert_Failed :: "string \<Rightarrow> 'i doubles \<Rightarrow> 'i doubles" where
  "UtAssert_Failed msg d = d\<lparr>Failed := Failed d @ [msg]\<rparr>"

definition UtAssert_True :: "bool \<Rightarrow> string \<Rightarrow> 'i doubles \<Rightarrow> 'i doubles" where
  "UtAssert_True b msg d = (if b then d else UtAssert_Failed msg d)"

definition MAX_ERROR_MESSAGE_SIZE :: nat where
  [simp]: "MAX_ERROR_MESSAGE_SIZE = 120"

text \<open>The message of an assertion, cut to what the static buffer holds.\<close>

definition TestResultMsg :: "string \<Rightarrow> log_arg list \<Rightarrow> 'i doubles \<Rightarrow> string \<times> 'i doubles" where
  "TestResultMsg format args d =
     (let text = take (MAX_ERROR_MESSAGE_SIZE - 1) (c_format format args) in (text, d\<lparr>error_message := text\<rparr>))"

section \<open>The doubles\<close>

definition wrap_sleep_set_continue_heartbeat_false :: "'i bench \<Rightarrow> 'i bench" where
  "wrap_sleep_set_continue_heartbeat_false s = (fst s, (snd s)\<lparr>continue_heartbeat := False\<rparr>)"

definition wrap_ingest_app_message ::
    "(i32 \<Rightarrow> u16 \<Rightarrow> 'i bench \<Rightarrow> 'i bench run) \<Rightarrow> i32 \<Rightarrow> u16 \<Rightarrow> 'i bench \<Rightarrow> 'i bench run" where
  "wrap_ingest_app_message real SockFd MsgSz = (\<lambda>(d, c).
     let d1 = d\<lparr>wrap_ingest_app_message_was_called := True,
                wrap_ingest_app_message_call_count := wrap_ingest_app_message_call_count d + 1\<rparr>
     in if \<not> use_wrap_ingest_app_message d1 then real SockFd MsgSz (d1, c) else Inr (d1, c))"

text \<open>The result, the caller's buffer, and the state. The source's \<open>%zu\<close> is written \<open>%u\<close>.\<close>

definition wrap_CFE_SBN_Client_ReadBytes ::
    "platform \<Rightarrow> (i32 \<Rightarrow> byte list \<Rightarrow> nat \<Rightarrow> 'i bench \<Rightarrow> (i32 \<times> byte list \<times> 'i bench) run) \<Rightarrow>
     i32 \<Rightarrow> byte list \<Rightarrow> nat \<Rightarrow> 'i bench \<Rightarrow> (i32 \<times> byte list \<times> 'i bench) run" where
  "wrap_CFE_SBN_Client_ReadBytes P real sockfd msg_buffer MsgSz = (\<lambda>(d, c).
     let d1 = d\<lparr>wrap_CFE_SBN_Client_ReadBytes_was_called := True,
                wrap_CFE_SBN_Client_ReadBytes_call_count := wrap_CFE_SBN_Client_ReadBytes_call_count d + 1\<rparr>
     in if use_wrap_CFE_SBN_Client_ReadBytes d1 then
          (case wrap_CFE_SBN_Client_ReadBytes_msg_buffer d1 of
             Some src \<Rightarrow>
               if MsgSz \<le> CFE_SBN_CLIENT_MAX_MESSAGE_SIZE P then
                 bindR (mem_read src 0 MsgSz) (\<lambda>bs.
                 bindR (mem_write msg_buffer 0 bs) (\<lambda>buf.
                 Inr (wrap_CFE_SBN_Client_ReadBytes_return_value d1, buf, (d1, c))))
               else Inr (-999999996, msg_buffer, (d1,
                 printf (''ERR: __wrap_CFE_SBN_Client_ReadBytes was given MsgSz too large: %u'' @ [CHR 0x0A])
                   [Int_arg (of_nat MsgSz)] c))
           | None \<Rightarrow> Inr (-999999996, msg_buffer, (d1,
               printf (''ERR: __wrap_CFE_SBN_Client_ReadBytes was given NULL buffer'' @ [CHR 0x0A]) [] c)))
        else real sockfd msg_buffer MsgSz (d1, c))"

definition wrap_pthread_mutex_lock :: "'i bench \<Rightarrow> i32 \<times> 'i bench" where
  "wrap_pthread_mutex_lock = (\<lambda>(d, c).
     let d1 = d\<lparr>wrap_pthread_mutex_lock_was_called := True\<rparr>;
         d2 = (if \<not> wrap_pthread_mutex_lock_should_be_called d1
               then UtAssert_Failed ''pthread_mutex_lock called, but should not have been'' d1 else d1)
     in (wrap_pthread_mutex_lock_return_value d2, (d2, c)))"

definition wrap_pthread_mutex_unlock :: "'i bench \<Rightarrow> i32 \<times> 'i bench" where
  "wrap_pthread_mutex_unlock = (\<lambda>(d, c).
     let d1 = d\<lparr>wrap_pthread_mutex_unlock_was_called := True\<rparr>;
         d2 = (if \<not> wrap_pthread_mutex_unlock_should_be_called d1 then
                 let d' = UtAssert_Failed ''pthread_mutex_unlock called, but should not have been'' d1
                 in if wrap_pthread_mutex_lock_was_called d'
                    then UtAssert_Failed ''pthread_mutex_unlock called before calling pthread_mutex_lock'' d' else d'
               else d1)
     in (wrap_pthread_mutex_unlock_return_value d2, (d2, c)))"

definition wrap_pthread_cond_signal :: "'i bench \<Rightarrow> i32 \<times> 'i bench" where
  "wrap_pthread_cond_signal = (\<lambda>(d, c).
     let d1 = d\<lparr>wrap_pthread_cond_signal_was_called := True\<rparr>;
         d2 = (if \<not> wrap_pthread_cond_signal_should_be_called d1
               then UtAssert_Failed ''pthread_cond_signal called, but should not have been'' d1 else d1)
     in (0, (d2, c)))"

definition wrap_pthread_cond_wait :: "('i bench \<Rightarrow> i32 \<times> 'i bench) \<Rightarrow> 'i bench \<Rightarrow> i32 \<times> 'i bench" where
  "wrap_pthread_cond_wait real = (\<lambda>(d, c).
     let d1 = d\<lparr>wrap_pthread_cond_wait_was_called := True\<rparr>;
         d2 = (if \<not> wrap_pthread_cond_wait_should_be_called d1
               then UtAssert_Failed ''pthread_cond_wait was called, but should not have been'' d1 else d1)
     in if use_wrap_pthread_cond_wait d2 then (wrap_pthread_cond_wait_return_value d2, (d2, c))
        else real (d2, c))"

definition wrap_pthread_cond_timedwait ::
    "(timespec \<Rightarrow> 'i bench \<Rightarrow> i32 \<times> 'i bench) \<Rightarrow> timespec \<Rightarrow> 'i bench \<Rightarrow> i32 \<times> 'i bench" where
  "wrap_pthread_cond_timedwait real abstime = (\<lambda>(d, c).
     let d1 = d\<lparr>wrap_pthread_cond_timedwait_was_called := True\<rparr>;
         d2 = (if \<not> wrap_pthread_cond_timedwait_should_be_called d1
               then UtAssert_Failed ''pthread_cond_timedwait was called, but should not have been'' d1 else d1)
     in if use_wrap_pthread_cond_timedwait d2 then (wrap_pthread_cond_timedwait_return_value d2, (d2, c))
        else real abstime (d2, c))"

definition wrap_CFE_SBN_Client_GetMsgId ::
    "(byte list \<Rightarrow> 'i bench \<Rightarrow> 'i \<times> 'i bench) \<Rightarrow> byte list \<Rightarrow> 'i bench \<Rightarrow> 'i \<times> 'i bench" where
  "wrap_CFE_SBN_Client_GetMsgId real MsgPtr = (\<lambda>(d, c).
     if use_wrap_CFE_SBN_Client_GetMsgId d then (wrap_CFE_SBN_Client_GetMsgId_return_value d, (d, c))
     else real MsgPtr (d, c))"

definition wrap_CFE_SBN_Client_GetPipeIdx ::
    "(u8 \<Rightarrow> 'i bench \<Rightarrow> (u8 \<times> 'i bench) run) \<Rightarrow> u8 \<Rightarrow> 'i bench \<Rightarrow> (u8 \<times> 'i bench) run" where
  "wrap_CFE_SBN_Client_GetPipeIdx real pid = (\<lambda>(d, c).
     if use_wrap_CFE_SBN_Client_GetPipeIdx d then Inr (wrap_CFE_SBN_Client_GetPipeIdx_return_value d, (d, c))
     else real pid (d, c))"

definition wrap_connect_to_server ::
    "(string \<Rightarrow> u16 \<Rightarrow> 'i bench \<Rightarrow> i32 \<times> 'i bench) \<Rightarrow> string \<Rightarrow> u16 \<Rightarrow> 'i bench \<Rightarrow> i32 \<times> 'i bench" where
  "wrap_connect_to_server real server_ip server_port = (\<lambda>(d, c).
     if use_wrap_connect_to_server d then (wrap_connect_to_server_return_value d, (d, c))
     else real server_ip server_port (d, c))"

definition wrap_exit :: "i32 \<Rightarrow> 'i bench \<Rightarrow> 'i bench" where
  "wrap_exit status = (\<lambda>(d, c).
     let (msg, d1) = TestResultMsg ''exit() status should be %d, and was %d''
           [Int_arg (wrap_exit_expected_status d), Int_arg status] d
     in (UtAssert_True (status = wrap_exit_expected_status d1) msg d1, c))"

definition wrap_CFE_SBN_Client_InitPipeTbl :: "('i bench \<Rightarrow> 'i bench) \<Rightarrow> 'i bench \<Rightarrow> 'i bench" where
  "wrap_CFE_SBN_Client_InitPipeTbl real = (\<lambda>(d, c).
     if use_wrap_CFE_SBN_Client_InitPipeTbl d then (d, c) else real (d, c))"

text \<open>No thread is created: the call is counted and its result chosen.\<close>

definition wrap_pthread_create :: "'i bench \<Rightarrow> i32 \<times> 'i bench" where
  "wrap_pthread_create = (\<lambda>(d, c).
     let d1 = d\<lparr>pthread_create_call_number := pthread_create_call_number d + 1\<rparr>
     in (if pthread_create_errors_on_call_number d1 = ucast (pthread_create_call_number d1)
         then pthread_create_error_value d1 else 0, (d1, c)))"

definition wrap_check_pthread_create_status ::
    "platform \<Rightarrow> (i32 \<Rightarrow> i32 \<Rightarrow> 'i bench \<Rightarrow> i32 \<times> 'i bench) \<Rightarrow> i32 \<Rightarrow> i32 \<Rightarrow> 'i bench \<Rightarrow> i32 \<times> 'i bench" where
  "wrap_check_pthread_create_status P real status errorId = (\<lambda>(d, c).
     let d1 = d\<lparr>check_pthread_create_status_call_number := check_pthread_create_status_call_number d + 1\<rparr>
     in if use_wrap_check_pthread_create_status d1 then
          if wrap_check_pthread_create_status_fail_call d1 \<and>
             ucast (check_pthread_create_status_call_number d1) = check_pthread_create_status_errors_on_call_number d1
          then (errorId, (UtAssert_True (status = pthread_create_error_value d1)
                  ''check_pthread_create_status received expected error value returned by pthread_create'' d1, c))
          else (SBN_CLIENT_SUCCESS P, (d1, c))
        else real status errorId (d1, c))"

definition wrap_send_heartbeat :: "(i32 \<Rightarrow> 'i bench \<Rightarrow> i32 \<times> 'i bench) \<Rightarrow> i32 \<Rightarrow> 'i bench \<Rightarrow> i32 \<times> 'i bench" where
  "wrap_send_heartbeat real sockfd = (\<lambda>(d, c).
     let d1 = d\<lparr>send_hearbeat_call_number := send_hearbeat_call_number d + 1\<rparr>
     in if use_wrap_send_heartbeat d1 then
          (wrap_send_heartbeat_return_value d1,
           (d1, if send_hearbeat_call_number d1 = send_heartbeat_discontinue_on_call_number d1
                then c\<lparr>continue_heartbeat := False\<rparr> else c))
        else real sockfd (d1, c))"

definition wrap_recv_msg :: "(i32 \<Rightarrow> 'i bench \<Rightarrow> (i32 \<times> 'i bench) run) \<Rightarrow> i32 \<Rightarrow> 'i bench \<Rightarrow> (i32 \<times> 'i bench) run" where
  "wrap_recv_msg real sockfd = (\<lambda>(d, c).
     let d1 = d\<lparr>recv_msg_call_number := recv_msg_call_number d + 1\<rparr>
     in if use_wrap_recv_msg d1 then
          Inr (wrap_recv_msg_return_value d1,
           (d1, if recv_msg_call_number d1 = recv_msg_discontiue_on_call_number d1
                then c\<lparr>continue_receive_check := False\<rparr> else c))
        else real sockfd (d1, c))"

definition wrap_perror :: "string \<Rightarrow> 'i bench \<Rightarrow> 'i bench" where
  "wrap_perror str = (\<lambda>(d, c).
     (if 0 < length (perror_expected_string d)
      then let (msg, d1) = TestResultMsg ''perror expected string '%s' == '%s' string received''
                [Str_arg (perror_expected_string d), Str_arg str] d
           in UtAssert_True (str = perror_expected_string d1) msg d1
      else d, perror str c))"

definition wrap_socket :: "'i bench \<Rightarrow> i32" where
  "wrap_socket s = wrap_socket_return_value (fst s)"

definition wrap_htons :: "u16 \<Rightarrow> 'i bench \<Rightarrow> u16" where
  "wrap_htons hostshort s = wrap_htons_return_value (fst s)"

definition wrap_inet_pton :: "string \<Rightarrow> 'i bench \<Rightarrow> i32" where
  "wrap_inet_pton src s = wrap_inet_pton_return_value (fst s)"

definition wrap_connect :: "i32 \<Rightarrow> 'i bench \<Rightarrow> i32" where
  "wrap_connect fd s = wrap_connect_return_value (fst s)"

text \<open>The comparison with \<open>INT_MIN\<close> is one of \<open>size_t\<close> values, so the constant is sign-extended.\<close>

definition wrap_read :: "(i32 \<Rightarrow> size_t \<Rightarrow> 'i bench \<Rightarrow> (size_t \<times> 'i bench) run) \<Rightarrow> i32 \<Rightarrow> size_t \<Rightarrow> 'i bench \<Rightarrow>
    (size_t \<times> 'i bench) run" where
  "wrap_read real fd cnt = (\<lambda>(d, c).
     if wrap_read_return_value d \<noteq> scast INT_MIN then Inr (wrap_read_return_value d, (d, c))
     else real fd cnt (d, c))"

definition wrap_sleep :: "nat \<Rightarrow> 'i bench \<Rightarrow> nat \<times> 'i bench" where
  "wrap_sleep seconds s =
     (0, case wrap_sleep_call_func (fst s) of
           None \<Rightarrow> s
         | Some wrap_sleep_set_continue_heartbeat_false_fn \<Rightarrow> wrap_sleep_set_continue_heartbeat_false s)"

section \<open>Setup and teardown\<close>

definition SBN_CLient_Wrapped_Functions_Setup :: "'i bench \<Rightarrow> 'i bench" where
  "SBN_CLient_Wrapped_Functions_Setup s = s"

definition SBN_CLient_Wrapped_Functions_Teardown :: "platform \<Rightarrow> 'm::len word bench \<Rightarrow> 'm word bench" where
  "SBN_CLient_Wrapped_Functions_Teardown P = (\<lambda>(d, c).
     (d\<lparr>use_wrap_ingest_app_message := False, wrap_ingest_app_message_was_called := False,
        wrap_ingest_app_message_call_count := 0, use_wrap_CFE_SBN_Client_ReadBytes := False,
        wrap_CFE_SBN_Client_ReadBytes_msg_buffer := None, wrap_CFE_SBN_Client_ReadBytes_return_value := INT_MIN,
        wrap_CFE_SBN_Client_ReadBytes_was_called := False, wrap_CFE_SBN_Client_ReadBytes_call_count := 0,
        wrap_pthread_mutex_lock_should_be_called := False, wrap_pthread_mutex_lock_was_called := False,
        wrap_pthread_mutex_lock_return_value := 0, wrap_pthread_mutex_unlock_should_be_called := False,
        wrap_pthread_mutex_unlock_was_called := False, wrap_pthread_mutex_unlock_return_value := 0,
        wrap_pthread_cond_wait_should_be_called := False, wrap_pthread_cond_wait_was_called := False,
        use_wrap_pthread_cond_wait := False, wrap_pthread_cond_wait_return_value := INT_MIN,
        wrap_pthread_cond_signal_should_be_called := False, wrap_pthread_cond_signal_was_called := False,
        use_wrap_CFE_SBN_Client_GetMsgId := False, wrap_CFE_SBN_Client_GetMsgId_return_value := 0xFFFF,
        wrap_pthread_cond_timedwait_should_be_called := False, use_wrap_pthread_cond_timedwait := False,
        wrap_pthread_cond_timedwait_was_called := False, wrap_pthread_cond_timedwait_return_value := 0,
        use_wrap_CFE_SBN_Client_GetPipeIdx := False, wrap_CFE_SBN_Client_GetPipeIdx_return_value := UCHAR_MAX,
        use_wrap_connect_to_server := False, wrap_connect_to_server_return_value := INT_MIN,
        wrap_exit_expected_status := INT_MIN, use_wrap_CFE_SBN_Client_InitPipeTbl := False,
        pthread_create_errors_on_call_number := INT_MIN, pthread_create_call_number := 0,
        pthread_create_error_value := INT_MIN, use_wrap_check_pthread_create_status := False,
        wrap_check_pthread_create_status_fail_call := False, check_pthread_create_status_call_number := 0,
        check_pthread_create_status_errors_on_call_number := INT_MIN, use_wrap_send_heartbeat := False,
        wrap_send_heartbeat_return_value := SBN_CLIENT_SUCCESS P, send_hearbeat_call_number := 0,
        send_heartbeat_discontinue_on_call_number := 0, use_wrap_recv_msg := False,
        wrap_recv_msg_return_value := SBN_CLIENT_SUCCESS P, recv_msg_call_number := 0,
        recv_msg_discontiue_on_call_number := 0, perror_expected_string := [],
        wrap_sleep_call_func := None\<rparr>,
      c\<lparr>continue_heartbeat := True, continue_receive_check := True\<rparr>))"

text \<open>\<open>memset\<close> of the table to zero; \<open>UT_ResetState\<close> concerns the framework only.\<close>

definition SBN_Client_Setup :: "platform \<Rightarrow> 'm::len word bench \<Rightarrow> 'm word bench" where
  "SBN_Client_Setup P = (\<lambda>(d, c).
     SBN_CLient_Wrapped_Functions_Setup
       (d, c\<lparr>sbn_client_sockfd := 0, sbn_client_cpuId := 0,
             PipeTbl := replicate CFE_PLATFORM_SBN_CLIENT_MAX_PIPES (static_pipe P)\<rparr>))"

definition SBN_Client_Teardown :: "platform \<Rightarrow> 'm::len word bench \<Rightarrow> 'm word bench" where
  "SBN_Client_Teardown P s = SBN_CLient_Wrapped_Functions_Teardown P s"

section \<open>The logger stub\<close>

text \<open>
  The loop stops one character before the end of the string and takes one \<open>int\<close> argument for each
  \<open>%\<close> it passes; the result is the number of arguments taken.
\<close>

fun stub_vars :: "string \<Rightarrow> nat" where
  "stub_vars [] = 0"
| "stub_vars [c] = 0"
| "stub_vars (c # e # cs) = (if c = CHR ''%'' then 1 else 0) + stub_vars (e # cs)"

definition log_message_stub :: "string \<Rightarrow> 'i bench \<Rightarrow> i32 \<times> 'i bench" where
  "log_message_stub format = (\<lambda>(d, c). (0, (d\<lparr>log_message_was_called := True\<rparr>, c)))"

section \<open>The minder threads over the doubles\<close>

definition heartbeat_round_wrapped :: "(i32 \<Rightarrow> 'i bench \<Rightarrow> i32 \<times> 'i bench) \<Rightarrow> 'i bench \<Rightarrow> 'i bench" where
  "heartbeat_round_wrapped real s =
     (let s1 = (if sbn_client_sockfd (snd s) \<noteq> 0
                then snd (wrap_send_heartbeat real (sbn_client_sockfd (snd s)) s) else s)
      in snd (wrap_sleep SECONDS_BETWEEN_HEARTBEATS s1))"

partial_function (option) HeartbeatMinder_wrapped ::
    "(i32 \<Rightarrow> 'i bench \<Rightarrow> i32 \<times> 'i bench) \<Rightarrow> 'i bench \<Rightarrow> 'i bench option" where
  "HeartbeatMinder_wrapped real s =
     (if continue_heartbeat (snd s) then HeartbeatMinder_wrapped real (heartbeat_round_wrapped real s) else Some s)"

definition receive_round_wrapped ::
    "platform \<Rightarrow> (i32 \<Rightarrow> 'i bench \<Rightarrow> (i32 \<times> 'i bench) run) \<Rightarrow> i32 \<Rightarrow> 'i bench \<Rightarrow> (i32 \<times> 'i bench) run" where
  "receive_round_wrapped P real consec_error_count s =
     bindR (wrap_recv_msg real (sbn_client_sockfd (snd s)) s) (\<lambda>(status, s1).
       let (count, (d2, c2)) =
         (if status \<noteq> CFE_SUCCESS P
          then (consec_error_count + 1,
                snd (log_message_stub (''Receive message returned error 0x%08X'' @ [CHR 0x0A]) s1))
          else (0, s1))
       in Inr (count, (d2,
         if count = 5 then c2\<lparr>continue_heartbeat := False, continue_receive_check := False\<rparr> else c2)))"

partial_function (option) receive_loop_wrapped ::
    "platform \<Rightarrow> (i32 \<Rightarrow> 'i bench \<Rightarrow> (i32 \<times> 'i bench) run) \<Rightarrow> i32 \<Rightarrow> 'i bench \<Rightarrow> 'i bench run option" where
  "receive_loop_wrapped P real consec_error_count s =
     (if continue_receive_check (snd s)
      then (case receive_round_wrapped P real consec_error_count s of
              Inl f \<Rightarrow> Some (Inl f)
            | Inr r \<Rightarrow> receive_loop_wrapped P real (fst r) (snd r))
      else Some (Inr s))"

section \<open>The loops end\<close>

text \<open>The calls until an 8-bit counter that stands at \<open>n\<close> is next equal to \<open>stop\<close>: from 1 to 256.\<close>

definition calls_until :: "u8 \<Rightarrow> u8 \<Rightarrow> nat" where
  "calls_until n stop = unat (stop - n - 1) + 1"

lemma calls_until_bounds: "1 \<le> calls_until n stop \<and> calls_until n stop \<le> 256"
  using unsigned_less [of "stop - n - 1", where ?'a = nat] by (simp add: calls_until_def)

lemma calls_until_1: "calls_until n stop = 1 \<longleftrightarrow> n + 1 = stop"
  by (auto simp: calls_until_def unat_eq_0 algebra_simps)

lemma calls_until_Suc: "n + 1 \<noteq> stop \<Longrightarrow> calls_until n stop = Suc (calls_until (n + 1) stop)"
proof -
  assume "n + 1 \<noteq> stop"
  then have ne: "stop - n - 1 \<noteq> 0" by (auto simp: algebra_simps)
  have "stop - (n + 1) - 1 = (stop - n - 1) - 1" by simp
  then show ?thesis using unat_minus_one [OF ne] ne by (simp add: calls_until_def unat_gt_0)
qed

lemma calls_until_end: "n + of_nat (calls_until n stop) = stop"
  by (simp add: calls_until_def)

lemma heartbeat_round_wrapped_on:
  assumes "use_wrap_send_heartbeat d" and "wrap_sleep_call_func d = None" and "sbn_client_sockfd c \<noteq> 0"
  shows "heartbeat_round_wrapped real (d, c) =
    (d\<lparr>send_hearbeat_call_number := send_hearbeat_call_number d + 1\<rparr>,
     if send_hearbeat_call_number d + 1 = send_heartbeat_discontinue_on_call_number d
     then c\<lparr>continue_heartbeat := False\<rparr> else c)"
  using assms by (simp add: heartbeat_round_wrapped_def wrap_send_heartbeat_def wrap_sleep_def Let_def)

lemma HeartbeatMinder_wrapped_on:
  assumes "use_wrap_send_heartbeat d" and "wrap_sleep_call_func d = None" and "sbn_client_sockfd c \<noteq> 0"
    and "continue_heartbeat c"
  shows "HeartbeatMinder_wrapped real (d, c) =
    Some (d\<lparr>send_hearbeat_call_number := send_heartbeat_discontinue_on_call_number d\<rparr>, c\<lparr>continue_heartbeat := False\<rparr>)"
  using assms(1,2)
proof (induction "calls_until (send_hearbeat_call_number d) (send_heartbeat_discontinue_on_call_number d)" arbitrary: d)
  case 0
  then show ?case by (simp add: calls_until_def)
next
  case (Suc k)
  let ?n = "send_hearbeat_call_number d" and ?stop = "send_heartbeat_discontinue_on_call_number d"
  let ?d = "d\<lparr>send_hearbeat_call_number := ?n + 1\<rparr>"
  note round = heartbeat_round_wrapped_on [OF Suc.prems assms(3), of real]
  have step: "HeartbeatMinder_wrapped real (d, c) = HeartbeatMinder_wrapped real (heartbeat_round_wrapped real (d, c))"
    using assms(4) by (subst HeartbeatMinder_wrapped.simps) simp
  show ?case
  proof (cases "?n + 1 = ?stop")
    case True
    then show ?thesis unfolding step round by (subst HeartbeatMinder_wrapped.simps) simp
  next
    case False
    then have "k = calls_until (?n + 1) ?stop" using Suc.hyps(2) calls_until_Suc by simp
    then show ?thesis using Suc.hyps(1) [of ?d] Suc.prems False unfolding step round by simp
  qed
qed

lemma HeartbeatMinder_wrapped_stuck:
  "HeartbeatMinder_wrapped real s = Some t \<Longrightarrow>
    \<not> (sbn_client_sockfd (snd s) = 0 \<and> wrap_sleep_call_func (fst s) = None \<and> continue_heartbeat (snd s))"
proof (rule HeartbeatMinder_wrapped.raw_induct [where P = "\<lambda>r s t. \<not> (sbn_client_sockfd (snd s) = 0 \<and>
    wrap_sleep_call_func (fst s) = None \<and> continue_heartbeat (snd s))"])
  fix f r and u :: "'a bench" and t
  assume IH: "\<And>r u t. f r u = Some t \<Longrightarrow> \<not> (sbn_client_sockfd (snd u) = 0 \<and>
      wrap_sleep_call_func (fst u) = None \<and> continue_heartbeat (snd u))"
    and run: "(if continue_heartbeat (snd u) then f r (heartbeat_round_wrapped r u) else Some u) = Some t"
  show "\<not> (sbn_client_sockfd (snd u) = 0 \<and> wrap_sleep_call_func (fst u) = None \<and> continue_heartbeat (snd u))"
  proof
    assume a: "sbn_client_sockfd (snd u) = 0 \<and> wrap_sleep_call_func (fst u) = None \<and> continue_heartbeat (snd u)"
    then have "heartbeat_round_wrapped r u = u" by (simp add: heartbeat_round_wrapped_def wrap_sleep_def)
    moreover have "f r u = Some t" using run a \<open>heartbeat_round_wrapped r u = u\<close> by simp
    ultimately show False using IH [of r u t] a by blast
  qed
qed


section \<open>The receive loop\<close>

lemma receive_round_wrapped_on:
  assumes "use_wrap_recv_msg d" and "stop = (recv_msg_call_number d + 1 = recv_msg_discontiue_on_call_number d)"
    and "v = wrap_recv_msg_return_value d"
    and "count = (if v = CFE_SUCCESS P then 0 else n + 1)"
  shows "receive_round_wrapped P real n (d, c) =
    Inr (count, (d\<lparr>recv_msg_call_number := recv_msg_call_number d + 1,
        log_message_was_called := log_message_was_called d \<or> v \<noteq> CFE_SUCCESS P\<rparr>,
      c\<lparr>continue_heartbeat := continue_heartbeat c \<and> count \<noteq> 5,
        continue_receive_check := continue_receive_check c \<and> \<not> stop \<and> count \<noteq> 5\<rparr>))"
  using assms by (simp add: receive_round_wrapped_def wrap_recv_msg_def log_message_stub_def Let_def)

lemma receive_loop_wrapped_step:
  "continue_receive_check c \<Longrightarrow> receive_round_wrapped P real n (d, c) = Inr (n', s') \<Longrightarrow>
   receive_loop_wrapped P real n (d, c) = receive_loop_wrapped P real n' s'"
  by (subst receive_loop_wrapped.simps) simp

lemma receive_loop_wrapped_stop:
  "\<not> continue_receive_check c \<Longrightarrow> receive_loop_wrapped P real n (d, c) = Some (Inr (d, c))"
  by (subst receive_loop_wrapped.simps) simp

lemma receive_check_same: "continue_receive_check c \<Longrightarrow> c\<lparr>continue_receive_check := True\<rparr> = c"
  by (cases c) simp

lemma receive_loop_wrapped_good:
  assumes "use_wrap_recv_msg d" and "wrap_recv_msg_return_value d = CFE_SUCCESS P" and "continue_receive_check c"
  shows "receive_loop_wrapped P real n (d, c) =
    Some (Inr (d\<lparr>recv_msg_call_number := recv_msg_discontiue_on_call_number d\<rparr>, c\<lparr>continue_receive_check := False\<rparr>))"
  using assms(1,2)
proof (induction "calls_until (recv_msg_call_number d) (recv_msg_discontiue_on_call_number d)" arbitrary: d n)
  case 0
  then show ?case by (simp add: calls_until_def)
next
  case (Suc k)
  let ?n = "recv_msg_call_number d" and ?stop = "recv_msg_discontiue_on_call_number d"
  let ?d = "d\<lparr>recv_msg_call_number := ?n + 1\<rparr>"
  have round: "receive_round_wrapped P real n (d, c) = Inr (0, (?d,
      c\<lparr>continue_receive_check := ?n + 1 \<noteq> ?stop\<rparr>))"
    using receive_round_wrapped_on [OF Suc.prems(1) refl refl refl, of P real n c] Suc.prems(2) assms(3) by simp
  note step = receive_loop_wrapped_step [OF assms(3) round]
  show ?case
  proof (cases "?n + 1 = ?stop")
    case True
    then show ?thesis unfolding step by (simp add: receive_loop_wrapped_stop)
  next
    case False
    then have "k = calls_until (?n + 1) ?stop" using Suc.hyps(2) calls_until_Suc by simp
    then show ?thesis using Suc.hyps(1) [of ?d 0] Suc.prems False assms(3)
      unfolding step by (simp add: receive_check_same)
  qed
qed

text \<open>With a result that is an error the count of consecutive errors ends the loop too: \<open>k\<close> more are allowed.\<close>

lemma receive_loop_wrapped_bad:
  assumes "use_wrap_recv_msg d" and "wrap_recv_msg_return_value d \<noteq> CFE_SUCCESS P" and "continue_receive_check c"
    and "0 < k" "k \<le> 5"
  shows "receive_loop_wrapped P real (5 - of_nat k) (d, c) =
    Some (Inr (d\<lparr>recv_msg_call_number := recv_msg_call_number d +
        of_nat (min k (calls_until (recv_msg_call_number d) (recv_msg_discontiue_on_call_number d))),
        log_message_was_called := True\<rparr>,
      c\<lparr>continue_heartbeat := continue_heartbeat c \<and>
          calls_until (recv_msg_call_number d) (recv_msg_discontiue_on_call_number d) < k,
        continue_receive_check := False\<rparr>))"
  using assms
proof (induction k arbitrary: d)
  case (Suc k)
  let ?n = "recv_msg_call_number d" and ?stop = "recv_msg_discontiue_on_call_number d"
  let ?d = "d\<lparr>recv_msg_call_number := ?n + 1, log_message_was_called := True\<rparr>"
  have cnt: "(5 - of_nat (Suc k) :: i32) + 1 = 5 - of_nat k" by simp
  have five: "(5 - of_nat k :: i32) = 5 \<longleftrightarrow> k = 0"
    using Suc.prems(5) by (auto simp: word_of_nat_eq_0_iff dest: dvd_imp_le)
  have round: "receive_round_wrapped P real (5 - of_nat (Suc k)) (d, c) = Inr (5 - of_nat k, (?d,
      c\<lparr>continue_heartbeat := continue_heartbeat c \<and> k \<noteq> 0,
        continue_receive_check := ?n + 1 \<noteq> ?stop \<and> k \<noteq> 0\<rparr>))"
    using receive_round_wrapped_on [OF Suc.prems(1) refl refl refl, of P real "5 - of_nat (Suc k)" c] Suc.prems(2,3)
    unfolding cnt five by (simp add: cnt five)
  note step = receive_loop_wrapped_step [OF Suc.prems(3) round]
  show ?case
  proof (cases "?n + 1 = ?stop \<or> k = 0")
    case True
    then show ?thesis unfolding step using calls_until_1 [of ?n ?stop] calls_until_bounds [of ?n ?stop]
      by (auto simp: receive_loop_wrapped_stop min_def)
  next
    case False
    then have "calls_until ?n ?stop = Suc (calls_until (?n + 1) ?stop)" by (simp add: calls_until_Suc)
    then show ?thesis using Suc.IH [of ?d] Suc.prems False
      unfolding step by (simp add: receive_check_same ac_simps)
  qed
qed simp

text \<open>
  The receive loop over the double of \<open>recv_msg\<close> always returns. When the double reports success it
  does so at the call whose number is the chosen one, after at most 256 calls; when it reports an error, at that
  call or at the fifth, whichever comes first, and in the second case the heartbeat flag is cleared too.
\<close>

theorem receive_double_ends:
  assumes "use_wrap_recv_msg d" and "continue_receive_check c"
  shows "(wrap_recv_msg_return_value d = CFE_SUCCESS P \<longrightarrow> receive_loop_wrapped P real 0 (d, c) =
      Some (Inr (d\<lparr>recv_msg_call_number := recv_msg_discontiue_on_call_number d\<rparr>, c\<lparr>continue_receive_check := False\<rparr>))) \<and>
    (wrap_recv_msg_return_value d \<noteq> CFE_SUCCESS P \<longrightarrow>
      (let calls = min 5 (unat (recv_msg_discontiue_on_call_number d - recv_msg_call_number d - 1) + 1) in
       receive_loop_wrapped P real 0 (d, c) =
        Some (Inr (d\<lparr>recv_msg_call_number := recv_msg_call_number d + of_nat calls, log_message_was_called := True\<rparr>,
          c\<lparr>continue_heartbeat := continue_heartbeat c \<and> calls < 5, continue_receive_check := False\<rparr>))))"
  using receive_loop_wrapped_good [OF assms(1) _ assms(2), of P real 0]
    receive_loop_wrapped_bad [OF assms(1) _ assms(2), of P 5 real]
  by (simp add: calls_until_def Let_def min_less_iff_disj)

section \<open>Between two tests\<close>

text \<open>
  What \<open>SBN_Client_Teardown\<close> followed by \<open>SBN_Client_Setup\<close> leaves behind: every global of the
  doubles is as at program start, except the return values of the doubles of \<open>socket\<close>, \<open>htons\<close>,
  \<open>inet_pton\<close>, \<open>connect\<close> and \<open>read\<close>, which keep what the last test chose, and the flag and buffer of the message helpers;
  the client's flags are set, its descriptor and table are zero. So \<open>read\<close> reaches the real one after a test
  only when that test had chosen \<open>INT_MIN\<close>, and never before a test has.
\<close>

theorem teardown_setup:
  "SBN_Client_Setup P (SBN_Client_Teardown P (d, c)) =
    ((doubles_start P)\<lparr>wrap_socket_return_value := wrap_socket_return_value d,
       wrap_htons_return_value := wrap_htons_return_value d,
       wrap_inet_pton_return_value := wrap_inet_pton_return_value d,
       wrap_connect_return_value := wrap_connect_return_value d,
       wrap_read_return_value := wrap_read_return_value d,
       log_message_was_called := log_message_was_called d, error_message := error_message d, Failed := Failed d\<rparr>,
     c\<lparr>continue_heartbeat := True, continue_receive_check := True, sbn_client_sockfd := 0, sbn_client_cpuId := 0,
       PipeTbl := replicate 5 (static_pipe P)\<rparr>) \<and>
   wrap_read real fd n (SBN_Client_Setup P (SBN_Client_Teardown P (d, c))) =
     (if wrap_read_return_value d = 0xFFFFFFFF80000000
      then real fd n (SBN_Client_Setup P (SBN_Client_Teardown P (d, c)))
      else Inr (wrap_read_return_value d, SBN_Client_Setup P (SBN_Client_Teardown P (d, c)))) \<and>
   wrap_read real fd n (doubles_start P, c) = Inr (0, (doubles_start P, c))"
proof -
  have m: "(scast INT_MIN :: size_t) = 0xFFFFFFFF80000000" by simp
  show ?thesis
    by (simp add: SBN_Client_Setup_def SBN_Client_Teardown_def SBN_CLient_Wrapped_Functions_Setup_def
        SBN_CLient_Wrapped_Functions_Teardown_def doubles_start_def wrap_read_def m del: INT_MIN_def)
qed

text \<open>
  The double of \<open>pthread_mutex_unlock\<close> reports an unlock that comes before the lock exactly when the
  lock has been called, and never when the unlock is expected.
\<close>

lemma unlock_double_order:
  "Failed (fst (snd (wrap_pthread_mutex_unlock (d, c)))) = Failed d @
    (if wrap_pthread_mutex_unlock_should_be_called d then []
     else ''pthread_mutex_unlock called, but should not have been'' #
       (if wrap_pthread_mutex_lock_was_called d
        then [''pthread_mutex_unlock called before calling pthread_mutex_lock''] else []))"
  by (simp add: wrap_pthread_mutex_unlock_def UtAssert_Failed_def Let_def)

text \<open>The logger stub takes one argument for each \<open>%\<close> that is not the last character.\<close>

lemma stub_vars_count: "stub_vars f = length (filter (\<lambda>c. c = CHR ''%'') (butlast f))"
  by (induction f rule: stub_vars.induct) simp_all

section \<open>Concrete tests\<close>

definition some_doubles :: "16 word doubles" where
  "some_doubles = (doubles_start cfs_small)\<lparr>use_wrap_send_heartbeat := True, use_wrap_recv_msg := True,
     wrap_recv_msg_return_value := 7\<rparr>"


lemma some_doubles_fields:
  "use_wrap_recv_msg some_doubles" "wrap_recv_msg_return_value some_doubles = 7"
  "recv_msg_call_number some_doubles = 0" "recv_msg_discontiue_on_call_number some_doubles = 0"
  "continue_receive_check (client_start cfs_small)"
  by (simp_all add: some_doubles_def doubles_start_def client_start_def)

theorem receive_double_ends_witness:
  "\<exists>t. receive_loop_wrapped cfs_small (\<lambda>_ s. Inr (0, s)) 0 (some_doubles, client_start cfs_small) = Some (Inr t) \<and>
    recv_msg_call_number (fst t) = 5 \<and> \<not> continue_heartbeat (snd t)"
proof -
  have "unat (0 - 0 - 1 :: u8) = 255" by (simp add: unsigned_minus_1_eq_mask mask_eq_exp_minus_1)
  then show ?thesis
    using receive_double_ends [OF some_doubles_fields(1,5), of cfs_small "\<lambda>_ s. Inr (0, s)"]
    by (simp add: some_doubles_fields(2-4) Let_def)
qed

end
