(* ===== verification/Spec2Isabelle.thy ===== *)
theory Spec2Isabelle
  imports SBN_Session SBN_Races SBN_Signals SBN_Doubles SBN_Random
begin

text \<open>
  A verification library for the Software Bus Network client (\<open>src/fsw/src\<close>).

  \<^bold>\<open>The program.\<close> The client lets a process outside a cFS system use the software bus: it
  connects to the SBN application over TCP (\<open>SBN_Client_Init\<close>), starts a heartbeat thread and a receive thread
  (\<open>sbn_client_minders.c\<close>), and offers the calls of the cFE software bus (\<open>sbn_client_wrappers.c\<close>). A pipe is an entry of the
  global \<open>PipeTbl\<close> with a ring of 32 message slots and 4 subscription slots. The receive thread reads SBN frames
  (\<open>recv_msg\<close>), copies application messages into the first pipe subscribed to their id (\<open>ingest_app_message\<close>, under
  \<open>receive_mutex\<close>) and signals \<open>received_condition\<close>; the application takes them with \<open>CFE_SB_RcvMsg\<close>.

  \<^bold>\<open>Theories, in the order they build on each other.\<close>

  \<^item> \<open>SBN_Prelude\<close>: machine integers at their width (\<open>int32\<close> is a 32-bit word read with \<open>sint\<close>), the result type
  \<open>fault + 'a\<close>, checked array access, searches with early exit, byte buffers.
  \<^item> \<open>SBN_Platform\<close>: what is not in the repository. The records \<open>platform\<close> (status codes and sizes of cFE, OSAL and SBN, the
  CCSDS header macros) and \<open>packer\<close> (\<open>sbn_pack.h\<close>) are arguments of the definitions; \<open>platform_ok\<close>,
  \<open>ccsds_v1_ok\<close> and \<open>packer_ok\<close> state their documented behaviour, and \<open>cfs\<close>, \<open>cfs_small\<close> and \<open>list_packer\<close> are instances. A socket is a
  script of what its reads and writes will return, with the bytes sent so far.
  \<^item> \<open>SBN_State\<close>: the constants (\<open>sbn_client.h\<close>, \<open>sbn_client_defs.h\<close>), the pipe descriptor (\<open>sbn_client_utils.h\<close>), the globals of the process
  as the record \<open>client\<close>, and the logger (\<open>sbn_client_logger.c\<close>). Each field is the global of the same name; the fields in capitals are what the
  code does to its surroundings: sockets, open descriptors, heap blocks, threads, lock operations, seconds slept, \<open>errno\<close>, output.
  \<^item> \<open>SBN_Fifo\<close>, \<open>SBN_Pipe\<close>: the contract of a bounded queue as the locale \<open>bounded_fifo\<close>, and the ring that keeps it, with
  \<open>pipe_unread\<close> as abstraction (\<open>invalidate_pipe\<close>, \<open>message_entry_point\<close>, the statements that put and take).
  \<^item> \<open>SBN_Table\<close>: \<open>PipeTbl\<close>: initialisation, the searches, \<open>CFE_SB_CreatePipe\<close>, \<open>CFE_SB_DeletePipe\<close>, the invariant \<open>tbl_inv\<close>, and
  the locale \<open>pipe_lookup\<close> that the callers of the lookup rest on.
  \<^item> \<open>SBN_Socket\<close>, \<open>SBN_Frame\<close>: the exact read (locale \<open>byte_source\<close>), the single write, connecting; the SBN header, the heartbeat and
  subscription frames.
  \<^item> \<open>SBN_Subscribe\<close>, \<open>SBN_Send\<close>: \<open>CFE_SB_Subscribe\<close> and the calls that are not implemented; \<open>CFE_SB_SendMsg\<close>.
  \<^item> \<open>SBN_Ingest\<close>, \<open>SBN_Recv\<close>: message id, delivery, \<open>recv_msg\<close>; what they do to one frame, to a stream and to arbitrary input.
  \<^item> \<open>SBN_Clock\<close>, \<open>SBN_RcvMsg\<close>: the deadline in IEEE double arithmetic, and \<open>CFE_SB_RcvMsg\<close>.
  \<^item> \<open>SBN_Minders\<close>, \<open>SBN_Init\<close>: the two threads and the initialisation.
  \<^item> \<open>SBN_System\<close>: the threads and one application as a step relation, with the locale \<open>transition_system\<close> for
  invariants of its runs.
  \<^item> \<open>SBN_Signals\<close>: \<open>received_condition\<close> as POSIX has it, on the same whole critical sections: every thread idle, asleep on a
  pipe, woken by a signal, or about to signal after it has unlocked; the invariant of one receiver that never sleeps on a message,
  and the two ways in which a signal goes to the wrong place.
  \<^item> \<open>SBN_Resume\<close>: programs as trees of atomic steps, their interleavings, and the locale \<open>rely_guarantee\<close> for threads that
  each keep an interface, with an auxiliary value for the proofs that no program reads.
  \<^item> \<open>SBN_Threads\<close>, \<open>SBN_Sequential\<close>: the calls and the two threads once more, statement by statement (\<open>CreatePipe_prog\<close>,
  \<open>DeletePipe_prog\<close>, \<open>Subscribe_prog\<close>, \<open>SendMsg_prog\<close>, \<open>RcvMsg_prog\<close>, \<open>receive_prog\<close> with \<open>recv_msg_prog\<close> and
  \<open>ingest_app_message_prog\<close>, \<open>heartbeat_prog\<close>), and that run alone they are the whole calls and threads.
  \<^item> \<open>SBN_Interleave\<close>, \<open>SBN_Concurrent\<close>, \<open>SBN_Network\<close>: what a step may do to the table, the mutex, the rings and
  the connection; that every call and thread keeps it, with any invariant of a ring (locale \<open>ring_invariant\<close>) and of the sockets
  (locales \<open>net_invariant\<close> and \<open>framed_net\<close>, together in \<open>call_invariant\<close> and \<open>thread_invariant\<close>). \<open>SBN_Streams\<close>, \<open>SBN_Crews\<close>: the invariants of
  the connection and of the rings that are used, each pair an interpretation of \<open>thread_invariant\<close>. \<open>SBN_Races\<close>: what they give
  for any number of threads, and three races.
  \<^item> \<open>SBN_Doubles\<close>: the wrapped functions of the unit tests (\<open>sbn_client_wrapped_functions.c\<close>), the logger stub, set up and tear
  down, and the two threads run over them. \<open>SBN_Random\<close>: the generators of \<open>sbn_client_common_test_utils.c\<close>.
  \<^item> \<open>SBN_Session\<close> and this theory: a session of public calls from start to finish.

  \<^bold>\<open>Conventions.\<close> \<open>Inl OutOfBounds\<close> and \<open>Inl NullDeref\<close> stand for an access the C standard leaves undefined, \<open>Inl Blocked\<close> for a
  read that never returns; that an operation gives \<open>Inr\<close> is therefore a theorem about memory safety. Status codes
  are results, as in the code. Memory the code does not initialise is a function from positions to bytes, an argument over which the
  theorems quantify. Pointers to slots are values \<open>Slot i k\<close>. What system calls return is an argument (\<open>rcv_env\<close>, \<open>connect_env\<close>, \<open>init_env\<close>), the
  wait on the condition a function of the state, since other threads run meanwhile. In \<open>SBN_Threads\<close> a step is one assignment to an
  entry or a global, one condition on one or one system call; \<open>errno\<close> is written by no thread but the one that reads; memory is sequentially consistent, taking and giving up the mutex succeed, and a wait
  ends when its pipe has a message, or, where the flag \<open>sp\<close> is set, at any time. The functions a test double hides (\<open>__real_\<close>) are arguments,
  and \<open>rand\<close> is a stream of numbers.

  \<^bold>\<open>What is shown.\<close> A pipe is a first-in first-out queue of 31 messages; no
  delivery overwrites the message the application holds; any cutting of the stream into chunks gives the same deliveries; whatever
  arrives, no array is left; every branch of every public call, with its status and effect; the packing of header, heartbeat, message and
  subscription, and the round trip from one client to another; the table invariant and the mutex discipline for all interleavings of
  calls; when both threads return. One receiver is woken for every delivery, whenever the signal comes after the unlock. For interleavings inside the calls and threads, over any network input: array bounds and the mutex for all of them, the rings and the queue of
  every pipe when no pipe is deleted and no successful wait ends early (for instance when all receives poll), with messages that are
  payloads of the stream that arrived, none twice and in its order when the receive thread alone delivers, and, when the stream consists of
  well-formed frames, exactly payloads of its application frames, each in a pipe that has or gets its message id; that every run ends with the mutex free; and that frames are not mixed on the wire. The doubles stop the threads they are
  linked into, and the generators stay in their ranges. Several theorems describe what the code does where that is hardly meant: the
  wait that is not repeated, ids used before they are checked, the leak after a short write, the 16-bit length, the
  first subscriber, message id 0, the frame that is not consumed, the deadline that is a second late, the pipe given to two threads, the subscription that is lost, the message
  that outlives its pipe, the signal that ends a later wait or wakes the receiver of another pipe.

  \<^bold>\<open>Bounds and termination.\<close> No fuel is used in the whole calls. The exact read is a \<open>function\<close> that ends because a read with a
  result takes at least one byte; the delivery loop counts the five pipes down; the threads are \<open>partial_function (option)\<close>, and that they
  return, or do not, is proved. Programs of steps are well-founded trees, so a crew with finitely many calls makes finitely many steps; there the two
  threads run for any given number of rounds, and the exact read counts down the bytes it can still want. The call
  counters of the doubles have 8 bits, so a thread stops within 256 rounds. Size arguments are unbounded numbers where the code has \<open>size_t\<close>; \<open>platform_ok\<close> bounds the largest message
  by \<open>2 ^ 31\<close>.

  \<^bold>\<open>What is not modelled.\<close> Weak memory and accesses finer than an assignment; in the statement by statement programs, which of several
  waiting threads a signal wakes (there a wait ends as \<open>sp\<close> allows; \<open>SBN_Signals\<close> has the signals, between whole critical sections); \<open>SIGPIPE\<close>; the clock of the condition variable, whose deadline is
  computed from another clock; declarations no code uses (\<open>MsgId_Subscriptions\<close>, \<open>CFE_SBN_Client_BufferD_t\<close>, \<open>SBN_Hdr_t\<close>); the Python
  binding, which only forwards calls; the test cases, which are scripts of assertions over the modelled calls, the test framework they
  run in, and the build files.
\<close>

section \<open>A session\<close>

text \<open>
  C1. A session from start to finish: after a successful initialisation, creating a pipe gives id 0 and
  subscribing it succeeds; when any frames then arrive on the connection, in any chunks, the receive thread
  reads them all, and \<open>n\<close> polling receives hand out, in order, the payloads of the application frames with
  the subscribed message id (or with id 0, which the free slots match), at most the first 31 of them, each at
  the start of its slot; when these are used up, polling reports \<open>CFE_SB_NO_MESSAGE\<close>.
\<close>

theorem session_delivers:
  fixes s0 :: "'m::len word client"
  assumes P: "platform_ok P" and K: "packer_ok K enc"
    and init: "tbl_wf P (PipeTbl s0)" "SBN_Client_Init P e s0 = (0, s1)"
    and depth: "depth \<noteq> 0" "unat depth \<le> 32"
    and calls: "lock_ret c = 0" "unlock_ret c = 0"
    and frames: "\<forall>f \<in> set fs. frame_ok P f"
    and stream: "incoming (rd (Sock s0 (socket_ret (conn e)))) = concat (map frame_bytes fs) @ rest"
  shows "\<exists>s2 s3 s4 s5 msgs. let due = take 31 (wanted P h m fs) in
    wrap_CFE_SB_CreatePipe P True depth (Some nm) s1 = Inr (OS_SUCCESS P, Some 0, s2) \<and>
    wrap_CFE_SB_Subscribe P K m 0 s2 = Inr (CFE_SUCCESS P, s3) \<and>
    recv_each P K g h (sbn_client_sockfd s3) (length fs) s3 =
      Inr (replicate (length fs) (CFE_SUCCESS P), s4) \<and>
    poll_each P c 0 n s4 =
      Inr (replicate (min n (length due)) (CFE_SUCCESS P) @
           replicate (n - length due) (CFE_SB_NO_MESSAGE P), msgs, s5) \<and>
    list_all2 slot_carries msgs (take n due)"
proof -
  note i = Init_success [OF P init]
  obtain s2 where s2: "wrap_CFE_SB_CreatePipe P True depth (Some nm) s1 = Inr (OS_SUCCESS P, Some 0, s2)"
    and t2: "tbl_inv P (PipeTbl s2)" "pipe_live s2 0" "SubscribedMsgIds (PipeTbl s2 ! 0) = replicate 4 0"
      "\<forall>i < 5. 0 < i \<longrightarrow> InUse (PipeTbl s2 ! i) \<noteq> 1"
    and u2: "pipe_unread (PipeTbl s2 ! 0) = []" and k2: "Sock s2 = Sock s1" "sbn_client_sockfd s2 = sbn_client_sockfd s1"
    using first_pipe [OF i(1,2) depth] by metis
  obtain s3 where s3: "wrap_CFE_SB_Subscribe P K m 0 s2 = Inr (CFE_SUCCESS P, s3)"
    and t3: "tbl_inv P (PipeTbl s3)" "pipe_live s3 0" and u3: "pipe_unread (PipeTbl s3 ! 0) = []"
    and r3: "\<And>m'. route (PipeTbl s3) m' = (if m' = m \<or> m' = 0 then Some 0 else None)"
    and k3: "\<And>fd. rd (Sock s3 fd) = rd (Sock s2 fd)" "sbn_client_sockfd s3 = sbn_client_sockfd s2"
    using first_subscription [OF t2, of K m] u2 by metis
  have "incoming (rd (Sock s3 (sbn_client_sockfd s3))) = concat (map frame_bytes fs) @ rest"
    using stream k2 k3 i(3,4) by simp
  from subscribed_session [OF P K t3 u3 r3 calls frames this, of h g n] show ?thesis
    using s2 s3 by (auto simp: Let_def)
qed

text \<open>Connecting and both threads succeed, descriptor 4; the peer sends a heartbeat and one message.\<close>

definition good_env :: init_env where
  "good_env = \<lparr>conn = \<lparr>socket_ret = 4, socket_errno = 0, inet_pton_ret = 1, inet_pton_addr = [127, 0, 0, 1],
     connect_ret = 0, connect_errno = 0\<rparr>, heart_ret = 0, receive_ret = 0\<rparr>"

definition peer_frames :: "frame list" where
  "peer_frames = [(0xA0, 1, []), (3, 1, [24, 1])]"

definition client_peer :: "16 word client" where
  "client_peer = set_rd 4 [Rd_Data [0, 0, 0xA0, 0], Rd_Data [0, 0, 1, 0, 2, 3, 0, 0, 0, 1, 24, 1]]
     (client_start cfs_small)"

lemma client_peer_init: "\<exists>s1. SBN_Client_Init cfs_small good_env client_peer = (0, s1)"
proof -
  have "tbl_wf cfs_small (PipeTbl client_peer)"
    using tbl_wf_client_start [of cfs_small] by (simp add: client_peer_def)
  from Init_cases [OF platform_ok_cfs(2) this, of good_env]
  show ?thesis
    by (cases "SBN_Client_Init cfs_small good_env client_peer")
      (simp add: good_env_def conn_stage_def)
qed

lemma peer_wanted: "wanted cfs_small (\<lambda>_. 0) (0x1801 :: 16 word) peer_frames = [[24, 1]]"
proof -
  have "app_msgid cfs_small (\<lambda>_. 0) [24, 1] = (0x1801 :: 16 word)" by (subst app_msgid_v1) simp_all
  then show ?thesis by (simp add: wanted_def peer_frames_def)
qed

theorem session_delivers_witness:
  "\<exists>s1 s2 s3 s4 s5 slot. SBN_Client_Init cfs_small good_env client_peer = (0, s1) \<and>
    wrap_CFE_SB_CreatePipe cfs_small True 4 (Some [0x61]) s1 = Inr (0, Some 0, s2) \<and>
    wrap_CFE_SB_Subscribe cfs_small list_packer 0x1801 0 s2 = Inr (0, s3) \<and>
    recv_each cfs_small list_packer (\<lambda>_. 0) (\<lambda>_. 0) (sbn_client_sockfd s3) 2 s3 = Inr ([0, 0], s4) \<and>
    poll_each cfs_small calm 0 2 s4 = Inr ([0, 0xCA000002], [slot], s5) \<and> slot_carries slot [24, 1]"
proof -
  obtain s1 where s1: "SBN_Client_Init cfs_small good_env client_peer = (0, s1)"
    using client_peer_init by blast
  have wf: "tbl_wf cfs_small (PipeTbl client_peer)"
    using tbl_wf_client_start [of cfs_small] by (simp add: client_peer_def)
  have frames: "\<forall>f \<in> set peer_frames. frame_ok cfs_small f"
    by (simp add: peer_frames_def frame_ok_def control_type_def)
  have stream: "incoming (rd (Sock client_peer (socket_ret (conn good_env)))) =
      concat (map frame_bytes peer_frames) @ []"
    by (simp add: client_peer_def good_env_def peer_frames_def sbn_header_def be16_def be32_def)
  have len: "length peer_frames = 2" by (simp add: peer_frames_def)
  have depth: "(4 :: u16) \<noteq> 0" "unat (4 :: u16) \<le> 32" by simp_all
  note w = session_delivers [OF platform_ok_cfs(2) packer_ok_list_packer wf s1 depth calm_fields(2,4) frames stream,
      where m = "0x1801" and nm = "[0x61]" and n = 2 and g = "\<lambda>_. 0" and h = "\<lambda>_. 0"]
  have two: "replicate 2 (0 :: i32) = [0, 0]" by (simp add: numeral_eq_Suc)
  obtain s2 s3 s4 s5 msgs where
    r: "wrap_CFE_SB_CreatePipe cfs_small True 4 (Some [0x61]) s1 = Inr (0, Some 0, s2)"
    "wrap_CFE_SB_Subscribe cfs_small list_packer 0x1801 0 s2 = Inr (0, s3)"
    "recv_each cfs_small list_packer (\<lambda>_. 0) (\<lambda>_. 0) (sbn_client_sockfd s3) 2 s3 = Inr ([0, 0], s4)"
    "poll_each cfs_small calm 0 2 s4 = Inr ([0, 0xCA000002], msgs, s5)"
    "list_all2 slot_carries msgs [[24, 1]]"
    using w by (auto simp: Let_def peer_wanted len two)
  then obtain slot where "msgs = [slot]" "slot_carries slot [24, 1]"
    by (auto simp: list_all2_Cons2)
  then show ?thesis using s1 r by blast
qed

end
